theory Spec2Isabelle
  imports Complex_Main "HOL-Library.AList"
begin

section \<open>Scores\<close>

text \<open>
  \<^verbatim>\<open>LogProb\<close> is \<^verbatim>\<open>double\<close> in the source. The matrix fill and the traceback only add
  scores, compare them and take \<^verbatim>\<open>max\<close>, so they are written over any linearly ordered
  score type \<open>'v\<close> with \<open>+\<close>, \<open>0\<close> and a least element \<open>bot\<close> standing for
  \<^verbatim>\<open>-numeric_limits<double>::infinity()\<close>. NaN (the one double that is not linearly
  ordered) is outside the model. The instance used for concrete runs is \<open>'a logprob\<close>:
  a finite score or minus infinity, with \<open>-\<infinity> + x = -\<infinity>\<close>.
\<close>

datatype 'a logprob = NegInf | Fin 'a

instantiation logprob :: (plus) plus
begin
fun plus_logprob :: "'a logprob \<Rightarrow> 'a logprob \<Rightarrow> 'a logprob" where
  "plus_logprob (Fin x) (Fin y) = Fin (x + y)"
| "plus_logprob _ _ = NegInf"
instance ..
end

instantiation logprob :: (zero) zero
begin
definition zero_logprob :: "'a logprob" where
  "zero_logprob = Fin 0"
instance ..
end

instantiation logprob :: (linorder) linorder
begin
fun less_eq_logprob :: "'a logprob \<Rightarrow> 'a logprob \<Rightarrow> bool" where
  "less_eq_logprob NegInf _ = True"
| "less_eq_logprob (Fin x) NegInf = False"
| "less_eq_logprob (Fin x) (Fin y) = (x \<le> y)"
fun less_logprob :: "'a logprob \<Rightarrow> 'a logprob \<Rightarrow> bool" where
  "less_logprob _ NegInf = False"
| "less_logprob NegInf (Fin y) = True"
| "less_logprob (Fin x) (Fin y) = (x < y)"
instance
proof
  fix x y z :: "'a logprob"
  show "(x < y) = (x \<le> y \<and> \<not> y \<le> x)"
    by (cases x; cases y) auto
  show "x \<le> x"
    by (cases x) auto
  show "x \<le> y \<Longrightarrow> y \<le> z \<Longrightarrow> x \<le> z"
    by (cases x; cases y; cases z) auto
  show "x \<le> y \<Longrightarrow> y \<le> x \<Longrightarrow> x = y"
    by (cases x; cases y) auto
  show "x \<le> y \<or> y \<le> x"
    by (cases x; cases y) auto
qed
end

instantiation logprob :: (linorder) order_bot
begin
definition bot_logprob :: "'a logprob" where
  "bot_logprob = NegInf"
instance
proof
  fix a :: "'a logprob"
  show "bot \<le> a"
    by (simp add: bot_logprob_def)
qed
end

text \<open>
  \<^verbatim>\<open>log\<close> of a probability: \<^verbatim>\<open>log(0)\<close> is minus infinity. (The logarithm of a negative
  double is NaN; probabilities are not negative when the weights are not.)
\<close>

definition llog :: "real \<Rightarrow> real logprob" where
  "llog p = (if 0 < p then Fin (ln p) else NegInf)"

section \<open>Errors\<close>

text \<open>
  The fatal conditions of the decoder, as values. \<open>EmptyAlphabet\<close> is an error kind of
  the specification; no statement of the source produces it. \<open>NonFiniteProbability\<close> is
  not a failure of the source either: it marks an input model with an infinite or NaN
  probability (see \<open>InputModel_new\<close>).
\<close>

datatype error =
    EmptyAlphabet
  | NonDnaOutput
  | ContextMismatch
  | OutOfRange
  | TracebackInconsistent
  | UnknownTracebackState
  | NonFiniteProbability

section \<open>Double arithmetic\<close>

text \<open>
  The constructor of \<^verbatim>\<open>InputModel\<close> adds and divides doubles. A double is a finite
  number, an infinity or NaN. \<open>rnd\<close> is rounding to the nearest binary64 number, ties to
  even, with unbounded exponent: the unit in the last place of \<open>x\<close> is
  \<open>2\<^sup>e\<^sup>-\<^sup>5\<^sup>2\<close> for the exponent \<open>e\<close> of \<open>x\<close>, which is at least \<open>-1022\<close> (below
  \<open>2\<^sup>-\<^sup>1\<^sup>0\<^sup>2\<^sup>2\<close> the numbers are subnormal, with spacing \<open>2\<^sup>-\<^sup>1\<^sup>0\<^sup>7\<^sup>4\<close>). \<open>fl\<close> is the result of
  an operation whose exact value is \<open>x\<close>: the rounded value, or an infinity when that
  reaches \<open>2\<^sup>1\<^sup>0\<^sup>2\<^sup>4\<close>. Zero has no sign here: \<^verbatim>\<open>norm\<close> starts from \<open>+0\<close> and a sum of
  doubles that starts there is never \<open>-0\<close>.
\<close>

datatype double = Num real | PInf | MInf | NaN

definition expo :: "real \<Rightarrow> int" where
  "expo x = max \<lfloor>log 2 \<bar>x\<bar>\<rfloor> (- 1022)"

definition ulp :: "real \<Rightarrow> real" where
  "ulp x = 2 powr (of_int (expo x) - 52)"

definition roundEven :: "real \<Rightarrow> int" where
  "roundEven y =
     (let f = \<lfloor>y\<rfloor>; r = y - of_int f
      in if r < 1 / 2 then f else if 1 / 2 < r then f + 1 else if even f then f else f + 1)"

definition rnd :: "real \<Rightarrow> real" where
  "rnd x = (if x = 0 then 0 else of_int (roundEven (x / ulp x)) * ulp x)"

definition fl :: "real \<Rightarrow> double" where
  "fl x = (if 2 ^ 1024 \<le> rnd x then PInf else if rnd x \<le> - (2 ^ 1024) then MInf else Num (rnd x))"

text \<open>
  \<^verbatim>\<open>norm += w\<close> and \<^verbatim>\<open>sp.second /= norm\<close> for a finite \<open>w\<close> and a finite \<^verbatim>\<open>sp.second\<close>: the
  weights are finite, \<^verbatim>\<open>norm\<close> is any double.
\<close>

fun dadd :: "double \<Rightarrow> real \<Rightarrow> double" where
  "dadd (Num a) w = fl (a + w)"
| "dadd PInf w = PInf"
| "dadd MInf w = MInf"
| "dadd NaN w = NaN"

fun ddiv :: "real \<Rightarrow> double \<Rightarrow> double" where
  "ddiv w (Num n) = (if n = 0 then (if w = 0 then NaN else if 0 < w then PInf else MInf)
                     else fl (w / n))"
| "ddiv w PInf = Num 0"
| "ddiv w MInf = Num 0"
| "ddiv w NaN = NaN"

fun isNum :: "double \<Rightarrow> bool" where
  "isNum (Num x) = True"
| "isNum _ = False"

fun valueOf :: "double \<Rightarrow> real" where
  "valueOf (Num x) = x"
| "valueOf _ = 0"

text \<open>The finite doubles, and the multiples of the smallest positive double.\<close>

definition isDouble :: "real \<Rightarrow> bool" where
  "isDouble x = (rnd x = x \<and> \<bar>x\<bar> < 2 ^ 1024)"

definition grid :: "real \<Rightarrow> bool" where
  "grid x = (\<exists>m :: int. x = of_int m * 2 powr (- 1074))"

section \<open>InputModel\<close>

text \<open>
  \<^verbatim>\<open>symProb\<close> is a \<^verbatim>\<open>std::map<char,double>\<close>: an association list with distinct keys
  (\<^const>\<open>AList.update\<close> overwrites the entry of a key that is already there, as
  \<^verbatim>\<open>symProb[c] = w\<close> does). \<^verbatim>\<open>Machine::isControl\<close> is a parameter. The probabilities of
  an \<open>InputModel\<close> are the values of finite doubles.
\<close>

record InputModel =
  inputAlphabet :: string
  symProb :: "(char \<times> real) list"

text \<open>
  The first loop of the constructor: one pass over the alphabet string, which stores
  the weight of each character and adds it to \<^verbatim>\<open>norm\<close> in double arithmetic. The two
  weights are the values of the (finite) double arguments.
\<close>

fun weigh :: "(char \<Rightarrow> bool) \<Rightarrow> real \<Rightarrow> real \<Rightarrow> (char \<times> real) list \<times> double \<Rightarrow> string
    \<Rightarrow> (char \<times> real) list \<times> double" where
  "weigh isControl symWeight controlWeight (sp, nrm) [] = (sp, nrm)"
| "weigh isControl symWeight controlWeight (sp, nrm) (c # cs) =
     (let w = (if isControl c then controlWeight else symWeight)
      in weigh isControl symWeight controlWeight (AList.update c w sp, dadd nrm w) cs)"

text \<open>The variable \<^verbatim>\<open>norm\<close> after the first loop.\<close>

definition normOf :: "(char \<Rightarrow> bool) \<Rightarrow> string \<Rightarrow> real \<Rightarrow> real \<Rightarrow> double" where
  "normOf isControl inAlph symWeight controlWeight =
     snd (weigh isControl symWeight controlWeight ([], Num 0) inAlph)"

text \<open>
  The second loop divides every entry by \<^verbatim>\<open>norm\<close>: the member \<^verbatim>\<open>symProb\<close> when the
  constructor returns.
\<close>

definition symProbOf :: "(char \<Rightarrow> bool) \<Rightarrow> string \<Rightarrow> real \<Rightarrow> real \<Rightarrow> (char \<times> double) list" where
  "symProbOf isControl inAlph symWeight controlWeight =
     (case weigh isControl symWeight controlWeight ([], Num 0) inAlph of
        (sp, nrm) \<Rightarrow> map (\<lambda>(c, w). (c, ddiv w nrm)) sp)"

text \<open>
  The constructor. Its body has no \<^verbatim>\<open>Assert\<close> and no \<^verbatim>\<open>throw\<close>, so every call returns
  normally. When every entry of the map is finite the result is the model with these
  probabilities. An entry is infinite or NaN only when \<^verbatim>\<open>norm\<close> is zero or the quotient
  overflows; the source then returns the map with that entry, which the scores of
  this development cannot hold (NaN is outside them): the outcome
  \<open>NonFiniteProbability\<close> marks this case, it is not a failure of the source.
\<close>

definition InputModel_new :: "(char \<Rightarrow> bool) \<Rightarrow> string \<Rightarrow> real \<Rightarrow> real \<Rightarrow> error + InputModel" where
  "InputModel_new isControl inAlph symWeight controlWeight =
     (let ps = symProbOf isControl inAlph symWeight controlWeight
      in if list_all (\<lambda>(c, p). isNum p) ps
         then Inr \<lparr>inputAlphabet = inAlph, symProb = map (\<lambda>(c, p). (c, valueOf p)) ps\<rparr>
         else Inl NonFiniteProbability)"

definition probSum :: "InputModel \<Rightarrow> real" where
  "probSum m = sum_list (map snd (symProb m))"


section \<open>Machine and MachineScores\<close>

type_synonym State = nat
type_synonym Pos = nat
type_synonym Base = nat
type_synonym MutStateIndex = nat
type_synonym InputSymbol = char

text \<open>
  The machine is an external collaborator: only what the decoder reads of it is
  modelled. \<^verbatim>\<open>MachineNull\<close> is the null character, the value that
  \<^verbatim>\<open>if (bestInSym)\<close> of the traceback tests.
\<close>

definition MachineNull :: char where
  "MachineNull = CHR 0x00"

record MachineTransition =
  t_in :: InputSymbol
  t_out :: char
  t_dest :: State

record MachineState =
  m_leftContext :: string
  m_trans :: "MachineTransition list"

record Machine =
  m_state :: "MachineState list"

definition nStatesOf :: "Machine \<Rightarrow> nat" where
  "nStatesOf machine = length (m_state machine)"

definition inputEmpty :: "MachineTransition \<Rightarrow> bool" where
  "inputEmpty t = (t_in t = MachineNull)"

definition outputEmpty :: "MachineTransition \<Rightarrow> bool" where
  "outputEmpty t = (t_out t = MachineNull)"

text \<open>
  Declarations of the machine and sequence headers that the source file uses and does
  not define, taken as parameters: the classifier \<^verbatim>\<open>Machine::isControl\<close>, the symbols
  \<^verbatim>\<open>MachineEOF\<close> (tested by \<^verbatim>\<open>isEOF()\<close>) and \<^verbatim>\<open>MachineWildContext\<close>,
  \<^verbatim>\<open>charToBase\<close>, \<^verbatim>\<open>isValidToken(c, dnaAlphabetString)\<close>, and the machine's methods
  \<^verbatim>\<open>verifyContexts\<close> (whether its assertion holds), \<^verbatim>\<open>outputAlphabet\<close>,
  \<^verbatim>\<open>inputAlphabet(flags)\<close> with the decoder's flags, \<^verbatim>\<open>decoderToposort\<close> and
  \<^verbatim>\<open>maxLeftContext\<close>.
\<close>

record Decls =
  isControl :: "char \<Rightarrow> bool"
  MachineEOF :: char
  MachineWildContext :: char
  charToBase :: "char \<Rightarrow> Base"
  isValidDnaToken :: "char \<Rightarrow> bool"
  verifyContexts :: "Machine \<Rightarrow> bool"
  outputAlphabet :: "Machine \<Rightarrow> string"
  decoderInputAlphabet :: "Machine \<Rightarrow> string"
  decoderToposort :: "Machine \<Rightarrow> string \<Rightarrow> State list"
  maxLeftContext :: "Machine \<Rightarrow> nat"

definition isEOF :: "Decls \<Rightarrow> MachineTransition \<Rightarrow> bool" where
  "isEOF D t = (t_in t = MachineEOF D)"

record 'v IncomingTransScore =
  its_src :: State
  its_score :: 'v
  its_in :: InputSymbol
  its_base :: Base

record 'v OutgoingTransScore =
  ots_dest :: State
  ots_score :: 'v

record 'v StateScores =
  leftContext :: "Base list"
  incomingEmit :: "'v IncomingTransScore list"
  incomingNull :: "'v IncomingTransScore list"
  outgoingEmit :: "'v OutgoingTransScore list"
  outgoingNull :: "'v OutgoingTransScore list"

text \<open>\<^verbatim>\<open>symProb.count(c)\<close> and \<^verbatim>\<open>symProb.at(c)\<close> (read only after \<^verbatim>\<open>count\<close>).\<close>

definition symProb_count :: "InputModel \<Rightarrow> char \<Rightarrow> bool" where
  "symProb_count inputModel c = (map_of (symProb inputModel) c \<noteq> None)"

definition symProb_at :: "InputModel \<Rightarrow> char \<Rightarrow> real" where
  "symProb_at inputModel c = the (map_of (symProb inputModel) c)"

text \<open>
  A fold that stops at the first error, for the loops whose body can fail.
\<close>

fun foldE :: "('s \<Rightarrow> 'a \<Rightarrow> error + 's) \<Rightarrow> 'a list \<Rightarrow> 's \<Rightarrow> error + 's" where
  "foldE f [] s = Inr s"
| "foldE f (x # xs) s = (case f s x of Inl e \<Rightarrow> Inl e | Inr s' \<Rightarrow> foldE f xs s')"

text \<open>
  The score that lines 38 and 41 give a transition: \<open>None\<close> when the transition is
  skipped.
\<close>

definition scoreOf :: "Decls \<Rightarrow> InputModel \<Rightarrow> MachineTransition \<Rightarrow> real logprob option" where
  "scoreOf D inputModel t =
     (if inputEmpty t \<or> isEOF D t \<or> symProb_count inputModel (t_in t)
      then Some (if symProb_count inputModel (t_in t) then llog (symProb_at inputModel (t_in t)) else 0)
      else None)"

text \<open>
  The body of the loop over \<^verbatim>\<open>ms.trans\<close> (lines 37 to 58) for one transition \<open>t\<close> of
  state \<open>s\<close>. \<^verbatim>\<open>stateScores[t.dest]\<close> is out of range when the destination is not a
  state of the machine. The \<^verbatim>\<open>base\<close> of an incoming null transition is left
  uninitialised by the source (it is read only for logging); the model stores 0.
\<close>

definition addTrans :: "Decls \<Rightarrow> InputModel \<Rightarrow> State \<Rightarrow> real logprob StateScores list
    \<Rightarrow> MachineTransition \<Rightarrow> error + real logprob StateScores list" where
  "addTrans D inputModel s stateScores t =
     (case scoreOf D inputModel t of
        None \<Rightarrow> Inr stateScores
      | Some sc \<Rightarrow>
          if t_dest t < length stateScores then
            (if outputEmpty t then
               let its = \<lparr>its_src = s, its_score = sc, its_in = t_in t, its_base = 0\<rparr>;
                   ots = \<lparr>ots_dest = t_dest t, ots_score = sc\<rparr>;
                   st1 = stateScores[t_dest t := (stateScores ! t_dest t)
                           \<lparr>incomingNull := incomingNull (stateScores ! t_dest t) @ [its]\<rparr>]
               in Inr (st1[s := (st1 ! s)\<lparr>outgoingNull := outgoingNull (st1 ! s) @ [ots]\<rparr>])
             else
               let its = \<lparr>its_src = s, its_score = sc, its_in = t_in t,
                          its_base = charToBase D (t_out t)\<rparr>;
                   ots = \<lparr>ots_dest = t_dest t, ots_score = sc\<rparr>;
                   st1 = stateScores[t_dest t := (stateScores ! t_dest t)
                           \<lparr>incomingEmit := incomingEmit (stateScores ! t_dest t) @ [its]\<rparr>]
               in Inr (st1[s := (st1 ! s)\<lparr>outgoingEmit := outgoingEmit (st1 ! s) @ [ots]\<rparr>]))
          else Inl OutOfRange)"

text \<open>
  The body of the loop over the states (lines 31 to 58) for state \<open>s\<close>, which is always
  below \<^verbatim>\<open>machine.nStates()\<close>, the length of \<^verbatim>\<open>stateScores\<close>.
\<close>

definition addState :: "Decls \<Rightarrow> InputModel \<Rightarrow> Machine \<Rightarrow> real logprob StateScores list \<Rightarrow> State
    \<Rightarrow> error + real logprob StateScores list" where
  "addState D inputModel machine stateScores s =
     (let ms = m_state machine ! s;
          st0 = stateScores[s := (stateScores ! s)
                  \<lparr>leftContext := leftContext (stateScores ! s)
                      @ map (charToBase D) (filter (\<lambda>lc. lc \<noteq> MachineWildContext D) (m_leftContext ms))\<rparr>]
      in foldE (addTrans D inputModel s) (m_trans ms) st0)"

definition emptyStateScores :: "real logprob StateScores" where
  "emptyStateScores = \<lparr>leftContext = [], incomingEmit = [], incomingNull = [],
                        outgoingEmit = [], outgoingNull = []\<rparr>"

text \<open>
  \<^verbatim>\<open>MachineScores::MachineScores\<close>: the only member is \<^verbatim>\<open>stateScores\<close>, so the result is
  that vector. The two assertions come first.
\<close>

definition MachineScores_new :: "Decls \<Rightarrow> Machine \<Rightarrow> InputModel \<Rightarrow> error + real logprob StateScores list" where
  "MachineScores_new D machine inputModel =
     (if \<not> verifyContexts D machine then Inl ContextMismatch
      else if \<not> list_all (isValidDnaToken D) (outputAlphabet D machine) then Inl NonDnaOutput
      else foldE (addState D inputModel machine)
             [0 ..< nStatesOf machine]
             (replicate (nStatesOf machine) emptyStateScores))"

section \<open>ViterbiMatrix: members and cells\<close>

text \<open>
  The log-scores that \<^verbatim>\<open>MutatorScores(mutatorParams)\<close> computes (a class of another
  file) are taken as given: the substitution table, the gap scores and the vector of
  duplication length scores, read as functions of their indices.
\<close>

record 'v MutatorScores =
  sub :: "Base \<Rightarrow> Base \<Rightarrow> 'v"
  noGap :: 'v
  delOpen :: 'v
  delExtend :: 'v
  delEnd :: 'v
  tanDup :: 'v
  len :: "Pos \<Rightarrow> 'v"

text \<open>
  The members of a \<^verbatim>\<open>ViterbiMatrix\<close> that the constructor's initialiser list sets and
  nothing changes afterwards. \<^verbatim>\<open>nStates\<close> is \<^verbatim>\<open>machine.nStates()\<close>, the length of
  \<^verbatim>\<open>machineScores.stateScores\<close>; \<^verbatim>\<open>seqLen\<close> is the length of the token vector \<^verbatim>\<open>seq\<close>;
  \<open>local\<close> is \<^verbatim>\<open>mutatorParams.local\<close>. The one member that changes, the score array
  \<^verbatim>\<open>cell\<close>, is passed explicitly.
\<close>

record 'v ViterbiMatrix =
  maxDupLen :: nat
  local :: bool
  seq :: "Base list"
  machineScores :: "'v StateScores list"
  mutatorScores :: "'v MutatorScores"

definition nStates :: "'v ViterbiMatrix \<Rightarrow> nat" where
  "nStates V = length (machineScores V)"

definition seqLen :: "'v ViterbiMatrix \<Rightarrow> nat" where
  "seqLen V = length (seq V)"

text \<open>
  Modelled from the spec: the header with the cell accessors (\<^verbatim>\<open>sCell\<close>, \<^verbatim>\<open>dCell\<close>,
  \<^verbatim>\<open>tCell\<close>, \<^verbatim>\<open>getCell\<close>, the \<^verbatim>\<open>MutStateIndex\<close> encoding, \<^verbatim>\<open>maxDupLenAt\<close>,
  \<^verbatim>\<open>tanDupBase\<close>, \<^verbatim>\<open>loglike\<close>) is not among the sources. The specification gives one
  score per (state, position, mutator sub-state), the sub-state index being 0 for S, 1
  for D and \<open>2 + k\<close> for T(k); \<open>M\<^sub>s\<close> is the minimum of the number of left-context
  bases and \<^verbatim>\<open>maxDupLen\<close>; \<^verbatim>\<open>tanDupBase(s, k)\<close> reads the left-context bases right to
  left; the final log-likelihood is the cell \<open>S[N-1, L]\<close> (in global mode the
  constructor never assigns \<^verbatim>\<open>loglike()\<close>, in local mode it assigns through it, so it
  is a reference to that cell). The array is a map from index triples to scores; an
  access whose state is not below \<^verbatim>\<open>nStates\<close> is out of the array's range.
\<close>

type_synonym 'v cells = "State \<times> Pos \<times> MutStateIndex \<Rightarrow> 'v"

definition sMutStateIndex :: MutStateIndex where
  "sMutStateIndex = 0"

definition dMutStateIndex :: MutStateIndex where
  "dMutStateIndex = 1"

definition tMutStateIndex :: "Pos \<Rightarrow> MutStateIndex" where
  "tMutStateIndex dupIdx = 2 + dupIdx"

definition isTMutStateIndex :: "'v ViterbiMatrix \<Rightarrow> MutStateIndex \<Rightarrow> bool" where
  "isTMutStateIndex V mutState = (2 \<le> mutState \<and> mutState < 2 + maxDupLen V)"

definition tMutStateDupIdx :: "MutStateIndex \<Rightarrow> Pos" where
  "tMutStateDupIdx mutState = mutState - 2"

definition getCell :: "'v cells \<Rightarrow> State \<Rightarrow> Pos \<Rightarrow> MutStateIndex \<Rightarrow> 'v" where
  "getCell c state pos mutState = c (state, pos, mutState)"

definition sCell :: "'v cells \<Rightarrow> State \<Rightarrow> Pos \<Rightarrow> 'v" where
  "sCell c state pos = c (state, pos, sMutStateIndex)"

definition dCell :: "'v cells \<Rightarrow> State \<Rightarrow> Pos \<Rightarrow> 'v" where
  "dCell c state pos = c (state, pos, dMutStateIndex)"

definition tCell :: "'v cells \<Rightarrow> State \<Rightarrow> Pos \<Rightarrow> Pos \<Rightarrow> 'v" where
  "tCell c state pos dupIdx = c (state, pos, tMutStateIndex dupIdx)"

definition setS :: "'v cells \<Rightarrow> State \<Rightarrow> Pos \<Rightarrow> 'v \<Rightarrow> 'v cells" where
  "setS c state pos v = c((state, pos, sMutStateIndex) := v)"

definition setD :: "'v cells \<Rightarrow> State \<Rightarrow> Pos \<Rightarrow> 'v \<Rightarrow> 'v cells" where
  "setD c state pos v = c((state, pos, dMutStateIndex) := v)"

definition setT :: "'v cells \<Rightarrow> State \<Rightarrow> Pos \<Rightarrow> Pos \<Rightarrow> 'v \<Rightarrow> 'v cells" where
  "setT c state pos dupIdx v = c((state, pos, tMutStateIndex dupIdx) := v)"

definition maxDupLenAt :: "'v ViterbiMatrix \<Rightarrow> 'v StateScores \<Rightarrow> nat" where
  "maxDupLenAt V ss = min (length (leftContext ss)) (maxDupLen V)"

definition tanDupBase :: "'v StateScores \<Rightarrow> Pos \<Rightarrow> Base" where
  "tanDupBase ss dupIdx = leftContext ss ! (length (leftContext ss) - 1 - dupIdx)"

definition loglike :: "'v ViterbiMatrix \<Rightarrow> 'v cells \<Rightarrow> 'v" where
  "loglike V c = sCell c (nStates V - 1) (seqLen V)"

section \<open>ViterbiMatrix: fill\<close>

text \<open>Line 94: one incoming emit transition of \<open>state\<close> at a position \<open>pos > 0\<close>.\<close>

definition fillEmit :: "('v::{linorder,plus,zero,bot}) ViterbiMatrix \<Rightarrow> Pos \<Rightarrow> State \<Rightarrow> 'v cells
    \<Rightarrow> 'v IncomingTransScore \<Rightarrow> error + 'v cells" where
  "fillEmit V pos state c its =
     (if its_src its < nStates V then
        Inr (setS c state pos
          (max (sCell c state pos)
               (sCell c (its_src its) (pos - 1) + its_score its + noGap (mutatorScores V)
                  + sub (mutatorScores V) (its_base its) (seq V ! (pos - 1)))))
      else Inl OutOfRange)"

text \<open>Line 98: one incoming null transition.\<close>

definition fillNull :: "('v::{linorder,plus,zero,bot}) ViterbiMatrix \<Rightarrow> Pos \<Rightarrow> State \<Rightarrow> 'v cells
    \<Rightarrow> 'v IncomingTransScore \<Rightarrow> error + 'v cells" where
  "fillNull V pos state c its =
     (if its_src its < nStates V then
        Inr (setS c state pos (max (sCell c state pos) (sCell c (its_src its) pos + its_score its)))
      else Inl OutOfRange)"

text \<open>Line 106: the body of the loop over \<^verbatim>\<open>dupIdx < mdl - 1\<close>.\<close>

definition fillDup :: "('v::{linorder,plus,zero,bot}) ViterbiMatrix \<Rightarrow> 'v StateScores \<Rightarrow> Pos \<Rightarrow> State
    \<Rightarrow> 'v cells \<Rightarrow> Pos \<Rightarrow> 'v cells" where
  "fillDup V ss pos state c dupIdx =
     setT c state pos dupIdx
       (tCell c state (pos - 1) (dupIdx + 1)
          + sub (mutatorScores V) (tanDupBase ss (dupIdx + 1)) (seq V ! (pos - 1)))"

text \<open>
  Lines 89 to 107: the body of the loop over \<^verbatim>\<open>stateOrder\<close> for one state. The state
  comes from \<^verbatim>\<open>decoderToposort\<close>; \<^verbatim>\<open>stateScores[state]\<close> is out of range when it is not
  a state of the machine.
\<close>

definition fillState :: "('v::{linorder,plus,zero,bot}) ViterbiMatrix \<Rightarrow> Pos \<Rightarrow> 'v cells \<Rightarrow> State
    \<Rightarrow> error + 'v cells" where
  "fillState V pos c state =
     (if state < nStates V then
        (let ss = machineScores V ! state;
             mdl = maxDupLenAt V ss
         in case (if pos > 0 then foldE (fillEmit V pos state) (incomingEmit ss) c else Inr c) of
              Inl e \<Rightarrow> Inl e
            | Inr c1 \<Rightarrow>
                (case foldE (fillNull V pos state) (incomingNull ss) c1 of
                   Inl e \<Rightarrow> Inl e
                 | Inr c2 \<Rightarrow>
                     Inr (if mdl > 0 \<and> pos > 0 then
                            foldl (fillDup V ss pos state)
                              (setS c2 state pos
                                 (max (sCell c2 state pos)
                                      (tCell c2 state (pos - 1) 0
                                         + sub (mutatorScores V) (tanDupBase ss 0) (seq V ! (pos - 1)))))
                              [0 ..< mdl - 1]
                          else c2)))
      else Inl OutOfRange)"

subsection \<open>The closure over the S and D layers of one column\<close>

text \<open>
  The state of the \<^verbatim>\<open>while\<close> loop of lines 112 to 159: the cells, the vector
  \<^verbatim>\<open>pushStates\<close> (its back is the last element) and the vector \<^verbatim>\<open>onStack\<close>.
\<close>

type_synonym 'v closure = "'v cells \<times> State list \<times> bool list"

text \<open>Lines 123 to 135: one outgoing emit transition of the popped state.\<close>

definition relaxEmit :: "('v::{linorder,plus,zero,bot}) ViterbiMatrix \<Rightarrow> Pos \<Rightarrow> 'v \<Rightarrow> 'v \<Rightarrow> 'v closure
    \<Rightarrow> 'v OutgoingTransScore \<Rightarrow> error + 'v closure" where
  "relaxEmit V pos dsrc ssrc cl ots =
     (case cl of (c, pushStates, onStack) \<Rightarrow>
        if ots_dest ots < nStates V \<and> ots_dest ots < length onStack then
          (let dsc = max (dsrc + delExtend (mutatorScores V)) (ssrc + delOpen (mutatorScores V))
                       + ots_score ots
           in if dsc > dCell c (ots_dest ots) pos then
                (if \<not> onStack ! ots_dest ots
                 then Inr (setD c (ots_dest ots) pos dsc, pushStates @ [ots_dest ots],
                           onStack[ots_dest ots := True])
                 else Inr (setD c (ots_dest ots) pos dsc, pushStates, onStack))
              else Inr (c, pushStates, onStack))
        else Inl OutOfRange)"

text \<open>Lines 137 to 158: one outgoing null transition of the popped state.\<close>

definition relaxNull :: "('v::{linorder,plus,zero,bot}) ViterbiMatrix \<Rightarrow> Pos \<Rightarrow> 'v \<Rightarrow> 'v \<Rightarrow> 'v closure
    \<Rightarrow> 'v OutgoingTransScore \<Rightarrow> error + 'v closure" where
  "relaxNull V pos dsrc ssrc cl ots =
     (case cl of (c, pushStates, onStack) \<Rightarrow>
        if ots_dest ots < nStates V \<and> ots_dest ots < length onStack then
          (let dsc = dsrc + ots_score ots;
               push1 = (dsc > dCell c (ots_dest ots) pos);
               c1 = (if push1 then setD c (ots_dest ots) pos dsc else c);
               ssc = ssrc + ots_score ots;
               push2 = (ssc > sCell c1 (ots_dest ots) pos);
               c2 = (if push2 then setS c1 (ots_dest ots) pos ssc else c1)
           in if (push1 \<or> push2) \<and> \<not> onStack ! ots_dest ots
              then Inr (c2, pushStates @ [ots_dest ots], onStack[ots_dest ots := True])
              else Inr (c2, pushStates, onStack))
        else Inl OutOfRange)"

text \<open>
  Lines 113 to 158: one iteration of the loop, for a non-empty \<^verbatim>\<open>pushStates\<close>.
\<close>

definition closureStep :: "('v::{linorder,plus,zero,bot}) ViterbiMatrix \<Rightarrow> Pos \<Rightarrow> 'v closure
    \<Rightarrow> error + 'v closure" where
  "closureStep V pos cl =
     (case cl of (c, pushStates, onStack) \<Rightarrow>
        (let state = last pushStates in
         if state < nStates V \<and> state < length onStack then
           (let ss = machineScores V ! state;
                dsrc = dCell c state pos;
                ssrc = max (sCell c state pos) (dsrc + delEnd (mutatorScores V))
            in case foldE (relaxEmit V pos dsrc ssrc) (outgoingEmit ss)
                      (setS c state pos ssrc, butlast pushStates, onStack[state := False]) of
                 Inl e \<Rightarrow> Inl e
               | Inr cl1 \<Rightarrow> foldE (relaxNull V pos dsrc ssrc) (outgoingNull ss) cl1)
         else Inl OutOfRange))"

text \<open>
  The \<^verbatim>\<open>while (!pushStates.empty())\<close> loop. \<open>None\<close> is the loop that never ends;
  \<open>Some (Inl e)\<close> is the loop stopped by an error.
\<close>

partial_function (option) closureLoop :: "('v::{linorder,plus,zero,bot}) ViterbiMatrix \<Rightarrow> Pos
    \<Rightarrow> 'v closure \<Rightarrow> (error + 'v cells) option" where
  "closureLoop V pos cl =
     (if fst (snd cl) = [] then Some (Inr (fst cl))
      else case closureStep V pos cl of
             Inl e \<Rightarrow> Some (Inl e)
           | Inr cl' \<Rightarrow> closureLoop V pos cl')"

declare closureLoop.simps [code]

text \<open>Lines 110 to 159: the closure of column \<open>pos\<close>, seeded with every state.\<close>

definition closure :: "('v::{linorder,plus,zero,bot}) ViterbiMatrix \<Rightarrow> State list \<Rightarrow> Pos \<Rightarrow> 'v cells
    \<Rightarrow> (error + 'v cells) option" where
  "closure V stateOrder pos c = closureLoop V pos (c, stateOrder, replicate (nStates V) True)"

subsection \<open>The tandem duplication seed, the columns, the constructor\<close>

text \<open>Line 166: the body of the loop over \<^verbatim>\<open>dupIdx < mdl\<close>.\<close>

definition seedDup :: "('v::{linorder,plus,zero,bot}) ViterbiMatrix \<Rightarrow> Pos \<Rightarrow> State \<Rightarrow> 'v cells \<Rightarrow> Pos
    \<Rightarrow> 'v cells" where
  "seedDup V pos state c dupIdx =
     setT c state pos dupIdx
       (max (tCell c state pos dupIdx)
            (sCell c state pos + tanDup (mutatorScores V) + len (mutatorScores V) dupIdx))"

text \<open>Lines 162 to 168: the body of the loop over the states, for \<open>state < nStates\<close>.\<close>

definition seedState :: "('v::{linorder,plus,zero,bot}) ViterbiMatrix \<Rightarrow> Pos \<Rightarrow> 'v cells \<Rightarrow> State
    \<Rightarrow> 'v cells" where
  "seedState V pos c state =
     foldl (seedDup V pos state) c [0 ..< maxDupLenAt V (machineScores V ! state)]"

definition seedColumn :: "('v::{linorder,plus,zero,bot}) ViterbiMatrix \<Rightarrow> Pos \<Rightarrow> 'v cells \<Rightarrow> 'v cells" where
  "seedColumn V pos c =
     (if pos > 0 then foldl (seedState V pos) c [0 ..< nStates V] else c)"

text \<open>Lines 87 to 168: the body of the loop over the positions.\<close>

definition fillColumn :: "('v::{linorder,plus,zero,bot}) ViterbiMatrix \<Rightarrow> State list \<Rightarrow> 'v cells \<Rightarrow> Pos
    \<Rightarrow> (error + 'v cells) option" where
  "fillColumn V stateOrder c pos =
     (case foldE (fillState V pos) stateOrder c of
        Inl e \<Rightarrow> Some (Inl e)
      | Inr c1 \<Rightarrow>
          (case closure V stateOrder pos c1 of
             None \<Rightarrow> None
           | Some (Inl e) \<Rightarrow> Some (Inl e)
           | Some (Inr c2) \<Rightarrow> Some (Inr (seedColumn V pos c2))))"

text \<open>The loop over the positions, as a recursion over the positions still to fill.\<close>

fun fillColumns :: "('v::{linorder,plus,zero,bot}) ViterbiMatrix \<Rightarrow> State list \<Rightarrow> Pos list \<Rightarrow> 'v cells
    \<Rightarrow> (error + 'v cells) option" where
  "fillColumns V stateOrder [] c = Some (Inr c)"
| "fillColumns V stateOrder (pos # ps) c =
     (case fillColumn V stateOrder c pos of
        None \<Rightarrow> None
      | Some (Inl e) \<Rightarrow> Some (Inl e)
      | Some (Inr c') \<Rightarrow> fillColumns V stateOrder ps c')"

text \<open>
  Lines 66 and 75 to 79: every cell is minus infinity, then the start cells are 0.
  \<^verbatim>\<open>sCell(0,0)\<close> is out of range for a machine without states.
\<close>

definition initCells :: "('v::{linorder,plus,zero,bot}) ViterbiMatrix \<Rightarrow> error + 'v cells" where
  "initCells V =
     (if local V then Inr (foldl (\<lambda>c state. setS c state 0 0) (\<lambda>i. bot) [0 ..< nStates V])
      else if 0 < nStates V then Inr (setS (\<lambda>i. bot) 0 0 0)
      else Inl OutOfRange)"

text \<open>
  Lines 171 to 173: in local mode the cell behind \<^verbatim>\<open>loglike()\<close> takes the maximum of the
  last column of the S layer.
\<close>

definition finalLoglike :: "('v::{linorder,plus,zero,bot}) ViterbiMatrix \<Rightarrow> 'v cells \<Rightarrow> 'v cells" where
  "finalLoglike V c =
     (if local V
      then foldl (\<lambda>c state. setS c (nStates V - 1) (seqLen V) (max (loglike V c) (sCell c state (seqLen V))))
             c [0 ..< nStates V]
      else c)"

text \<open>
  The constructor body: the filled array, an error, or \<open>None\<close> when a closure never
  ends.
\<close>

definition ViterbiMatrix_fill :: "('v::{linorder,plus,zero,bot}) ViterbiMatrix \<Rightarrow> State list
    \<Rightarrow> (error + 'v cells) option" where
  "ViterbiMatrix_fill V stateOrder =
     (case initCells V of
        Inl e \<Rightarrow> Some (Inl e)
      | Inr c0 \<Rightarrow>
          (case fillColumns V stateOrder [0 ..< Suc (seqLen V)] c0 of
             None \<Rightarrow> None
           | Some (Inl e) \<Rightarrow> Some (Inl e)
           | Some (Inr c) \<Rightarrow> Some (Inr (finalLoglike V c))))"

section \<open>ViterbiMatrix: traceback\<close>

text \<open>
  The first assertion of \<^verbatim>\<open>checkBest\<close> in double arithmetic:
  \<^verbatim>\<open>abs((best - expected) / (abs(expected) < 1e-6 ? 1 : expected)) < 1e-6\<close>. When either
  score is minus infinity the quotient is infinite or NaN and the comparison is false.
\<close>

fun scoresMatch :: "real logprob \<Rightarrow> real logprob \<Rightarrow> bool" where
  "scoresMatch (Fin b) (Fin e) =
     (\<bar>(b - e) / (if \<bar>e\<bar> < 1 / 10 ^ 6 then 1 else e)\<bar> < 1 / 10 ^ 6)"
| "scoresMatch _ _ = False"

text \<open>
  The local variables of \<^verbatim>\<open>traceback\<close> that the three lambdas capture by reference.
  The source leaves the \<^verbatim>\<open>best...\<close> variables uninitialised; they are read only after
  an \<^verbatim>\<open>updateBest\<close> that assigned them, since \<^verbatim>\<open>checkBest\<close> fails otherwise.
\<close>

record tb =
  tb_state :: State
  tb_pos :: Pos
  tb_mutState :: MutStateIndex
  best :: "real logprob"
  bestState :: State
  bestPos :: Pos
  bestMutState :: MutStateIndex
  bestInSym :: InputSymbol
  bestIts :: "real logprob IncomingTransScore option"
  foundBest :: bool
  trace :: string

text \<open>The arguments of one call of \<^verbatim>\<open>updateBest\<close>.\<close>

type_synonym cand = "State \<times> Pos \<times> MutStateIndex \<times> real logprob \<times> real logprob IncomingTransScore option"

definition initBest :: "tb \<Rightarrow> tb" where
  "initBest t = t\<lparr>best := bot, foundBest := False\<rparr>"

text \<open>
  \<^verbatim>\<open>updateBest\<close>. \<^verbatim>\<open>getCell\<close> is out of range for a source state that is not a state of
  the machine.
\<close>

definition updateBest :: "real logprob ViterbiMatrix \<Rightarrow> real logprob cells \<Rightarrow> tb \<Rightarrow> cand \<Rightarrow> error + tb" where
  "updateBest V c t cd =
     (case cd of (srcState, srcPos, srcMutState, transScore, its) \<Rightarrow>
        if srcState < nStates V then
          (let score = getCell c srcState srcPos srcMutState + transScore
           in if score > best t
              then Inr (t\<lparr>best := score, bestState := srcState, bestPos := srcPos,
                         bestMutState := srcMutState,
                         bestInSym := (case its of Some i \<Rightarrow> its_in i | None \<Rightarrow> MachineNull),
                         bestIts := its, foundBest := True\<rparr>)
              else Inr t)
        else Inl OutOfRange)"

text \<open>\<^verbatim>\<open>checkBest\<close>: both assertions abort the decode.\<close>

definition checkBest :: "real logprob cells \<Rightarrow> tb \<Rightarrow> error + tb" where
  "checkBest c t =
     (let expected = getCell c (tb_state t) (tb_pos t) (tb_mutState t)
      in if \<not> scoresMatch (best t) expected then Inl TracebackInconsistent
         else if \<not> foundBest t then Inl TracebackInconsistent
         else Inr (t\<lparr>tb_state := bestState t, tb_pos := bestPos t, tb_mutState := bestMutState t\<rparr>))"

text \<open>
  The calls of \<^verbatim>\<open>updateBest\<close> that one iteration makes, in the order of the source: lines
  253 to 264 in the S sub-state, 271 to 276 in the D sub-state, 283 to 286 in a T
  sub-state. \<^verbatim>\<open>seq[pos-1]\<close> is read only for \<open>pos > 0\<close> in the S sub-state; in the T
  sub-state it is read without that test, and at \<open>pos = 0\<close> this is a read before the
  sequence (after which \<^verbatim>\<open>pos\<close> would be negative).
\<close>

definition candidatesS :: "real logprob ViterbiMatrix \<Rightarrow> real logprob StateScores \<Rightarrow> State \<Rightarrow> Pos \<Rightarrow> cand list" where
  "candidatesS V ss state pos =
     (if pos > 0
      then map (\<lambda>its. (its_src its, pos - 1, sMutStateIndex,
                        its_score its + noGap (mutatorScores V)
                          + sub (mutatorScores V) (its_base its) (seq V ! (pos - 1)),
                        Some its))
             (incomingEmit ss)
      else [])
     @ map (\<lambda>its. (its_src its, pos, sMutStateIndex, its_score its, Some its)) (incomingNull ss)
     @ [(state, pos, dMutStateIndex, delEnd (mutatorScores V), None)]
     @ (if maxDupLenAt V ss > 0 \<and> pos > 0
        then [(state, pos - 1, tMutStateIndex 0,
               sub (mutatorScores V) (tanDupBase ss 0) (seq V ! (pos - 1)), None)]
        else [])
     @ (if pos = 0 \<and> local V then [(0, 0, sMutStateIndex, 0, None)] else [])"

definition candidatesD :: "real logprob ViterbiMatrix \<Rightarrow> real logprob StateScores \<Rightarrow> State \<Rightarrow> Pos \<Rightarrow> cand list" where
  "candidatesD V ss state pos =
     concat (map (\<lambda>its. [(its_src its, pos, dMutStateIndex,
                           its_score its + delExtend (mutatorScores V), Some its),
                          (its_src its, pos, sMutStateIndex,
                           its_score its + delOpen (mutatorScores V), Some its)])
               (incomingEmit ss))
     @ map (\<lambda>its. (its_src its, pos, dMutStateIndex, its_score its, Some its)) (incomingNull ss)"

definition candidatesT :: "real logprob ViterbiMatrix \<Rightarrow> real logprob StateScores \<Rightarrow> State \<Rightarrow> Pos
    \<Rightarrow> MutStateIndex \<Rightarrow> error + cand list" where
  "candidatesT V ss state pos mutState =
     (let dupIdx = tMutStateDupIdx mutState
      in if dupIdx + 1 < maxDupLenAt V ss \<and> pos = 0 then Inl OutOfRange
         else Inr ((if dupIdx + 1 < maxDupLenAt V ss
                    then [(state, pos - 1, tMutStateIndex (dupIdx + 1),
                           sub (mutatorScores V) (tanDupBase ss (dupIdx + 1)) (seq V ! (pos - 1)),
                           None)]
                    else [])
                   @ [(state, pos, sMutStateIndex,
                       tanDup (mutatorScores V) + len (mutatorScores V) dupIdx, None)]))"

definition candidates :: "real logprob ViterbiMatrix \<Rightarrow> tb \<Rightarrow> error + cand list" where
  "candidates V t =
     (let ss = machineScores V ! tb_state t
      in if tb_mutState t = sMutStateIndex then Inr (candidatesS V ss (tb_state t) (tb_pos t))
         else if tb_mutState t = dMutStateIndex then Inr (candidatesD V ss (tb_state t) (tb_pos t))
         else if isTMutStateIndex V (tb_mutState t)
           then candidatesT V ss (tb_state t) (tb_pos t) (tb_mutState t)
         else Inl UnknownTracebackState)"

text \<open>
  Lines 248 to 300: one iteration of the \<^verbatim>\<open>while\<close> loop. \<^verbatim>\<open>stateScores[state]\<close> is out of
  range for a state that is not a state of the machine, \<^verbatim>\<open>seq[pos-1]\<close> for a position
  beyond the sequence. The last step is \<^verbatim>\<open>if (bestInSym) trace.push_front (bestInSym)\<close>.
\<close>

definition tracebackStep :: "real logprob ViterbiMatrix \<Rightarrow> real logprob cells \<Rightarrow> tb \<Rightarrow> error + tb" where
  "tracebackStep V c t =
     (if tb_state t < nStates V \<and> tb_pos t \<le> seqLen V then
        (case candidates V t of
           Inl e \<Rightarrow> Inl e
         | Inr cds \<Rightarrow>
             (case foldE (updateBest V c) cds (initBest t) of
                Inl e \<Rightarrow> Inl e
              | Inr t1 \<Rightarrow>
                  (case checkBest c t1 of
                     Inl e \<Rightarrow> Inl e
                   | Inr t2 \<Rightarrow>
                       Inr (if bestInSym t2 \<noteq> CHR 0x00
                            then t2\<lparr>trace := bestInSym t2 # trace t2\<rparr> else t2))))
      else Inl OutOfRange)"

text \<open>
  The loop \<^verbatim>\<open>while (pos >= 0 && state > 0)\<close>. Positions are natural numbers here, so
  \<^verbatim>\<open>pos >= 0\<close> holds: the one statement that could take \<^verbatim>\<open>pos\<close> below 0 is the
  out-of-range read of \<open>candidatesT\<close>. \<open>None\<close> is the loop that never ends.
\<close>

partial_function (option) tracebackLoop :: "real logprob ViterbiMatrix \<Rightarrow> real logprob cells \<Rightarrow> tb
    \<Rightarrow> (error + tb) option" where
  "tracebackLoop V c t =
     (if tb_state t > 0
      then (case tracebackStep V c t of
              Inl e \<Rightarrow> Some (Inl e)
            | Inr t' \<Rightarrow> tracebackLoop V c t')
      else Some (Inr t))"

declare tracebackLoop.simps [code]

text \<open>Lines 239 to 245: the start of the traceback.\<close>

definition startCandidates :: "real logprob ViterbiMatrix \<Rightarrow> cand list" where
  "startCandidates V =
     (if local V
      then map (\<lambda>s. (s, seqLen V, sMutStateIndex, 0, None)) [0 ..< nStates V]
      else [(nStates V - 1, seqLen V, sMutStateIndex, 0, None)])"

definition tracebackStart :: "real logprob ViterbiMatrix \<Rightarrow> real logprob cells \<Rightarrow> error + tb" where
  "tracebackStart V c =
     (case foldE (updateBest V c) (startCandidates V)
             (initBest \<lparr>tb_state = nStates V - 1, tb_pos = seqLen V, tb_mutState = 0,
                        best = bot, bestState = 0, bestPos = 0, bestMutState = 0,
                        bestInSym = MachineNull, bestIts = None, foundBest = False,
                        trace = []\<rparr>) of
        Inl e \<Rightarrow> Inl e
      | Inr t \<Rightarrow> checkBest c t)"

text \<open>
  The configuration in which the traceback stops: \<open>Some (Inr t)\<close> with \<open>t\<close> the variables
  when the loop is left (the start variables when there is no decoding), an error, or
  \<open>None\<close> when the loop never ends. A machine without states has no cell behind
  \<^verbatim>\<open>loglike()\<close>.
\<close>

definition tracebackRun :: "real logprob ViterbiMatrix \<Rightarrow> real logprob cells \<Rightarrow> (error + tb) option" where
  "tracebackRun V c =
     (if nStates V = 0 then Some (Inl OutOfRange)
      else if \<not> (loglike V c > bot) then
        Some (Inr \<lparr>tb_state = nStates V - 1, tb_pos = seqLen V, tb_mutState = 0,
                   best = bot, bestState = 0, bestPos = 0, bestMutState = 0,
                   bestInSym = MachineNull, bestIts = None, foundBest = False, trace = []\<rparr>)
      else (case tracebackStart V c of
              Inl e \<Rightarrow> Some (Inl e)
            | Inr t \<Rightarrow> tracebackLoop V c t))"

text \<open>\<^verbatim>\<open>ViterbiMatrix::traceback\<close>: the string of the trace.\<close>

definition traceback :: "real logprob ViterbiMatrix \<Rightarrow> real logprob cells \<Rightarrow> (error + string) option" where
  "traceback V c = map_option (map_sum id trace) (tracebackRun V c)"

section \<open>The decoder driver\<close>

text \<open>
  What the decoder reads of \<^verbatim>\<open>MutatorParams\<close>: the flag \<^verbatim>\<open>local\<close>, \<^verbatim>\<open>maxDupLen()\<close> and the
  scores derived from the parameters.
\<close>

record MutatorParams =
  mp_local :: bool
  mp_maxDupLen :: nat
  mp_scores :: "real logprob MutatorScores"

text \<open>
  \<^verbatim>\<open>ViterbiMatrix::ViterbiMatrix\<close> with its initialiser list: the members, then the fill
  in the order of \<^verbatim>\<open>machine.decoderToposort (inputModel.inputAlphabet)\<close>. The observed
  sequence is given by its tokens.
\<close>

definition ViterbiMatrix_members :: "Decls \<Rightarrow> Machine \<Rightarrow> MutatorParams \<Rightarrow> Base list
    \<Rightarrow> real logprob StateScores list \<Rightarrow> real logprob ViterbiMatrix" where
  "ViterbiMatrix_members D machine mutatorParams tokens stateScores =
     \<lparr>maxDupLen = min (maxLeftContext D machine) (mp_maxDupLen mutatorParams),
      local = mp_local mutatorParams,
      seq = tokens,
      machineScores = stateScores,
      mutatorScores = mp_scores mutatorParams\<rparr>"

definition ViterbiMatrix_new :: "Decls \<Rightarrow> Machine \<Rightarrow> InputModel \<Rightarrow> MutatorParams \<Rightarrow> Base list
    \<Rightarrow> (error + real logprob ViterbiMatrix \<times> real logprob cells) option" where
  "ViterbiMatrix_new D machine inputModel mutatorParams tokens =
     (case MachineScores_new D machine inputModel of
        Inl e \<Rightarrow> Some (Inl e)
      | Inr stateScores \<Rightarrow>
          (let V = ViterbiMatrix_members D machine mutatorParams tokens stateScores
           in case ViterbiMatrix_fill V (decoderToposort D machine (inputAlphabet inputModel)) of
                None \<Rightarrow> None
              | Some (Inl e) \<Rightarrow> Some (Inl e)
              | Some (Inr c) \<Rightarrow> Some (Inr (V, c))))"

text \<open>
  The body of the loop of \<^verbatim>\<open>decodeFastSeqs\<close> for one observed sequence, with the input
  model of line 310: weight 1 for a data symbol and the double nearest to \<open>4\<^sup>-\<^sup>4\<^sup>n\<close> for a
  control symbol (\<^verbatim>\<open>pow\<close> underflows to 0 for large \<open>n\<close>), \<open>n\<close> being
  \<^verbatim>\<open>mutatorParams.maxDupLen()\<close>. \<open>decodeRun\<close> keeps the variables of the
  traceback when it returns; \<open>decode\<close> is the decoded string, \<^verbatim>\<open>inseq.seq\<close>.
\<close>

definition decodeRun :: "Decls \<Rightarrow> Machine \<Rightarrow> MutatorParams \<Rightarrow> Base list \<Rightarrow> (error + tb) option" where
  "decodeRun D machine mutatorParams tokens =
     (case InputModel_new (isControl D) (decoderInputAlphabet D machine) 1
             (rnd (1 / 4 ^ (4 * mp_maxDupLen mutatorParams))) of
        Inl e \<Rightarrow> Some (Inl e)
      | Inr inmod \<Rightarrow>
          (case ViterbiMatrix_new D machine inmod mutatorParams tokens of
             None \<Rightarrow> None
           | Some (Inl e) \<Rightarrow> Some (Inl e)
           | Some (Inr (V, c)) \<Rightarrow> tracebackRun V c))"

definition decode :: "Decls \<Rightarrow> Machine \<Rightarrow> MutatorParams \<Rightarrow> Base list \<Rightarrow> (error + string) option" where
  "decode D machine mutatorParams tokens =
     map_option (map_sum id trace) (decodeRun D machine mutatorParams tokens)"

text \<open>
  The fill followed by the traceback, with the configuration in which the traceback
  stops: what \<open>decode\<close> does once the scores of the machine are built.
\<close>

definition fillAndTrace :: "real logprob ViterbiMatrix \<Rightarrow> State list \<Rightarrow> (error + tb) option" where
  "fillAndTrace V stateOrder =
     (case ViterbiMatrix_fill V stateOrder of
        None \<Rightarrow> None
      | Some (Inl e) \<Rightarrow> Some (Inl e)
      | Some (Inr c) \<Rightarrow> tracebackRun V c)"

text \<open>The score that \<^verbatim>\<open>updateBest\<close> computes for a call.\<close>

definition candScore :: "real logprob cells \<Rightarrow> cand \<Rightarrow> real logprob" where
  "candScore c cd = (case cd of (srcState, srcPos, srcMutState, transScore, its) \<Rightarrow>
     getCell c srcState srcPos srcMutState + transScore)"

section \<open>The traceback in the words of the specification\<close>

text \<open>
  A configuration of the traceback is a state, a position and a mutator sub-state. A
  call of \<^verbatim>\<open>updateBest\<close> proposes a predecessor: its configuration, and the input symbol
  that it carries, which is the input symbol of its transition, or the null symbol when
  the predecessor is not reached by a transition of the machine.
\<close>

type_synonym config = "State \<times> Pos \<times> MutStateIndex"

definition configOf :: "tb \<Rightarrow> config" where
  "configOf t = (tb_state t, tb_pos t, tb_mutState t)"

definition candConfig :: "cand \<Rightarrow> config" where
  "candConfig cd = (case cd of (s, p, m, ts, its) \<Rightarrow> (s, p, m))"

definition candSym :: "cand \<Rightarrow> InputSymbol" where
  "candSym cd = (case cd of (s, p, m, ts, its) \<Rightarrow>
     (case its of Some i \<Rightarrow> its_in i | None \<Rightarrow> MachineNull))"

text \<open>
  The chosen predecessor: the first of the proposed predecessors whose score is above
  minus infinity and is the maximum of the scores of all of them.
\<close>

definition chosen :: "real logprob cells \<Rightarrow> cand list \<Rightarrow> cand option" where
  "chosen c cds =
     find (\<lambda>cd. bot < candScore c cd \<and> (\<forall>cd'\<in>set cds. candScore c cd' \<le> candScore c cd)) cds"

text \<open>
  The path of chosen predecessors: from a configuration in a state other than 0 the
  path goes to the chosen one of the predecessors that the iteration proposes, and it
  ends in the first configuration in state 0. \<open>path\<close> lists the chosen predecessors in
  the order in which the traceback visits them, from the end of the decoding to its
  start.
\<close>

inductive chosenPath :: "real logprob ViterbiMatrix \<Rightarrow> real logprob cells \<Rightarrow> config \<Rightarrow> cand list
    \<Rightarrow> config \<Rightarrow> bool"
  for V :: "real logprob ViterbiMatrix" and c :: "real logprob cells" where
  stop: "fst cfg = 0 \<Longrightarrow> chosenPath V c cfg [] cfg"
| step: "0 < tb_state t \<Longrightarrow> candidates V t = Inr cds \<Longrightarrow> chosen c cds = Some cd
           \<Longrightarrow> chosenPath V c (candConfig cd) path cfg'
           \<Longrightarrow> chosenPath V c (configOf t) (cd # path) cfg'"

section \<open>What two runs can differ in\<close>

text \<open>
  Two runs of the decoder on the same machine, input model, parameters and sequence
  compute with the same values except where the source reads memory that it has not
  written. Line 39 declares \<^verbatim>\<open>IncomingTransScore its\<close> and line 53 assigns \<^verbatim>\<open>its.base\<close>
  only for a transition with an output symbol, so the \<^verbatim>\<open>base\<close> of an incoming null
  transition holds whatever the memory holds. Lines 203 to 209 declare the local
  variables of \<^verbatim>\<open>traceback\<close>; \<^verbatim>\<open>bestState\<close>, \<^verbatim>\<open>bestPos\<close>, \<^verbatim>\<open>bestMutState\<close>, \<^verbatim>\<open>best\<close>,
  \<^verbatim>\<open>bestInSym\<close>, \<^verbatim>\<open>bestIts\<close> and \<^verbatim>\<open>foundBest\<close> have no initialiser.

  \<open>sameInput\<close> relates the members of two matrices built from the same input: they
  agree on everything except the \<^verbatim>\<open>base\<close> of the incoming null transitions.
\<close>

definition sameTransition :: "'v IncomingTransScore \<Rightarrow> 'v IncomingTransScore \<Rightarrow> bool" where
  "sameTransition a b = (its_src a = its_src b \<and> its_score a = its_score b \<and> its_in a = its_in b)"

definition sameStateScores :: "'v StateScores \<Rightarrow> 'v StateScores \<Rightarrow> bool" where
  "sameStateScores a b =
     (leftContext a = leftContext b \<and> incomingEmit a = incomingEmit b
      \<and> list_all2 sameTransition (incomingNull a) (incomingNull b)
      \<and> outgoingEmit a = outgoingEmit b \<and> outgoingNull a = outgoingNull b)"

definition sameInput :: "'v ViterbiMatrix \<Rightarrow> 'v ViterbiMatrix \<Rightarrow> bool" where
  "sameInput V V' =
     (maxDupLen V = maxDupLen V' \<and> local V = local V' \<and> seq V = seq V'
      \<and> mutatorScores V = mutatorScores V'
      \<and> list_all2 sameStateScores (machineScores V) (machineScores V'))"

text \<open>
  \<^verbatim>\<open>ViterbiMatrix::traceback\<close> entered with the values \<open>u\<close> in its local variables: lines
  196 and 203 to 205 initialise the trace, the state, the position and the mutator
  sub-state, the other variables keep what they hold. \<open>tracebackRun\<close> is this function
  for one choice of \<open>u\<close>.
\<close>

definition tracebackRunFrom :: "real logprob ViterbiMatrix \<Rightarrow> real logprob cells \<Rightarrow> tb
    \<Rightarrow> (error + tb) option" where
  "tracebackRunFrom V c u =
     (let t0 = u\<lparr>tb_state := nStates V - 1, tb_pos := seqLen V, tb_mutState := 0, trace := []\<rparr>
      in if nStates V = 0 then Some (Inl OutOfRange)
         else if \<not> (loglike V c > bot) then Some (Inr t0)
         else (case foldE (updateBest V c) (startCandidates V) (initBest t0) of
                 Inl e \<Rightarrow> Some (Inl e)
               | Inr t \<Rightarrow>
                   (case checkBest c t of
                      Inl e \<Rightarrow> Some (Inl e)
                    | Inr t1 \<Rightarrow> tracebackLoop V c t1)))"

text \<open>
  A run of the decoder on one observed sequence in which the uninitialised memory holds
  given values: \<open>g s k\<close> in the \<^verbatim>\<open>base\<close> of the \<open>k\<close>-th incoming null transition of state
  \<open>s\<close> (where \<open>MachineScores_new\<close> stores 0), and \<open>u\<close> in the local variables of
  \<^verbatim>\<open>traceback\<close>. The outcome is the final log-likelihood with the decoded string.
\<close>

definition garble :: "(State \<Rightarrow> nat \<Rightarrow> Base) \<Rightarrow> 'v StateScores list \<Rightarrow> 'v StateScores list" where
  "garble g stateScores =
     map (\<lambda>(s, ss). ss\<lparr>incomingNull :=
            map (\<lambda>(k, its). its\<lparr>its_base := g s k\<rparr>) (enumerate 0 (incomingNull ss))\<rparr>)
       (enumerate 0 stateScores)"

definition decodeWith :: "(State \<Rightarrow> nat \<Rightarrow> Base) \<Rightarrow> tb \<Rightarrow> Decls \<Rightarrow> Machine \<Rightarrow> MutatorParams
    \<Rightarrow> Base list \<Rightarrow> (error + real logprob \<times> string) option" where
  "decodeWith g u D machine mutatorParams tokens =
     (case InputModel_new (isControl D) (decoderInputAlphabet D machine) 1
             (rnd (1 / 4 ^ (4 * mp_maxDupLen mutatorParams))) of
        Inl e \<Rightarrow> Some (Inl e)
      | Inr inmod \<Rightarrow>
          (case MachineScores_new D machine inmod of
             Inl e \<Rightarrow> Some (Inl e)
           | Inr stateScores \<Rightarrow>
               (let V = ViterbiMatrix_members D machine mutatorParams tokens (garble g stateScores)
                in case ViterbiMatrix_fill V (decoderToposort D machine (inputAlphabet inmod)) of
                     None \<Rightarrow> None
                   | Some (Inl e) \<Rightarrow> Some (Inl e)
                   | Some (Inr c) \<Rightarrow>
                       map_option (map_sum id (\<lambda>t. (loglike V c, trace t)))
                         (tracebackRunFrom V c u))))"

text \<open>
  Two proposed predecessors, and two sets of local variables, that agree on all that
  the traceback reads of them.
\<close>

definition sameCand :: "cand \<Rightarrow> cand \<Rightarrow> bool" where
  "sameCand a b =
     (case a of (s, p, m, ts, its) \<Rightarrow> case b of (s', p', m', ts', its') \<Rightarrow>
        s = s' \<and> p = p' \<and> m = m' \<and> ts = ts' \<and> rel_option sameTransition its its')"

definition sameBest :: "tb \<Rightarrow> tb \<Rightarrow> bool" where
  "sameBest t t' =
     (configOf t = configOf t' \<and> trace t = trace t' \<and> best t = best t'
      \<and> foundBest t = foundBest t'
      \<and> (foundBest t \<longrightarrow> bestState t = bestState t' \<and> bestPos t = bestPos t'
            \<and> bestMutState t = bestMutState t' \<and> bestInSym t = bestInSym t'))"

definition sameVisible :: "tb \<Rightarrow> tb \<Rightarrow> bool" where
  "sameVisible t t' = (configOf t = configOf t' \<and> trace t = trace t')"

section \<open>MachineScores in the words of the specification\<close>

text \<open>
  The lists of \<open>MachineScores\<close> described transition by transition, to be compared with
  what the constructor builds. \<open>specScore\<close> is the log-score of a transition, \<open>None\<close>
  for a transition that is dropped: the logarithm of its probability when its input
  symbol is a key of the input model; otherwise 0 when the input symbol is the null
  symbol or the end-of-input marker; otherwise the transition is dropped.
\<close>

definition specScore :: "Decls \<Rightarrow> InputModel \<Rightarrow> MachineTransition \<Rightarrow> real logprob option" where
  "specScore D inputModel t =
     (if t_in t \<in> fst ` set (symProb inputModel)
      then Some (llog (the (map_of (symProb inputModel) (t_in t))))
      else if t_in t = MachineNull \<or> t_in t = MachineEOF D then Some 0
      else None)"

text \<open>
  A transition is recorded in the emit lists when it is not dropped and has an output
  symbol, in the null lists when it is not dropped and has none.
\<close>

definition kept :: "Decls \<Rightarrow> InputModel \<Rightarrow> bool \<Rightarrow> MachineTransition \<Rightarrow> bool" where
  "kept D inputModel emit t = (specScore D inputModel t \<noteq> None \<and> outputEmpty t = (\<not> emit))"

definition mkOts :: "Decls \<Rightarrow> InputModel \<Rightarrow> MachineTransition \<Rightarrow> real logprob OutgoingTransScore" where
  "mkOts D inputModel t = \<lparr>ots_dest = t_dest t, ots_score = the (specScore D inputModel t)\<rparr>"

definition mkIts :: "Decls \<Rightarrow> InputModel \<Rightarrow> bool \<Rightarrow> State \<Rightarrow> MachineTransition
    \<Rightarrow> real logprob IncomingTransScore" where
  "mkIts D inputModel emit s t =
     \<lparr>its_src = s, its_score = the (specScore D inputModel t), its_in = t_in t,
      its_base = (if emit then charToBase D (t_out t) else 0)\<rparr>"

text \<open>
  The outgoing entries that the transitions \<open>ts\<close> of a state give, and the incoming
  entries that the transitions \<open>ts\<close> of state \<open>s\<close> give to state \<open>d\<close>, in the order of
  \<open>ts\<close>.
\<close>

definition outOf :: "Decls \<Rightarrow> InputModel \<Rightarrow> bool \<Rightarrow> MachineTransition list
    \<Rightarrow> real logprob OutgoingTransScore list" where
  "outOf D inputModel emit ts = map (mkOts D inputModel) (filter (kept D inputModel emit) ts)"

definition inOf :: "Decls \<Rightarrow> InputModel \<Rightarrow> bool \<Rightarrow> State \<Rightarrow> State \<Rightarrow> MachineTransition list
    \<Rightarrow> real logprob IncomingTransScore list" where
  "inOf D inputModel emit s d ts =
     map (mkIts D inputModel emit s)
       (filter (\<lambda>t. kept D inputModel emit t \<and> t_dest t = d) ts)"

definition contextBases :: "Decls \<Rightarrow> string \<Rightarrow> Base list" where
  "contextBases D ctx = map (charToBase D) (filter (\<lambda>lc. lc \<noteq> MachineWildContext D) ctx)"

section \<open>Notions for the closure\<close>

text \<open>
  \<open>grows V pos c c'\<close>: the cells \<open>c'\<close> are pointwise at least the cells \<open>c\<close>, and they
  differ from them only in the S and D layers of column \<open>pos\<close>, at states of the
  machine.
\<close>

definition grows :: "('v::linorder) ViterbiMatrix \<Rightarrow> Pos \<Rightarrow> 'v cells \<Rightarrow> 'v cells \<Rightarrow> bool" where
  "grows V pos c c' =
     ((\<forall>i. c i \<le> c' i)
      \<and> (\<forall>s p m. c' (s, p, m) \<noteq> c (s, p, m) \<longrightarrow> s < nStates V \<and> p = pos \<and> m < 2))"

text \<open>
  \<open>relaxed V pos cl cl'\<close>: what relaxations of transitions do to the state of the
  closure loop. The cells grow; \<^verbatim>\<open>onStack\<close> keeps its length and its marks; every state
  that was in \<^verbatim>\<open>pushStates\<close> stays, every new one was unmarked and is now marked, every
  newly marked state is in \<^verbatim>\<open>pushStates\<close>; a state one of whose two cells changed is
  marked; and when no cell changed, nothing changed.
\<close>

definition relaxed :: "('v::linorder) ViterbiMatrix \<Rightarrow> Pos \<Rightarrow> 'v closure \<Rightarrow> 'v closure \<Rightarrow> bool" where
  "relaxed V pos cl cl' =
     (case cl of (c, ps, os) \<Rightarrow> case cl' of (c', ps', os') \<Rightarrow>
        grows V pos c c'
        \<and> length os' = length os
        \<and> (\<forall>b<length os. os ! b \<longrightarrow> os' ! b)
        \<and> set ps \<subseteq> set ps'
        \<and> set ps' \<subseteq> set ps \<union> {b. b < length os \<and> \<not> os ! b}
        \<and> (\<forall>b<length os. os' ! b \<and> \<not> os ! b \<longrightarrow> b \<in> set ps')
        \<and> (\<forall>b. sCell c' b pos \<noteq> sCell c b pos \<or> dCell c' b pos \<noteq> dCell c b pos
               \<longrightarrow> b < length os \<and> os' ! b)
        \<and> (c' = c \<longrightarrow> ps' = ps \<and> os' = os))"

text \<open>
  The rank of a score in a finite score type is the number of scores below it;
  \<open>colRank\<close> adds the ranks of the S and D cells of a column.
\<close>

definition rank :: "('v::{finite,linorder}) \<Rightarrow> nat" where
  "rank v = card {u. u < v}"

definition colRank :: "('v::{finite,linorder}) ViterbiMatrix \<Rightarrow> Pos \<Rightarrow> 'v cells \<Rightarrow> nat" where
  "colRank V pos c = (\<Sum>s<nStates V. rank (sCell c s pos) + rank (dCell c s pos))"

text \<open>
  The scores of a machine are well formed when every outgoing transition leads to a
  state of the machine, as it does for scores that \<open>MachineScores_new\<close> built.
\<close>

definition wfScores :: "'v ViterbiMatrix \<Rightarrow> bool" where
  "wfScores V =
     (\<forall>s<nStates V.
        (\<forall>ots\<in>set (outgoingEmit (machineScores V ! s)). ots_dest ots < nStates V)
        \<and> (\<forall>ots\<in>set (outgoingNull (machineScores V ! s)). ots_dest ots < nStates V))"

text \<open>
  \<open>onlyS state pos c c'\<close>: the cells \<open>c'\<close> are the cells \<open>c\<close> but for the cell
  \<open>S[state, pos]\<close>.
\<close>

definition onlyS :: "State \<Rightarrow> Pos \<Rightarrow> 'v cells \<Rightarrow> 'v cells \<Rightarrow> bool" where
  "onlyS state pos c c' =
     ((\<forall>s p. dCell c' s p = dCell c s p)
      \<and> (\<forall>s p k. tCell c' s p k = tCell c s p k)
      \<and> (\<forall>s p. (s, p) \<noteq> (state, pos) \<longrightarrow> sCell c' s p = sCell c s p))"

text \<open>
  \<open>sat V pos c a\<close>: in the cells \<open>c\<close>, at column \<open>pos\<close>, no relaxation out of state \<open>a\<close>
  would raise a score: \<open>S[a]\<close> is at least \<open>D[a] + delEnd\<close>, the D cell of the
  destination of every outgoing emit transition is at least the score of opening or
  extending a deletion over it, and the D and S cells of the destination of every
  outgoing null transition are at least the scores carried over it.
\<close>

definition sat :: "('v::{linorder,plus}) ViterbiMatrix \<Rightarrow> Pos \<Rightarrow> 'v cells \<Rightarrow> State \<Rightarrow> bool" where
  "sat V pos c a =
     (dCell c a pos + delEnd (mutatorScores V) \<le> sCell c a pos
      \<and> (\<forall>ots\<in>set (outgoingEmit (machineScores V ! a)).
            max (dCell c a pos + delExtend (mutatorScores V))
                (sCell c a pos + delOpen (mutatorScores V)) + ots_score ots
              \<le> dCell c (ots_dest ots) pos)
      \<and> (\<forall>ots\<in>set (outgoingNull (machineScores V ! a)).
            dCell c a pos + ots_score ots \<le> dCell c (ots_dest ots) pos
            \<and> sCell c a pos + ots_score ots \<le> sCell c (ots_dest ots) pos))"

text \<open>
  The invariant of the closure loop for a worklist seeded with \<open>stateOrder\<close>: the
  states in \<^verbatim>\<open>pushStates\<close> are states of the order; a state outside the order is marked
  for ever; a marked state of the order is in \<^verbatim>\<open>pushStates\<close>; an unmarked state of the
  order is saturated.
\<close>

definition closureInv :: "('v::{linorder,plus}) ViterbiMatrix \<Rightarrow> Pos \<Rightarrow> State list \<Rightarrow> 'v closure \<Rightarrow> bool" where
  "closureInv V pos stateOrder cl =
     (case cl of (c, ps, os) \<Rightarrow>
        length os = nStates V
        \<and> set ps \<subseteq> set stateOrder
        \<and> (\<forall>b<nStates V. b \<notin> set stateOrder \<longrightarrow> os ! b)
        \<and> (\<forall>b\<in>set stateOrder. os ! b \<longrightarrow> b \<in> set ps)
        \<and> (\<forall>b\<in>set stateOrder. \<not> os ! b \<longrightarrow> sat V pos c b))"

section \<open>Concrete machines\<close>

text \<open>
  The parameters at which the examples run: no control symbols, \<open>$\<close> for the
  end-of-input marker, \<open>*\<close> for the wildcard context, the bases A, C, G, T as 0 to 3,
  the output alphabet read off the transitions, and the input alphabet, the
  topological order and the maximal left context given for the machine at hand.
\<close>

definition exDecls :: "string \<Rightarrow> State list \<Rightarrow> nat \<Rightarrow> Decls" where
  "exDecls inAlph stateOrder maxCtx =
     \<lparr>isControl = (\<lambda>c. False),
      MachineEOF = CHR ''$'',
      MachineWildContext = CHR ''*'',
      charToBase = (\<lambda>c. if c = CHR ''A'' then 0 else if c = CHR ''C'' then 1
                         else if c = CHR ''G'' then 2 else 3),
      isValidDnaToken = (\<lambda>c. c \<in> set ''ACGT''),
      verifyContexts = (\<lambda>machine. True),
      outputAlphabet = (\<lambda>machine. remdups (filter (\<lambda>c. c \<noteq> MachineNull)
                            (concat (map (\<lambda>ms. map t_out (m_trans ms)) (m_state machine))))),
      decoderInputAlphabet = (\<lambda>machine. inAlph),
      decoderToposort = (\<lambda>machine alph. stateOrder),
      maxLeftContext = (\<lambda>machine. maxCtx)\<rparr>"

text \<open>
  Mutator scores with no degenerate entry: a match costs 0, a substitution \<open>-5\<close>.
\<close>

definition exScores :: "real logprob MutatorScores" where
  "exScores = \<lparr>sub = (\<lambda>i j. if i = j then Fin 0 else Fin (- 5)), noGap = Fin (- 1),
               delOpen = Fin (- 3), delExtend = Fin (- 1), delEnd = Fin (- 1),
               tanDup = Fin (- 2), len = (\<lambda>k. Fin (- 1))\<rparr>"

text \<open>
  Three states. State 0 reads \<open>x\<close> and writes A into state 1, whose left context is A;
  the accept state 2 has a null transition into state 1.
\<close>

definition dupMachine :: Machine where
  "dupMachine = \<lparr>m_state =
     [\<lparr>m_leftContext = ''*'',
       m_trans = [\<lparr>t_in = CHR ''x'', t_out = CHR ''A'', t_dest = 1\<rparr>]\<rparr>,
      \<lparr>m_leftContext = ''A'', m_trans = []\<rparr>,
      \<lparr>m_leftContext = ''A'',
       m_trans = [\<lparr>t_in = MachineNull, t_out = MachineNull, t_dest = 1\<rparr>]\<rparr>]\<rparr>"

definition dupParams :: MutatorParams where
  "dupParams = \<lparr>mp_local = True, mp_maxDupLen = 2, mp_scores = exScores\<rparr>"

text \<open>
  Two states. The start state reads \<open>x\<close> and writes A in a loop, and leaves for the
  accept state on the end-of-input marker.
\<close>

definition loopMachine :: Machine where
  "loopMachine = \<lparr>m_state =
     [\<lparr>m_leftContext = ''*'',
       m_trans = [\<lparr>t_in = CHR ''x'', t_out = CHR ''A'', t_dest = 0\<rparr>,
                  \<lparr>t_in = CHR ''$'', t_out = MachineNull, t_dest = 1\<rparr>]\<rparr>,
      \<lparr>m_leftContext = ''*'', m_trans = []\<rparr>]\<rparr>"

text \<open>
  Three states in a line: \<open>x\<close> writes A, then the end-of-input marker leads to the
  accept state.
\<close>

definition lineMachine :: Machine where
  "lineMachine = \<lparr>m_state =
     [\<lparr>m_leftContext = ''*'',
       m_trans = [\<lparr>t_in = CHR ''x'', t_out = CHR ''A'', t_dest = 1\<rparr>]\<rparr>,
      \<lparr>m_leftContext = ''A'',
       m_trans = [\<lparr>t_in = CHR ''$'', t_out = MachineNull, t_dest = 2\<rparr>]\<rparr>,
      \<lparr>m_leftContext = ''A'', m_trans = []\<rparr>]\<rparr>"

definition globalParams :: MutatorParams where
  "globalParams = \<lparr>mp_local = False, mp_maxDupLen = 2, mp_scores = exScores\<rparr>"

text \<open>The scores that \<open>MachineScores_new\<close> builds for the three machines.\<close>

definition dupStateScores :: "real logprob StateScores list" where
  "dupStateScores =
     [\<lparr>leftContext = [], incomingEmit = [], incomingNull = [],
       outgoingEmit = [\<lparr>ots_dest = 1, ots_score = Fin 0\<rparr>], outgoingNull = []\<rparr>,
      \<lparr>leftContext = [0],
       incomingEmit = [\<lparr>its_src = 0, its_score = Fin 0, its_in = CHR ''x'', its_base = 0\<rparr>],
       incomingNull = [\<lparr>its_src = 2, its_score = Fin 0, its_in = CHR 0x00, its_base = 0\<rparr>],
       outgoingEmit = [], outgoingNull = []\<rparr>,
      \<lparr>leftContext = [0], incomingEmit = [], incomingNull = [],
       outgoingEmit = [], outgoingNull = [\<lparr>ots_dest = 1, ots_score = Fin 0\<rparr>]\<rparr>]"

definition loopStateScores :: "real logprob StateScores list" where
  "loopStateScores =
     [\<lparr>leftContext = [],
       incomingEmit = [\<lparr>its_src = 0, its_score = Fin 0, its_in = CHR ''x'', its_base = 0\<rparr>],
       incomingNull = [],
       outgoingEmit = [\<lparr>ots_dest = 0, ots_score = Fin 0\<rparr>],
       outgoingNull = [\<lparr>ots_dest = 1, ots_score = Fin 0\<rparr>]\<rparr>,
      \<lparr>leftContext = [], incomingEmit = [],
       incomingNull = [\<lparr>its_src = 0, its_score = Fin 0, its_in = CHR ''$'', its_base = 0\<rparr>],
       outgoingEmit = [], outgoingNull = []\<rparr>]"

definition lineStateScores :: "real logprob StateScores list" where
  "lineStateScores =
     [\<lparr>leftContext = [], incomingEmit = [], incomingNull = [],
       outgoingEmit = [\<lparr>ots_dest = 1, ots_score = Fin 0\<rparr>], outgoingNull = []\<rparr>,
      \<lparr>leftContext = [0],
       incomingEmit = [\<lparr>its_src = 0, its_score = Fin 0, its_in = CHR ''x'', its_base = 0\<rparr>],
       incomingNull = [], outgoingEmit = [],
       outgoingNull = [\<lparr>ots_dest = 2, ots_score = Fin 0\<rparr>]\<rparr>,
      \<lparr>leftContext = [0], incomingEmit = [],
       incomingNull = [\<lparr>its_src = 1, its_score = Fin 0, its_in = CHR ''$'', its_base = 0\<rparr>],
       outgoingEmit = [], outgoingNull = []\<rparr>]"

definition xModel :: InputModel where
  "xModel = \<lparr>inputAlphabet = ''x'', symProb = [(CHR ''x'', 1)]\<rparr>"

text \<open>The matrices of \<open>loopMachine\<close> on AA and of \<open>lineMachine\<close> on A, in global mode.\<close>

definition loopV :: "real logprob ViterbiMatrix" where
  "loopV = \<lparr>maxDupLen = 0, local = False, seq = [0, 0], machineScores = loopStateScores,
            mutatorScores = exScores\<rparr>"

definition lineV :: "real logprob ViterbiMatrix" where
  "lineV = \<lparr>maxDupLen = 1, local = False, seq = [0], machineScores = lineStateScores,
            mutatorScores = exScores\<rparr>"

definition lineCells :: "real logprob cells" where
  "lineCells = (case ViterbiMatrix_fill lineV [0, 1, 2] of Some (Inr c) \<Rightarrow> c | _ \<Rightarrow> (\<lambda>i. bot))"

definition loopCells :: "real logprob cells" where
  "loopCells = (case ViterbiMatrix_fill loopV [0, 1] of Some (Inr c) \<Rightarrow> c | _ \<Rightarrow> (\<lambda>i. bot))"

text \<open>The matrix of \<open>dupMachine\<close> on AA, in local mode.\<close>

definition dupV :: "real logprob ViterbiMatrix" where
  "dupV = \<lparr>maxDupLen = 1, local = True, seq = [0, 0], machineScores = dupStateScores,
           mutatorScores = exScores\<rparr>"

definition dupCells :: "real logprob cells" where
  "dupCells = (case ViterbiMatrix_fill dupV [0, 2, 1] of Some (Inr c) \<Rightarrow> c | _ \<Rightarrow> (\<lambda>i. bot))"

text \<open>A configuration of the traceback with nothing chosen yet.\<close>

definition tbAt :: "State \<Rightarrow> Pos \<Rightarrow> MutStateIndex \<Rightarrow> tb" where
  "tbAt state pos mutState =
     \<lparr>tb_state = state, tb_pos = pos, tb_mutState = mutState, best = bot, bestState = 0,
      bestPos = 0, bestMutState = 0, bestInSym = MachineNull, bestIts = None,
      foundBest = False, trace = []\<rparr>"

text \<open>
  The input model of the alphabet \<open>x$\<close>, which holds the end-of-input marker as the
  decoder's alphabet does: each symbol has probability 1/2.
\<close>

definition eofModel :: InputModel where
  "eofModel = \<lparr>inputAlphabet = ''x$'', symProb = [(CHR ''x'', 1 / 2), (CHR ''$'', 1 / 2)]\<rparr>"

text \<open>
  A matrix over the two-element score type: one state with an emit loop and a null
  loop on itself.
\<close>

definition twoV :: "Enum.finite_2 ViterbiMatrix" where
  "twoV = \<lparr>maxDupLen = 0, local = False, seq = [],
           machineScores =
             [\<lparr>leftContext = [], incomingEmit = [], incomingNull = [],
               outgoingEmit = [\<lparr>ots_dest = 0, ots_score = 1\<rparr>],
               outgoingNull = [\<lparr>ots_dest = 0, ots_score = 1\<rparr>]\<rparr>],
           mutatorScores = \<lparr>sub = (\<lambda>i j. 0), noGap = 0, delOpen = 1, delExtend = 1,
                             delEnd = 0, tanDup = 0, len = (\<lambda>k. 0)\<rparr>\<rparr>"

text \<open>
  The machine of \<open>dupV\<close> with two bases of left context in state 1 and duplications of
  length up to 2, with its initial cells and its cells after the columns 0 and 1.
\<close>

definition dup2V :: "real logprob ViterbiMatrix" where
  "dup2V = \<lparr>maxDupLen = 2, local = True, seq = [0, 0],
            machineScores = dupStateScores[1 := (dupStateScores ! 1)\<lparr>leftContext := [0, 0]\<rparr>],
            mutatorScores = exScores\<rparr>"

definition dup2Init :: "real logprob cells" where
  "dup2Init = (case initCells dup2V of Inr c \<Rightarrow> c | Inl e \<Rightarrow> (\<lambda>i. bot))"

definition dup2Col :: "real logprob cells" where
  "dup2Col = (case fillColumns dup2V [0, 2, 1] [0 ..< Suc 1] dup2Init of
                Some (Inr c) \<Rightarrow> c | _ \<Rightarrow> (\<lambda>i. bot))"

text \<open>The matrix of \<open>lineMachine\<close> on A in local mode, and its cells.\<close>

definition lineLocalV :: "real logprob ViterbiMatrix" where
  "lineLocalV = lineV\<lparr>local := True\<rparr>"

definition lineLocalCells :: "real logprob cells" where
  "lineLocalCells = (case ViterbiMatrix_fill lineLocalV [0, 1, 2] of Some (Inr c) \<Rightarrow> c | _ \<Rightarrow> (\<lambda>i. bot))"

text \<open>
  Three states with a cycle of null transitions between state 1 and the accept state 2:
  state 0 reads \<open>x\<close> and writes A into state 1; states 1 and 2 have left context A. The
  scores that \<open>MachineScores_new\<close> builds for it, its matrix on AA in global mode, and
  the cells of that matrix.
\<close>

definition cycleMachine :: Machine where
  "cycleMachine = \<lparr>m_state =
     [\<lparr>m_leftContext = ''*'',
       m_trans = [\<lparr>t_in = CHR ''x'', t_out = CHR ''A'', t_dest = 1\<rparr>]\<rparr>,
      \<lparr>m_leftContext = ''A'',
       m_trans = [\<lparr>t_in = MachineNull, t_out = MachineNull, t_dest = 2\<rparr>]\<rparr>,
      \<lparr>m_leftContext = ''A'',
       m_trans = [\<lparr>t_in = MachineNull, t_out = MachineNull, t_dest = 1\<rparr>]\<rparr>]\<rparr>"

definition cycleStateScores :: "real logprob StateScores list" where
  "cycleStateScores =
     [\<lparr>leftContext = [], incomingEmit = [], incomingNull = [],
       outgoingEmit = [\<lparr>ots_dest = 1, ots_score = Fin 0\<rparr>], outgoingNull = []\<rparr>,
      \<lparr>leftContext = [0],
       incomingEmit = [\<lparr>its_src = 0, its_score = Fin 0, its_in = CHR ''x'', its_base = 0\<rparr>],
       incomingNull = [\<lparr>its_src = 2, its_score = Fin 0, its_in = CHR 0x00, its_base = 0\<rparr>],
       outgoingEmit = [], outgoingNull = [\<lparr>ots_dest = 2, ots_score = Fin 0\<rparr>]\<rparr>,
      \<lparr>leftContext = [0], incomingEmit = [],
       incomingNull = [\<lparr>its_src = 1, its_score = Fin 0, its_in = CHR 0x00, its_base = 0\<rparr>],
       outgoingEmit = [], outgoingNull = [\<lparr>ots_dest = 1, ots_score = Fin 0\<rparr>]\<rparr>]"

definition cycleV :: "real logprob ViterbiMatrix" where
  "cycleV = \<lparr>maxDupLen = 1, local = False, seq = [0, 0], machineScores = cycleStateScores,
             mutatorScores = exScores\<rparr>"

definition cycleCells :: "real logprob cells" where
  "cycleCells = (case ViterbiMatrix_fill cycleV [0, 1, 2] of Some (Inr c) \<Rightarrow> c | _ \<Rightarrow> (\<lambda>i. bot))"

text \<open>The two configurations between which the traceback of \<open>cycleV\<close> alternates.\<close>

definition inCycle :: "tb \<Rightarrow> bool" where
  "inCycle t = (tb_pos t = 2 \<and> tb_mutState t = 0 \<and> (tb_state t = 1 \<or> tb_state t = 2))"

text \<open>
  The matrix \<open>lineV\<close> with another value in the \<^verbatim>\<open>base\<close> of the incoming null transition
  of state 2, and local variables of the traceback with other values than \<open>tbAt\<close> gives
  them.
\<close>

definition lineV2 :: "real logprob ViterbiMatrix" where
  "lineV2 = lineV\<lparr>machineScores := lineStateScores[2 := (lineStateScores ! 2)
     \<lparr>incomingNull := [\<lparr>its_src = 1, its_score = Fin 0, its_in = CHR ''$'', its_base = 3\<rparr>]\<rparr>]\<rparr>"

definition otherLocals :: tb where
  "otherLocals = \<lparr>tb_state = 7, tb_pos = 7, tb_mutState = 7, best = Fin 1, bestState = 5,
     bestPos = 5, bestMutState = 5, bestInSym = CHR ''q'',
     bestIts = Some \<lparr>its_src = 9, its_score = Fin 2, its_in = CHR ''r'', its_base = 2\<rparr>,
     foundBest = True, trace = ''zz''\<rparr>"

section \<open>Double arithmetic: rounding\<close>

lemma ulp_pos: "0 < ulp x"
  by (simp add: ulp_def)

lemma roundEven_near: "\<bar>of_int (roundEven y) - y\<bar> \<le> 1 / 2"
  unfolding roundEven_def Let_def by (auto simp: abs_le_iff)

lemma roundEven_of_int [simp]: "roundEven (of_int m) = m"
  by (simp add: roundEven_def)

lemma roundEven_nonneg: "0 \<le> y \<Longrightarrow> 0 \<le> roundEven y"
  unfolding roundEven_def Let_def by auto

lemma rnd_near: "\<bar>rnd x - x\<bar> \<le> ulp x / 2"
proof (cases "x = 0")
  case True
  then show ?thesis using ulp_pos [of x] by (simp add: rnd_def)
next
  case False
  have "rnd x - x = (of_int (roundEven (x / ulp x)) - x / ulp x) * ulp x"
    using False ulp_pos [of x] by (simp add: rnd_def algebra_simps)
  then have "\<bar>rnd x - x\<bar> = \<bar>of_int (roundEven (x / ulp x)) - x / ulp x\<bar> * ulp x"
    using ulp_pos [of x] by (simp add: abs_mult)
  also have "\<dots> \<le> (1 / 2) * ulp x"
    using roundEven_near [of "x / ulp x"] ulp_pos [of x] by (intro mult_right_mono) simp_all
  finally show ?thesis by simp
qed

lemma rnd_nonneg: "0 \<le> x \<Longrightarrow> 0 \<le> rnd x"
  using ulp_pos [of x] roundEven_nonneg [of "x / ulp x"] by (simp add: rnd_def)

lemma pow2_floor_log: "x \<noteq> 0 \<Longrightarrow> 2 powr (of_int \<lfloor>log 2 \<bar>x\<bar>\<rfloor>) \<le> \<bar>x\<bar>"
proof -
  assume "x \<noteq> 0"
  have "2 powr (of_int \<lfloor>log 2 \<bar>x\<bar>\<rfloor>) \<le> 2 powr (log 2 \<bar>x\<bar>)"
    by (intro powr_mono) simp_all
  also have "\<dots> = \<bar>x\<bar>" using \<open>x \<noteq> 0\<close> by simp
  finally show ?thesis .
qed

lemma ulp_normal:
  assumes "2 powr (- 1022) \<le> \<bar>x\<bar>"
  shows "ulp x \<le> 2 powr (- 52) * \<bar>x\<bar>"
proof -
  from assms have nz: "x \<noteq> 0" by auto
  have "- 1022 \<le> log 2 \<bar>x\<bar>"
    using assms nz by (simp add: le_log_iff)
  then have "(- 1022 :: int) \<le> \<lfloor>log 2 \<bar>x\<bar>\<rfloor>" by (simp add: le_floor_iff)
  then have e: "expo x = \<lfloor>log 2 \<bar>x\<bar>\<rfloor>" by (simp add: expo_def)
  have "ulp x = 2 powr (of_int \<lfloor>log 2 \<bar>x\<bar>\<rfloor>) * 2 powr (- 52)"
    by (simp add: ulp_def e powr_diff powr_minus field_simps)
  also have "\<dots> \<le> \<bar>x\<bar> * 2 powr (- 52)"
    using pow2_floor_log [OF nz] by (intro mult_right_mono) simp_all
  finally show ?thesis by (simp add: mult.commute)
qed

lemma ulp_subnormal:
  assumes "\<bar>x\<bar> < 2 powr (- 1022)" and "x \<noteq> 0"
  shows "ulp x = 2 powr (- 1074)"
proof -
  have "log 2 \<bar>x\<bar> < - 1022"
    using assms by (simp add: log_less_iff)
  then have "\<lfloor>log 2 \<bar>x\<bar>\<rfloor> < (- 1022 :: int)" by (simp add: floor_less_iff)
  then have "expo x = - 1022" by (simp add: expo_def)
  then show ?thesis by (simp add: ulp_def)
qed

lemma grid_add: "grid a \<Longrightarrow> grid b \<Longrightarrow> grid (a + b)"
proof -
  assume "grid a" "grid b"
  then obtain m n :: int where "a = of_int m * 2 powr (- 1074)" "b = of_int n * 2 powr (- 1074)"
    by (auto simp: grid_def)
  then have "a + b = of_int (m + n) * 2 powr (- 1074)"
    by (simp add: algebra_simps)
  then show ?thesis unfolding grid_def by blast
qed

lemma grid_0 [simp]: "grid 0"
  unfolding grid_def by (rule exI [of _ 0]) simp

lemma ulp_grid: "\<exists>j :: nat. ulp x = 2 ^ j * 2 powr (- 1074)"
proof -
  have "0 \<le> expo x + 1022" by (simp add: expo_def)
  then obtain j :: nat where j: "expo x + 1022 = int j"
    using nonneg_int_cases by blast
  have "of_int (expo x) - 52 = real j + (- 1074)"
    using j by (simp add: algebra_simps)
  then have "ulp x = 2 powr (real j) * 2 powr (- 1074)"
    unfolding ulp_def by (simp only: powr_add)
  then show ?thesis by (auto simp: powr_realpow)
qed

lemma rnd_grid: "grid (rnd x)"
proof (cases "x = 0")
  case True
  then show ?thesis by (simp add: rnd_def)
next
  case False
  obtain j :: nat where "ulp x = 2 ^ j * 2 powr (- 1074)"
    using ulp_grid by blast
  then have "rnd x = of_int (roundEven (x / ulp x) * 2 ^ j) * 2 powr (- 1074)"
    using False by (simp add: rnd_def)
  then show ?thesis unfolding grid_def by blast
qed

lemma rnd_subnormal_exact:
  assumes "grid x" and "\<bar>x\<bar> < 2 powr (- 1022)"
  shows "rnd x = x"
proof (cases "x = 0")
  case True
  then show ?thesis by (simp add: rnd_def)
next
  case False
  from assms(1) obtain m :: int where m: "x = of_int m * 2 powr (- 1074)"
    by (auto simp: grid_def)
  have u: "ulp x = 2 powr (- 1074)"
    using assms(2) False by (rule ulp_subnormal)
  have "x / 2 powr (- 1074) = of_int m"
    unfolding m by simp
  then show ?thesis
    using False by (simp add: rnd_def u) (simp add: m)
qed

lemma rnd_add_bound:
  assumes "grid a" and "grid b"
  shows "\<bar>rnd (a + b) - (a + b)\<bar> \<le> \<bar>a + b\<bar> / 2 ^ 53"
proof (cases "2 powr (- 1022) \<le> \<bar>a + b\<bar>")
  case True
  have "\<bar>rnd (a + b) - (a + b)\<bar> \<le> ulp (a + b) / 2"
    by (rule rnd_near)
  also have "\<dots> \<le> (2 powr (- 52) * \<bar>a + b\<bar>) / 2"
    using ulp_normal [OF True] by simp
  also have "\<dots> = \<bar>a + b\<bar> / 2 ^ 53"
    by (simp add: powr_minus powr_numeral field_simps)
  finally show ?thesis .
next
  case False
  then have "rnd (a + b) = a + b"
    using grid_add [OF assms] by (intro rnd_subnormal_exact) simp_all
  then show ?thesis by simp
qed

lemma rnd_bound: "\<bar>rnd y - y\<bar> \<le> \<bar>y\<bar> / 2 ^ 53 + 1 / 2 ^ 1075"
proof (cases "2 powr (- 1022) \<le> \<bar>y\<bar>")
  case True
  have "\<bar>rnd y - y\<bar> \<le> ulp y / 2"
    by (rule rnd_near)
  also have "\<dots> \<le> (2 powr (- 52) * \<bar>y\<bar>) / 2"
    using ulp_normal [OF True] by simp
  also have "\<dots> = \<bar>y\<bar> / 2 ^ 53"
    by (simp add: powr_minus powr_numeral field_simps)
  finally show ?thesis by simp
next
  case False
  show ?thesis
  proof (cases "y = 0")
    case True
    then show ?thesis by (simp add: rnd_def)
  next
    case nz: False
    have "ulp y = 2 powr (- 1074)"
      using False nz by (intro ulp_subnormal) simp_all
    then have "ulp y / 2 = 1 / 2 ^ 1075"
      by (simp add: powr_minus powr_numeral field_simps)
    with rnd_near [of y] have "\<bar>rnd y - y\<bar> \<le> 1 / 2 ^ 1075" by simp
    then show ?thesis by (smt (verit) divide_nonneg_pos abs_ge_zero zero_less_power zero_less_numeral)
  qed
qed

lemma rnd_pow2:
  assumes "- 1074 \<le> k"
  shows "rnd (2 powr (of_int k)) = 2 powr (of_int k)"
proof (cases "- 1022 \<le> k")
  case True
  let ?x = "2 powr (of_int k) :: real"
  have "\<lfloor>log 2 \<bar>?x\<bar>\<rfloor> = k" by simp
  then have e: "expo ?x = k" using True by (simp add: expo_def)
  have u: "ulp ?x = 2 powr (of_int k - 52)" by (simp add: ulp_def e)
  have "?x / ulp ?x = 2 powr 52"
    unfolding u by (simp add: powr_diff)
  also have "\<dots> = of_int (2 ^ 52)" by (simp add: powr_numeral)
  finally have q: "?x / ulp ?x = of_int (2 ^ 52)" .
  have "rnd ?x = of_int (2 ^ 52) * ulp ?x"
    unfolding rnd_def q roundEven_of_int by simp
  also have "\<dots> = 2 powr 52 * 2 powr (of_int k - 52)"
    unfolding u by (simp only: powr_numeral) simp
  also have "\<dots> = 2 powr (52 + (of_int k - 52))"
    by (simp only: powr_add)
  also have "\<dots> = ?x"
    by simp
  finally show ?thesis .
next
  case False
  let ?x = "2 powr (of_int k) :: real"
  from assms obtain j :: nat where j: "k + 1074 = int j"
    using nonneg_int_cases [of "k + 1074"] by auto
  have "of_int k = real j + (- 1074)"
    using j by (simp add: algebra_simps)
  then have "?x = 2 powr (real j) * 2 powr (- 1074)"
    by (simp only: powr_add)
  then have "?x = of_int (2 ^ j) * 2 powr (- 1074)"
    by (simp add: powr_realpow)
  then have g: "grid ?x" unfolding grid_def by blast
  have "?x < 2 powr (- 1022)"
    using False by (intro powr_less_mono) simp_all
  then show ?thesis
    using g by (intro rnd_subnormal_exact) simp_all
qed

lemma rnd_1 [simp]: "rnd 1 = 1"
  using rnd_pow2 [of 0] by simp

lemma rnd_2 [simp]: "rnd 2 = 2"
  using rnd_pow2 [of 1] by simp

lemma rnd_half [simp]: "rnd (1 / 2) = 1 / 2"
  using rnd_pow2 [of "- 1"] by (simp add: powr_minus field_simps)

lemma rnd_0 [simp]: "rnd 0 = 0"
  by (simp add: rnd_def)

lemma rnd_big: "rnd (2 ^ 1023) = 2 ^ 1023" "rnd (2 ^ 1024) = 2 ^ 1024"
  using rnd_pow2 [of 1023] rnd_pow2 [of 1024] by (simp_all add: powr_numeral)

lemma rnd_small: "rnd (1 / 65536) = 1 / 65536"
  using rnd_pow2 [of "- 16"] by (simp add: powr_minus powr_numeral field_simps)

section \<open>InputModel: results\<close>

lemma update_fresh: "k \<notin> fst ` set al \<Longrightarrow> AList.update k v al = al @ [(k, v)]"
  by (induction al) auto

lemma weigh_split:
  "weigh ic sw cw (sp, n) cs
     = (foldl (\<lambda>sp c. AList.update c (if ic c then cw else sw) sp) sp cs,
        foldl dadd n (map (\<lambda>c. if ic c then cw else sw) cs))"
  by (induction cs arbitrary: sp n) (simp_all add: Let_def)

lemma foldl_update_distinct:
  "distinct cs \<Longrightarrow> set cs \<inter> fst ` set sp = {}
    \<Longrightarrow> foldl (\<lambda>sp c. AList.update c (f c) sp) sp cs = sp @ map (\<lambda>c. (c, f c)) cs"
proof (induction cs arbitrary: sp)
  case Nil
  then show ?case by simp
next
  case (Cons c cs)
  have fresh: "c \<notin> fst ` set sp" using Cons.prems(2) by auto
  have "set cs \<inter> fst ` set (sp @ [(c, f c)]) = {}"
    using Cons.prems by auto
  with Cons.IH [of "sp @ [(c, f c)]"] Cons.prems(1) show ?case
    by (simp add: update_fresh [OF fresh])
qed

lemma foldl_dadd_PInf [simp]: "foldl dadd PInf ws = PInf"
  by (induction ws) simp_all

lemma rel_bounds: "\<bar>r - x\<bar> \<le> x * u \<Longrightarrow> r \<le> (1 + u) * x \<and> (1 - u) * x \<le> (r :: real)"
  by (auto simp: abs_le_iff algebra_simps)

lemma norm_bound:
  assumes u: "u = 1 / 2 ^ 53"
    and "\<forall>w\<in>set ws. grid w \<and> 0 < w" and "grid a" and "0 \<le> a"
  shows "(foldl dadd (Num a) ws = PInf
            \<and> 2 ^ 1024 \<le> (1 + u) ^ length ws * (a + sum_list ws))
       \<or> (\<exists>N. foldl dadd (Num a) ws = Num N \<and> grid N
            \<and> (1 - u) ^ length ws * (a + sum_list ws) \<le> N
            \<and> N \<le> (1 + u) ^ length ws * (a + sum_list ws))"
  using assms(2-)
proof (induction ws arbitrary: a)
  case Nil
  then show ?case by simp
next
  case (Cons w ws)
  have u0: "0 \<le> u" and u1: "u \<le> 1" by (simp_all add: u)
  let ?n = "length ws"
  let ?R = "sum_list ws"
  let ?x = "a + w"
  let ?r = "rnd ?x"
  have w: "grid w" "0 < w" using Cons.prems(1) by simp_all
  have rest: "\<forall>w\<in>set ws. grid w \<and> 0 < w" using Cons.prems(1) by simp
  have R: "0 \<le> ?R"
    using rest by (intro sum_list_nonneg) (auto intro: less_imp_le)
  have x: "0 < ?x" using w Cons.prems(3) by simp
  have near: "\<bar>?r - ?x\<bar> \<le> ?x * u"
    using rnd_add_bound [OF Cons.prems(2) w(1)] x by (simp add: u)
  from rel_bounds [OF this] have up: "?r \<le> (1 + u) * ?x" and lo: "(1 - u) * ?x \<le> ?r"
    by simp_all
  have r0: "0 \<le> ?r" using x by (intro rnd_nonneg) simp
  have gr: "grid ?r" by (rule rnd_grid)
  have P1: "1 \<le> (1 + u) ^ ?n" using u0 by (intro one_le_power) simp
  have Q0: "0 \<le> (1 - u) ^ ?n" using u1 by (intro zero_le_power) simp
  have upR: "?r + ?R \<le> (1 + u) * (?x + ?R)"
  proof -
    have "0 \<le> u * ?R" using R u0 by simp
    with up show ?thesis by (simp add: algebra_simps)
  qed
  have loR: "(1 - u) * (?x + ?R) \<le> ?r + ?R"
  proof -
    have "0 \<le> u * ?R" using R u0 by simp
    with lo show ?thesis by (simp add: algebra_simps)
  qed
  have upP: "(1 + u) ^ ?n * (?r + ?R) \<le> (1 + u) ^ Suc ?n * (?x + ?R)"
  proof -
    have "(1 + u) ^ ?n * (?r + ?R) \<le> (1 + u) ^ ?n * ((1 + u) * (?x + ?R))"
      using upR P1 by (intro mult_left_mono) simp_all
    then show ?thesis by (simp add: mult.assoc mult.left_commute)
  qed
  have loQ: "(1 - u) ^ Suc ?n * (?x + ?R) \<le> (1 - u) ^ ?n * (?r + ?R)"
  proof -
    have "(1 - u) ^ ?n * ((1 - u) * (?x + ?R)) \<le> (1 - u) ^ ?n * (?r + ?R)"
      using loR Q0 by (intro mult_left_mono) simp_all
    then show ?thesis by (simp add: mult.assoc mult.left_commute)
  qed
  have sum: "a + sum_list (w # ws) = ?x + ?R" by simp
  show ?case
  proof (cases "2 ^ 1024 \<le> ?r")
    case True
    then have f: "foldl dadd (Num a) (w # ws) = PInf" by (simp add: fl_def)
    have "?r \<le> ?r + ?R" using R by simp
    also have "\<dots> \<le> (1 + u) ^ ?n * (?r + ?R)"
      using P1 r0 R mult_right_mono [of 1 "(1 + u) ^ ?n" "?r + ?R"] by simp
    also note upP
    finally have "2 ^ 1024 \<le> (1 + u) ^ Suc ?n * (?x + ?R)" using True by simp
    with f show ?thesis unfolding sum by simp
  next
    case False
    with r0 have f: "dadd (Num a) w = Num ?r" by (simp add: fl_def)
    from Cons.IH [OF rest gr r0] show ?thesis
    proof
      assume A: "foldl dadd (Num ?r) ws = PInf \<and> 2 ^ 1024 \<le> (1 + u) ^ ?n * (?r + ?R)"
      then have "2 ^ 1024 \<le> (1 + u) ^ Suc ?n * (?x + ?R)" using upP by simp
      with A f show ?thesis unfolding sum by simp
    next
      assume "\<exists>N. foldl dadd (Num ?r) ws = Num N \<and> grid N
            \<and> (1 - u) ^ ?n * (?r + ?R) \<le> N \<and> N \<le> (1 + u) ^ ?n * (?r + ?R)"
      then obtain N where N: "foldl dadd (Num ?r) ws = Num N" "grid N"
        "(1 - u) ^ ?n * (?r + ?R) \<le> N" "N \<le> (1 + u) ^ ?n * (?r + ?R)"
        by blast
      from N(3) loQ have "(1 - u) ^ Suc ?n * (?x + ?R) \<le> N" by simp
      moreover from N(4) upP have "N \<le> (1 + u) ^ Suc ?n * (?x + ?R)" by simp
      ultimately show ?thesis using N(1,2) f unfolding sum by simp
    qed
  qed
qed

lemma sum_list_diff_bound:
  "(\<And>x. x \<in> set xs \<Longrightarrow> \<bar>f x - g x\<bar> \<le> (h x :: real))
    \<Longrightarrow> \<bar>sum_list (map f xs) - sum_list (map g xs)\<bar> \<le> sum_list (map h xs)"
proof (induction xs)
  case Nil
  then show ?case by simp
next
  case (Cons x xs)
  have "\<bar>f x - g x\<bar> \<le> h x" using Cons.prems by simp
  moreover have "\<bar>sum_list (map f xs) - sum_list (map g xs)\<bar> \<le> sum_list (map h xs)"
    using Cons.prems by (intro Cons.IH) simp
  ultimately show ?case by (simp add: abs_le_iff)
qed

lemma sum_list_scaled: "sum_list (map (\<lambda>w. w / N) ws) = sum_list ws / (N :: real)"
  by (induction ws) (simp_all add: add_divide_distrib)

lemma sum_list_affine:
  "sum_list (map (\<lambda>w. w / N * u + e) ws) = sum_list ws / N * u + real (length ws) * (e :: real)"
  by (induction ws) (simp_all add: algebra_simps add_divide_distrib)

lemma sum_list_le_const:
  "(\<And>w. w \<in> set ws \<Longrightarrow> w \<le> (m :: real)) \<Longrightarrow> sum_list ws \<le> real (length ws) * m"
proof (induction ws)
  case Nil
  then show ?case by simp
next
  case (Cons w ws)
  have "w \<le> m" using Cons.prems by simp
  moreover have "sum_list ws \<le> real (length ws) * m" using Cons.prems by (intro Cons.IH) simp
  ultimately show ?case by (simp add: algebra_simps)
qed

lemma member_le_sum_list:
  "(\<And>w. w \<in> set ws \<Longrightarrow> 0 \<le> (w :: real)) \<Longrightarrow> x \<in> set ws \<Longrightarrow> x \<le> sum_list ws"
proof (induction ws)
  case Nil
  then show ?case by simp
next
  case (Cons w ws)
  have nn: "0 \<le> sum_list ws" using Cons.prems(1) by (intro sum_list_nonneg) simp
  show ?case
  proof (cases "x = w")
    case True
    with nn show ?thesis by simp
  next
    case False
    with Cons.prems have "x \<le> sum_list ws" by (intro Cons.IH) simp_all
    moreover have "0 \<le> w" using Cons.prems(1) by simp
    ultimately show ?thesis by simp
  qed
qed

lemma power_bounds:
  fixes u :: real
  assumes u: "u = 1 / 2 ^ 53" and n: "n \<le> 256"
  shows "1 - 256 * u \<le> (1 - u) ^ n" and "(1 + u) ^ n * (1 - 256 * u) \<le> 1"
proof -
  have u0: "0 \<le> u" and u1: "u \<le> 1" by (simp_all add: u)
  have "1 + of_nat n * (- u) \<le> (1 + (- u)) ^ n"
    using u1 by (intro Bernoulli_inequality) simp
  moreover have "real n * u \<le> 256 * u"
    using n u0 by (intro mult_right_mono) simp_all
  ultimately show lo: "1 - 256 * u \<le> (1 - u) ^ n" by simp
  have "(1 + u) ^ n * (1 - u) ^ n = ((1 + u) * (1 - u)) ^ n"
    by (simp add: power_mult_distrib)
  also have "\<dots> \<le> 1"
  proof (intro power_le_one)
    show "0 \<le> (1 + u) * (1 - u)" using u0 u1 by simp
    have "(1 + u) * (1 - u) = 1 - u * u" by (simp add: algebra_simps)
    then show "(1 + u) * (1 - u) \<le> 1" by simp
  qed
  finally have "(1 + u) ^ n * (1 - u) ^ n \<le> 1" .
  moreover have "(1 + u) ^ n * (1 - 256 * u) \<le> (1 + u) ^ n * (1 - u) ^ n"
    using lo u0 by (intro mult_left_mono) simp_all
  ultimately show "(1 + u) ^ n * (1 - 256 * u) \<le> 1" by simp
qed

lemma quotient_sum:
  assumes L: "L = 1 - 256 / 2 ^ 53"
    and allpos: "\<forall>w\<in>set ws. 0 < w" and ne: "ws \<noteq> []" and len: "length ws \<le> 256"
    and lo: "L * sum_list ws \<le> N" and up: "N * L \<le> sum_list ws"
  shows "\<forall>w\<in>set ws. fl (w / N) = Num (rnd (w / N))"
    and "\<bar>sum_list (map (\<lambda>w. rnd (w / N)) ws) - 1\<bar> \<le> 1 / 10 ^ 12"
proof -
  let ?S = "sum_list ws"
  have pos: "\<And>w. w \<in> set ws \<Longrightarrow> 0 < w" using allpos by simp
  define u :: real where "u = 1 / 2 ^ 53"
  define e :: real where "e = 1 / 2 ^ 1075"
  have u0: "0 \<le> u" and e0: "0 \<le> e" by (simp_all add: u_def e_def)
  have L0: "0 < L" and L1: "L \<le> 1" and Lhalf: "1 / 2 \<le> L" by (simp_all add: L)
  obtain w0 where "w0 \<in> set ws" using ne by (cases ws) auto
  then have "w0 \<le> ?S" "0 < w0"
    using pos by (auto intro: member_le_sum_list less_imp_le)
  then have S: "0 < ?S" by simp
  have "0 < L * ?S" using L0 S by simp
  with lo have N: "0 < N" by simp
  have q_lo: "L \<le> ?S / N"
    using up N by (simp add: pos_le_divide_eq mult.commute)
  have q_up: "?S / N * L \<le> 1"
  proof -
    have "?S * L \<le> N" using lo by (simp add: mult.commute)
    then show ?thesis using N by (simp add: pos_divide_le_eq)
  qed
  have q0: "0 \<le> ?S / N" using S N by simp
  have q2: "?S / N \<le> 2"
  proof -
    have "?S / N * (1 / 2) \<le> ?S / N * L"
      using Lhalf q0 by (intro mult_left_mono)
    with q_up show ?thesis by simp
  qed
  have near: "\<bar>rnd (w / N) - w / N\<bar> \<le> w / N * u + e" if "w \<in> set ws" for w
    using rnd_bound [of "w / N"] pos [OF that] N by (simp add: u_def e_def)
  show "\<forall>w\<in>set ws. fl (w / N) = Num (rnd (w / N))"
  proof
    fix w assume w: "w \<in> set ws"
    have "w \<le> ?S" using w pos by (auto intro: member_le_sum_list less_imp_le)
    then have "w / N \<le> ?S / N" using N by (simp add: divide_right_mono)
    with q2 have y2: "w / N \<le> 2" by simp
    have y0: "0 \<le> w / N" using pos [OF w] N by simp
    have "rnd (w / N) \<le> w / N + (w / N * u + e)"
      using near [OF w] by (simp add: abs_le_iff)
    also have "\<dots> \<le> 2 + (2 * u + e)"
      using y2 u0 by (intro add_mono mult_right_mono) simp_all
    also have "\<dots> < 2 ^ 1024" by (simp add: u_def e_def)
    finally have "rnd (w / N) < 2 ^ 1024" .
    moreover have "0 \<le> rnd (w / N)" using y0 by (rule rnd_nonneg)
    ultimately show "fl (w / N) = Num (rnd (w / N))" by (simp add: fl_def)
  qed
  let ?P = "sum_list (map (\<lambda>w. rnd (w / N)) ws)"
  have "\<bar>?P - sum_list (map (\<lambda>w. w / N) ws)\<bar> \<le> sum_list (map (\<lambda>w. w / N * u + e) ws)"
    by (rule sum_list_diff_bound) (rule near)
  then have d: "\<bar>?P - ?S / N\<bar> \<le> ?S / N * u + real (length ws) * e"
    by (simp only: sum_list_scaled sum_list_affine)
  have "?S / N * u \<le> 2 * u"
    using q2 u0 by (intro mult_right_mono) simp_all
  moreover have "real (length ws) * e \<le> 256 * e"
    using len e0 by (intro mult_right_mono) simp_all
  ultimately have "?S / N * u + real (length ws) * e \<le> 2 * u + 256 * e"
    by (rule add_mono)
  with d have d2: "\<bar>?P - ?S / N\<bar> \<le> 2 * u + 256 * e"
    by (rule order_trans)
  have "?S / N \<le> 1 + 2 * (1 - L)"
  proof -
    define q where "q = ?S / N"
    have "q * (1 - L) \<le> 2 * (1 - L)"
      using q2 L1 unfolding q_def by (intro mult_right_mono) simp_all
    moreover have "q * L \<le> 1" using q_up by (simp add: q_def)
    ultimately have "q \<le> 1 + 2 * (1 - L)" by (simp add: algebra_simps)
    then show ?thesis by (simp add: q_def)
  qed
  with q_lo have d3: "\<bar>?S / N - 1\<bar> \<le> 2 * (1 - L)"
    using L1 by (simp add: abs_le_iff)
  have "\<bar>?P - 1\<bar> \<le> \<bar>?P - ?S / N\<bar> + \<bar>?S / N - 1\<bar>"
    using abs_triangle_ineq [of "?P - ?S / N" "?S / N - 1"] by simp
  also have "\<dots> \<le> (2 * u + 256 * e) + 2 * (1 - L)"
    using d2 d3 by (rule add_mono)
  also have "\<dots> \<le> 1 / 10 ^ 12" by (simp add: L u_def e_def)
  finally show "\<bar>?P - 1\<bar> \<le> 1 / 10 ^ 12" .
qed

lemma isDouble_grid: "isDouble w \<Longrightarrow> grid w"
  using rnd_grid [of w] by (simp add: isDouble_def)

lemma distinct_chars_length: "distinct (cs :: string) \<Longrightarrow> length cs \<le> 256"
proof -
  assume "distinct cs"
  then have "length cs = card (set cs)" by (simp add: distinct_card)
  also have "\<dots> \<le> card (UNIV :: char set)" by (intro card_mono) simp_all
  finally show ?thesis by (simp add: card_UNIV_char)
qed

lemma weigh_distinct_result:
  assumes "distinct cs"
  shows "weigh ic sw cw ([], Num 0) cs
           = (map (\<lambda>c. (c, if ic c then cw else sw)) cs,
              foldl dadd (Num 0) (map (\<lambda>c. if ic c then cw else sw) cs))"
  using foldl_update_distinct [OF assms, of "[]" "\<lambda>c. if ic c then cw else sw"]
  by (simp add: weigh_split)

lemma InputModel_new_distinct:
  assumes "distinct cs"
  shows "InputModel_new ic cs sw cw =
     (let nrm = normOf ic cs sw cw;
          ps = map (\<lambda>c. (c, ddiv (if ic c then cw else sw) nrm)) cs
      in if list_all (\<lambda>c. isNum (ddiv (if ic c then cw else sw) nrm)) cs
         then Inr \<lparr>inputAlphabet = cs,
                   symProb = map (\<lambda>c. (c, valueOf (ddiv (if ic c then cw else sw) nrm))) cs\<rparr>
         else Inl NonFiniteProbability)"
  by (simp add: InputModel_new_def symProbOf_def normOf_def weigh_distinct_result [OF assms] Let_def
      list_all_iff comp_def)

lemma finite_entries:
  "list_all (\<lambda>(c, p). isNum p) ps
    \<Longrightarrow> map (\<lambda>(c, p). (c, Num p)) (map (\<lambda>(c, p). (c, valueOf p)) ps) = ps"
proof (induction ps)
  case Nil
  then show ?case by simp
next
  case (Cons x xs)
  obtain c p where x: "x = (c, p)" by (cases x) auto
  from Cons.prems have "isNum p" by (simp add: x)
  then have "Num (valueOf p) = p" by (cases p) simp_all
  with Cons show ?case by (simp add: x)
qed

lemma InputModel_new_map:
  assumes "InputModel_new ic cs sw cw = Inr m"
  shows "symProbOf ic cs sw cw = map (\<lambda>(c, p). (c, Num p)) (symProb m)"
proof -
  let ?ps = "symProbOf ic cs sw cw"
  from assms have all: "list_all (\<lambda>(c, p). isNum p) ?ps"
    and m: "symProb m = map (\<lambda>(c, p). (c, valueOf p)) ?ps"
    by (auto simp: InputModel_new_def Let_def split: if_splits)
  from finite_entries [OF all] m show ?thesis by simp
qed

lemma fl_small [simp]: "fl 1 = Num 1" "fl 2 = Num 2" "fl (1 / 2) = Num (1 / 2)"
  by (simp_all add: fl_def)

lemma overflow_example:
  "InputModel_new (\<lambda>c. False) ''ab'' (2 ^ 1023) 1
     = Inr \<lparr>inputAlphabet = ''ab'', symProb = [(CHR ''a'', 0), (CHR ''b'', 0)]\<rparr>"
proof -
  have "\<not> (2 ^ 1024 :: real) \<le> 2 ^ 1023" "\<not> (2 ^ 1023 :: real) \<le> - (2 ^ 1024)"
    by simp_all
  then have a: "fl (2 ^ 1023) = Num (2 ^ 1023)"
    by (simp add: fl_def rnd_big del: power_numeral)
  have b: "fl (2 * 2 ^ 1023) = PInf"
  proof -
    have "(2 * 2 ^ 1023 :: real) = 2 ^ 1024" by simp
    then show ?thesis by (simp only: fl_def rnd_big) simp
  qed
  show ?thesis
    by (simp add: InputModel_new_def symProbOf_def Let_def a b del: power_numeral)
qed

lemma isDouble_examples: "isDouble 1" "isDouble (1 / 65536)"
  by (simp_all add: isDouble_def rnd_small)


text \<open>
  C6 (as stated, refuted). The claim says that construction from the empty alphabet fails
  with \<open>EmptyAlphabet\<close>. The constructor has no such check: on the empty string both
  loops run zero times and the model with the empty map is returned.
\<close>

theorem C6_empty_alphabet_counterexample:
  "InputModel_new (\<lambda>c. False) [] 1 1 = Inr \<lparr>inputAlphabet = [], symProb = []\<rparr>
   \<and> InputModel_new (\<lambda>c. False) [] 1 1 \<noteq> Inl EmptyAlphabet"
  by (simp add: InputModel_new_def symProbOf_def)

text \<open>
  C6 (amended). For every control classifier, \<open>symWeight\<close> and \<open>controlWeight\<close>, construction
  from the empty alphabet returns normally, with the empty alphabet and the empty
  symbol-to-probability map.
\<close>

theorem C6_empty_alphabet_succeeds:
  "InputModel_new isCtl [] symWeight controlWeight
     = Inr \<lparr>inputAlphabet = [], symProb = []\<rparr>"
  by (simp add: InputModel_new_def symProbOf_def)

text \<open>
  C7 (as stated, refuted). The claim is made for every non-empty alphabet string and all
  positive weights. The norm counts a weight once per character of the string, the map
  keeps one entry per distinct character: for the string \<open>aa\<close> with weight 1 the norm
  is 2 and the only entry is \<open>a \<mapsto> 1/2\<close>, so the probabilities sum to 1/2. And the
  norm can overflow: for the string \<open>ab\<close> with weight \<open>2\<^sup>1\<^sup>0\<^sup>2\<^sup>3\<close> it is \<open>+\<infinity>\<close> and both
  probabilities are 0.
\<close>

theorem C7_sum_counterexample:
  "InputModel_new (\<lambda>c. False) ''aa'' 1 1
     = Inr \<lparr>inputAlphabet = ''aa'', symProb = [(CHR ''a'', 1 / 2)]\<rparr>
   \<and> probSum \<lparr>inputAlphabet = ''aa'', symProb = [(CHR ''a'', 1 / 2)]\<rparr> = 1 / 2
   \<and> \<not> \<bar>probSum \<lparr>inputAlphabet = ''aa'', symProb = [(CHR ''a'', 1 / 2)]\<rparr> - 1\<bar> \<le> 1 / 10 ^ 12
   \<and> InputModel_new (\<lambda>c. False) ''ab'' (2 ^ 1023) 1
     = Inr \<lparr>inputAlphabet = ''ab'', symProb = [(CHR ''a'', 0), (CHR ''b'', 0)]\<rparr>
   \<and> probSum \<lparr>inputAlphabet = ''ab'', symProb = [(CHR ''a'', 0), (CHR ''b'', 0)]\<rparr> = 0"
proof -
  have a: "InputModel_new (\<lambda>c. False) ''aa'' 1 1
     = Inr \<lparr>inputAlphabet = ''aa'', symProb = [(CHR ''a'', 1 / 2)]\<rparr>"
    by (simp add: InputModel_new_def symProbOf_def)
  have b: "probSum \<lparr>inputAlphabet = ''aa'', symProb = [(CHR ''a'', 1 / 2)]\<rparr> = 1 / 2"
    "\<not> \<bar>probSum \<lparr>inputAlphabet = ''aa'', symProb = [(CHR ''a'', 1 / 2)]\<rparr> - 1\<bar> \<le> 1 / 10 ^ 12"
    "probSum \<lparr>inputAlphabet = ''ab'', symProb = [(CHR ''a'', 0), (CHR ''b'', 0)]\<rparr> = 0"
    by (simp_all add: probSum_def)
  from a b(1,2) overflow_example b(3) show ?thesis
    by (intro conjI)
qed

text \<open>
  C7 (amended). For every non-empty alphabet string whose characters are pairwise
  distinct and all positive finite doubles \<open>symWeight\<close> and \<open>controlWeight\<close>,
  construction succeeds and the map has exactly the characters of the alphabet as
  keys. When \<^verbatim>\<open>norm\<close> has not overflowed, the probabilities of the map sum to 1 within
  \<open>10\<^sup>-\<^sup>1\<^sup>2\<close>; when it has overflowed to \<open>+\<infinity>\<close>, every probability is 0. It does not
  overflow when the number of characters times the larger weight is at most \<open>2\<^sup>1\<^sup>0\<^sup>2\<^sup>3\<close>.
\<close>

theorem C7_probabilities_sum_to_one:
  assumes ne: "inAlph \<noteq> []" and dist: "distinct inAlph"
    and dsw: "isDouble symWeight" and dcw: "isDouble controlWeight"
    and psw: "0 < symWeight" and pcw: "0 < controlWeight"
  shows "\<exists>m. InputModel_new isCtl inAlph symWeight controlWeight = Inr m
           \<and> symProbOf isCtl inAlph symWeight controlWeight = map (\<lambda>(c, p). (c, Num p)) (symProb m)
           \<and> fst ` set (symProb m) = set inAlph
           \<and> (if normOf isCtl inAlph symWeight controlWeight = PInf
              then probSum m = 0 \<and> (\<forall>p\<in>snd ` set (symProb m). p = 0)
              else \<bar>probSum m - 1\<bar> \<le> 1 / 10 ^ 12)
           \<and> (real (length inAlph) * max symWeight controlWeight \<le> 2 ^ 1023
                \<longrightarrow> normOf isCtl inAlph symWeight controlWeight \<noteq> PInf)"
proof -
  define wt where "wt = (\<lambda>c. if isCtl c then controlWeight else symWeight)"
  define ws where "ws = map wt inAlph"
  define u :: real where "u = 1 / 2 ^ 53"
  define L :: real where "L = 1 - 256 / 2 ^ 53"
  define nrm where "nrm = normOf isCtl inAlph symWeight controlWeight"
  let ?m = "\<lparr>inputAlphabet = inAlph, symProb = map (\<lambda>c. (c, valueOf (ddiv (wt c) nrm))) inAlph\<rparr>"
  have L: "L = 1 - 256 * u" and L0: "0 < L" and Lhalf: "1 / 2 < L"
    by (simp_all add: L_def u_def)
  have u: "u = 1 / 2 ^ 53" by (simp add: u_def)
  have len: "length ws \<le> 256"
    using distinct_chars_length [OF dist] by (simp add: ws_def)
  have wsne: "ws \<noteq> []" using ne by (simp add: ws_def)
  have good: "grid w \<and> 0 < w" if "w \<in> set ws" for w
    using that dsw dcw psw pcw by (auto simp: ws_def wt_def isDouble_grid)
  have S0: "0 \<le> sum_list ws"
    using good by (intro sum_list_nonneg) (auto intro: less_imp_le)
  have nrm: "nrm = foldl dadd (Num 0) ws"
    by (simp add: nrm_def normOf_def weigh_distinct_result [OF dist] ws_def wt_def)
  have new: "InputModel_new isCtl inAlph symWeight controlWeight =
       (if list_all (\<lambda>c. isNum (ddiv (wt c) nrm)) inAlph then Inr ?m else Inl NonFiniteProbability)"
    by (simp add: InputModel_new_distinct [OF dist] Let_def nrm_def wt_def)
  have keys: "fst ` set (symProb ?m) = set inAlph"
    by (force simp: image_iff)
  have pw: "1 - 256 * u \<le> (1 - u) ^ length ws" "(1 + u) ^ length ws * (1 - 256 * u) \<le> 1"
    using power_bounds [OF u len] by simp_all
  have P0: "0 \<le> (1 + u) ^ length ws" by (intro zero_le_power) (simp add: u_def)
  from norm_bound [OF u, of ws 0] good
  consider (inf) "nrm = PInf" "2 ^ 1024 \<le> (1 + u) ^ length ws * sum_list ws"
    | (fin) N where "nrm = Num N" "(1 - u) ^ length ws * sum_list ws \<le> N"
        "N \<le> (1 + u) ^ length ws * sum_list ws"
    unfolding nrm by auto
  then show ?thesis
  proof cases
    case inf
    have all: "list_all (\<lambda>c. isNum (ddiv (wt c) nrm)) inAlph"
      by (simp add: inf(1) list_all_iff)
    have m: "InputModel_new isCtl inAlph symWeight controlWeight = Inr ?m"
      using new all by simp
    have zero: "\<forall>p\<in>snd ` set (symProb ?m). p = 0"
      by (auto simp: inf(1))
    have "map snd (symProb ?m) = map (\<lambda>c. 0) inAlph" by (simp add: inf(1) comp_def)
    then have sum: "probSum ?m = 0" unfolding probSum_def by (simp only:) simp
    have big: "\<not> real (length inAlph) * max symWeight controlWeight \<le> 2 ^ 1023"
    proof
      assume a: "real (length inAlph) * max symWeight controlWeight \<le> 2 ^ 1023"
      have "sum_list ws \<le> real (length ws) * max symWeight controlWeight"
        by (rule sum_list_le_const) (auto simp: ws_def wt_def)
      with a have S: "sum_list ws \<le> 2 ^ 1023" by (simp add: ws_def)
      have "2 ^ 1024 * L \<le> (1 + u) ^ length ws * sum_list ws * L"
        using inf(2) L0 by (intro mult_right_mono) simp_all
      also have "\<dots> = ((1 + u) ^ length ws * L) * sum_list ws" by simp
      also have "\<dots> \<le> 1 * sum_list ws"
        using pw(2) S0 unfolding L by (intro mult_right_mono)
      finally have "2 ^ 1024 * L \<le> 2 ^ 1023" using S by simp
      moreover have "(2 ^ 1024 :: real) = 2 * 2 ^ 1023" by simp
      ultimately have "2 * L \<le> 1" by simp
      with Lhalf show False by simp
    qed
    show ?thesis
      using m InputModel_new_map [OF m] keys zero sum big inf(1) unfolding nrm_def [symmetric]
      by (intro exI [of _ ?m]) simp
  next
    case fin
    have lo: "L * sum_list ws \<le> N"
    proof -
      have "L * sum_list ws \<le> (1 - u) ^ length ws * sum_list ws"
        using pw(1) S0 unfolding L by (intro mult_right_mono)
      with fin(2) show ?thesis by simp
    qed
    have up: "N * L \<le> sum_list ws"
    proof -
      have "N * L \<le> (1 + u) ^ length ws * sum_list ws * L"
        using fin(3) L0 by (intro mult_right_mono) simp_all
      also have "\<dots> = ((1 + u) ^ length ws * L) * sum_list ws" by simp
      also have "\<dots> \<le> 1 * sum_list ws"
        using pw(2) S0 unfolding L by (intro mult_right_mono)
      finally show ?thesis by simp
    qed
    have pos: "\<And>w. w \<in> set ws \<Longrightarrow> 0 < w" using good by simp
    then have allpos: "\<forall>w\<in>set ws. 0 < w" by simp
    note Q = quotient_sum [OF L_def allpos wsne len lo up]
    obtain w0 where w0: "w0 \<in> set ws" using wsne by (cases ws) auto
    then have "w0 \<le> sum_list ws" "0 < w0"
      using pos by (auto intro: member_le_sum_list less_imp_le)
    then have "0 < L * sum_list ws" using L0 by simp
    with lo have N0: "N \<noteq> 0" by simp
    have dd: "ddiv (wt c) nrm = Num (rnd (wt c / N))" if "c \<in> set inAlph" for c
    proof -
      from that have "wt c \<in> set ws" by (simp add: ws_def)
      with Q(1) show ?thesis using N0 by (simp add: fin(1))
    qed
    then have all: "list_all (\<lambda>c. isNum (ddiv (wt c) nrm)) inAlph"
      by (simp add: list_all_iff)
    have m: "InputModel_new isCtl inAlph symWeight controlWeight = Inr ?m"
      using new all by simp
    have "map snd (symProb ?m) = map (\<lambda>c. rnd (wt c / N)) inAlph"
      using dd by (simp add: comp_def)
    also have "\<dots> = map (\<lambda>w. rnd (w / N)) ws" by (simp add: ws_def comp_def)
    finally have "probSum ?m = sum_list (map (\<lambda>w. rnd (w / N)) ws)"
      by (simp add: probSum_def)
    with Q(2) have tol: "\<bar>probSum ?m - 1\<bar> \<le> 1 / 10 ^ 12" by simp
    show ?thesis
      using m InputModel_new_map [OF m] keys tol fin(1) unfolding nrm_def [symmetric]
      by (intro exI [of _ ?m]) simp
  qed
qed

theorem C7_probabilities_sum_to_one_witness:
  "''01#'' \<noteq> [] \<and> distinct ''01#'' \<and> isDouble 1 \<and> isDouble (1 / 65536)
   \<and> (0 :: real) < 1 \<and> (0 :: real) < 1 / 65536
   \<and> real (length ''01#'') * max 1 (1 / 65536) \<le> 2 ^ 1023
   \<and> normOf (\<lambda>c. c = CHR ''#'') ''01#'' 1 (1 / 65536) \<noteq> PInf
   \<and> (\<exists>m. InputModel_new (\<lambda>c. c = CHR ''#'') ''01#'' 1 (1 / 65536) = Inr m
           \<and> fst ` set (symProb m) = set ''01#''
           \<and> \<bar>probSum m - 1\<bar> \<le> 1 / 10 ^ 12)"
proof -
  have h: "''01#'' \<noteq> []" "distinct ''01#''" "(0 :: real) < 1" "(0 :: real) < 1 / 65536"
    "real (length ''01#'') * max 1 (1 / 65536) \<le> 2 ^ 1023"
    by simp_all
  from C7_probabilities_sum_to_one [OF h(1,2) isDouble_examples h(3,4), of "\<lambda>c. c = CHR ''#''"]
  obtain m where m: "InputModel_new (\<lambda>c. c = CHR ''#'') ''01#'' 1 (1 / 65536) = Inr m"
    "fst ` set (symProb m) = set ''01#''"
    "symProbOf (\<lambda>c. c = CHR ''#'') ''01#'' 1 (1 / 65536) = map (\<lambda>(c, p). (c, Num p)) (symProb m)"
    "if normOf (\<lambda>c. c = CHR ''#'') ''01#'' 1 (1 / 65536) = PInf
     then probSum m = 0 \<and> (\<forall>p\<in>snd ` set (symProb m). p = 0)
     else \<bar>probSum m - 1\<bar> \<le> 1 / 10 ^ 12"
    "real (length ''01#'') * max 1 (1 / 65536) \<le> 2 ^ 1023
       \<longrightarrow> normOf (\<lambda>c. c = CHR ''#'') ''01#'' 1 (1 / 65536) \<noteq> PInf"
    by blast
  from m(5) h(5) have fin: "normOf (\<lambda>c. c = CHR ''#'') ''01#'' 1 (1 / 65536) \<noteq> PInf" by blast
  with m(4) have "\<bar>probSum m - 1\<bar> \<le> 1 / 10 ^ 12" by simp
  with m(1,2) have "\<exists>m. InputModel_new (\<lambda>c. c = CHR ''#'') ''01#'' 1 (1 / 65536) = Inr m
           \<and> fst ` set (symProb m) = set ''01#''
           \<and> \<bar>probSum m - 1\<bar> \<le> 1 / 10 ^ 12"
    by blast
  with h isDouble_examples fin show ?thesis by (intro conjI)
qed

section \<open>The decoder on concrete machines\<close>

lemma decodeRun_unfold:
  "decodeRun D machine mutatorParams tokens =
     (case InputModel_new (isControl D) (decoderInputAlphabet D machine) 1
             (rnd (1 / 4 ^ (4 * mp_maxDupLen mutatorParams))) of
        Inl e \<Rightarrow> Some (Inl e)
      | Inr inmod \<Rightarrow>
          (case MachineScores_new D machine inmod of
             Inl e \<Rightarrow> Some (Inl e)
           | Inr stateScores \<Rightarrow>
               fillAndTrace (ViterbiMatrix_members D machine mutatorParams tokens stateScores)
                 (decoderToposort D machine (inputAlphabet inmod))))"
  by (simp add: decodeRun_def ViterbiMatrix_new_def fillAndTrace_def Let_def
      split: sum.splits option.splits)

lemma ViterbiMatrix_new_unfold:
  "MachineScores_new D machine inmod = Inr stateScores \<Longrightarrow>
   map_option (map_sum id (\<lambda>(V, c). loglike V c)) (ViterbiMatrix_new D machine inmod mutatorParams tokens)
     = map_option (map_sum id (loglike (ViterbiMatrix_members D machine mutatorParams tokens stateScores)))
         (ViterbiMatrix_fill (ViterbiMatrix_members D machine mutatorParams tokens stateScores)
            (decoderToposort D machine (inputAlphabet inmod)))"
  by (simp add: ViterbiMatrix_new_def Let_def split: sum.splits option.splits)

lemma xModel_built: "InputModel_new (\<lambda>c. False) ''x'' 1 controlWeight = Inr xModel"
  by (simp add: InputModel_new_def symProbOf_def xModel_def)

lemmas build_defs = MachineScores_new_def exDecls_def nStatesOf_def addState_def addTrans_def
  scoreOf_def inputEmpty_def outputEmpty_def isEOF_def symProb_count_def symProb_at_def llog_def
  emptyStateScores_def MachineNull_def upt_rec zero_logprob_def xModel_def

lemma dupStateScores_built:
  "MachineScores_new (exDecls ''x'' [0, 2, 1] 1) dupMachine xModel = Inr dupStateScores"
  by (simp add: build_defs dupMachine_def dupStateScores_def)

lemma loopStateScores_built:
  "MachineScores_new (exDecls ''x'' [0, 1] 0) loopMachine xModel = Inr loopStateScores"
  by (simp add: build_defs loopMachine_def loopStateScores_def)

lemma lineStateScores_built:
  "MachineScores_new (exDecls ''x'' [0, 1, 2] 1) lineMachine xModel = Inr lineStateScores"
  by (simp add: build_defs lineMachine_def lineStateScores_def)

text \<open>
  C1 (the code breaks the claim). Local mode, observed sequence AA, the machine
  \<open>dupMachine\<close>: the best path ends in state 1 with a tandem duplication of A, so the
  final log-likelihood is finite (\<open>-4\<close>). The constructor's last loop writes that
  maximum into the cell \<open>S[2,2]\<close> of the accept state (the cell behind \<^verbatim>\<open>loglike()\<close>),
  whose own value was minus infinity. The traceback starts in state 1; its null
  predecessor, state 2, now ties with the true predecessor and is enumerated first, so
  the traceback moves to \<open>(2, 2, S)\<close>, where no predecessor has a finite score:
  \<^verbatim>\<open>checkBest\<close> fails, although the claim says that the assertion never fires when the
  final log-likelihood is finite.
\<close>

theorem C1_local_traceback_inconsistent:
  "map_option (map_sum id (\<lambda>(V, c). loglike V c))
     (ViterbiMatrix_new (exDecls ''x'' [0, 2, 1] 1) dupMachine xModel dupParams [0, 0])
     = Some (Inr (Fin (- 4)))
   \<and> decode (exDecls ''x'' [0, 2, 1] 1) dupMachine dupParams [0, 0]
       = Some (Inl TracebackInconsistent)"
proof -
  let ?V = "\<lparr>maxDupLen = 1, local = True, seq = [0, 0], machineScores = dupStateScores,
             mutatorScores = exScores\<rparr>"
  have ll: "map_option (map_sum id (loglike ?V)) (ViterbiMatrix_fill ?V [0, 2, 1])
              = Some (Inr (Fin (- 4)))"
    by code_simp
  have run: "fillAndTrace ?V [0, 2, 1] = Some (Inl TracebackInconsistent)"
    by code_simp
  have members: "ViterbiMatrix_members (exDecls ''x'' [0, 2, 1] 1) dupMachine dupParams [0, 0]
                   dupStateScores = ?V"
    by (simp add: ViterbiMatrix_members_def exDecls_def dupParams_def)
  have order: "decoderToposort (exDecls ''x'' [0, 2, 1] 1) dupMachine (inputAlphabet xModel)
                 = [0, 2, 1]"
    by (simp add: exDecls_def)
  have im: "InputModel_new (isControl (exDecls ''x'' [0, 2, 1] 1))
              (decoderInputAlphabet (exDecls ''x'' [0, 2, 1] 1) dupMachine) 1
              (rnd (1 / 4 ^ (4 * mp_maxDupLen dupParams))) = Inr xModel"
    using xModel_built by (simp add: exDecls_def dupParams_def)
  have "decode (exDecls ''x'' [0, 2, 1] 1) dupMachine dupParams [0, 0]
          = Some (Inl TracebackInconsistent)"
    by (simp only: decode_def decodeRun_unfold im dupStateScores_built members order run
        sum.case option.map map_sum.simps id_apply)
  moreover have "map_option (map_sum id (\<lambda>(V, c). loglike V c))
      (ViterbiMatrix_new (exDecls ''x'' [0, 2, 1] 1) dupMachine xModel dupParams [0, 0])
      = Some (Inr (Fin (- 4)))"
    by (simp only: ViterbiMatrix_new_unfold [OF dupStateScores_built] members order ll)
  ultimately show ?thesis by simp
qed

section \<open>Traceback: where it stops and what it returns\<close>

lemma tracebackLoop_stops_at_0:
  assumes "tracebackLoop V c t = Some r"
  shows "\<forall>t'. r = Inr t' \<longrightarrow> tb_state t' = 0"
  by (rule tracebackLoop.raw_induct [OF _ assms]) (auto split: if_splits sum.splits)

lemma updateBest_trace: "updateBest V c t cd = Inr t1 \<Longrightarrow> trace t1 = trace t"
  by (auto simp: updateBest_def Let_def split: prod.splits if_splits)

lemma foldE_updateBest_trace: "foldE (updateBest V c) cds t = Inr t1 \<Longrightarrow> trace t1 = trace t"
proof (induction cds arbitrary: t)
  case Nil
  then show ?case by simp
next
  case (Cons cd cds)
  then show ?case
    by (auto split: sum.splits dest: updateBest_trace)
qed

lemma checkBest_keeps:
  "checkBest c t = Inr t1 \<Longrightarrow> trace t1 = trace t \<and> bestInSym t1 = bestInSym t"
  by (auto simp: checkBest_def Let_def split: if_splits)

lemma checkBest_ok:
  "checkBest c t = Inr t1 \<Longrightarrow>
     foundBest t \<and> scoresMatch (best t) (getCell c (tb_state t) (tb_pos t) (tb_mutState t))"
  by (auto simp: checkBest_def Let_def split: if_splits)

lemma tracebackStep_trace:
  "tracebackStep V c t = Inr t1 \<Longrightarrow>
     trace t1 = (if bestInSym t1 \<noteq> CHR 0x00 then bestInSym t1 # trace t else trace t)"
  by (auto simp: tracebackStep_def initBest_def split: if_splits sum.splits
      dest!: foldE_updateBest_trace checkBest_keeps)

lemma tracebackStart_trace: "tracebackStart V c = Inr t \<Longrightarrow> trace t = []"
  by (auto simp: tracebackStart_def initBest_def split: sum.splits
      dest!: foldE_updateBest_trace checkBest_keeps)

lemma updateBest_keeps:
  "updateBest V c t cd = Inr t1 \<Longrightarrow>
     tb_state t1 = tb_state t \<and> tb_pos t1 = tb_pos t \<and> tb_mutState t1 = tb_mutState t"
  by (auto simp: updateBest_def Let_def split: prod.splits if_splits)

lemma updateBest_cases:
  assumes "updateBest V c t cd = Inr t1"
  shows "(candScore c cd \<le> best t \<and> t1 = t)
       \<or> (best t < candScore c cd \<and> best t1 = candScore c cd \<and> foundBest t1
           \<and> (bestState t1, bestPos t1, bestMutState t1, bestIts t1, bestInSym t1)
               = (case cd of (s, p, m, ts, its) \<Rightarrow> (s, p, m, its, case its of Some i \<Rightarrow> its_in i | None \<Rightarrow> MachineNull)))"
  using assms
  by (auto simp: updateBest_def candScore_def Let_def not_less split: prod.splits if_splits)

lemma foldE_updateBest_argmax:
  assumes "foldE (updateBest V c) cds t = Inr u"
  shows "best t \<le> best u \<and> (\<forall>j<length cds. candScore c (cds ! j) \<le> best u)
       \<and> (u = t
           \<or> (\<exists>i<length cds. best t < best u \<and> candScore c (cds ! i) = best u
                \<and> (\<forall>j<i. candScore c (cds ! j) < best u) \<and> foundBest u
                \<and> (bestState u, bestPos u, bestMutState u, bestIts u, bestInSym u)
                    = (case cds ! i of (s, p, m, ts, its) \<Rightarrow> (s, p, m, its, case its of Some i \<Rightarrow> its_in i | None \<Rightarrow> MachineNull))))"
  using assms
proof (induction cds arbitrary: t)
  case Nil
  then show ?case by simp
next
  case (Cons cd cds)
  from Cons.prems obtain t1 where
    up: "updateBest V c t cd = Inr t1" and rest: "foldE (updateBest V c) cds t1 = Inr u"
    by (auto split: sum.splits)
  note IH = Cons.IH [OF rest]
  from updateBest_cases [OF up] have le1: "candScore c cd \<le> best t1" and mono1: "best t \<le> best t1"
    by auto
  have all: "\<forall>j<length (cd # cds). candScore c ((cd # cds) ! j) \<le> best u"
  proof (intro allI impI)
    fix j assume "j < length (cd # cds)"
    then show "candScore c ((cd # cds) ! j) \<le> best u"
      using IH le1 by (cases j) auto
  qed
  have mono: "best t \<le> best u"
    using IH mono1 by auto
  from IH have "u = t1 \<or> (\<exists>i<length cds. best t1 < best u \<and> candScore c (cds ! i) = best u
                \<and> (\<forall>j<i. candScore c (cds ! j) < best u) \<and> foundBest u
                \<and> (bestState u, bestPos u, bestMutState u, bestIts u, bestInSym u)
                    = (case cds ! i of (s, p, m, ts, its) \<Rightarrow> (s, p, m, its, case its of Some i \<Rightarrow> its_in i | None \<Rightarrow> MachineNull)))"
    by blast
  then have "u = t
           \<or> (\<exists>i<length (cd # cds). best t < best u \<and> candScore c ((cd # cds) ! i) = best u
                \<and> (\<forall>j<i. candScore c ((cd # cds) ! j) < best u) \<and> foundBest u
                \<and> (bestState u, bestPos u, bestMutState u, bestIts u, bestInSym u)
                    = (case (cd # cds) ! i of (s, p, m, ts, its) \<Rightarrow> (s, p, m, its, case its of Some i \<Rightarrow> its_in i | None \<Rightarrow> MachineNull)))"
  proof
    assume u: "u = t1"
    from updateBest_cases [OF up] show ?thesis
    proof
      assume "candScore c cd \<le> best t \<and> t1 = t"
      with u show ?thesis by simp
    next
      assume "best t < candScore c cd \<and> best t1 = candScore c cd \<and> foundBest t1
           \<and> (bestState t1, bestPos t1, bestMutState t1, bestIts t1, bestInSym t1)
               = (case cd of (s, p, m, ts, its) \<Rightarrow> (s, p, m, its, case its of Some i \<Rightarrow> its_in i | None \<Rightarrow> MachineNull))"
      with u have "0 < length (cd # cds) \<and> best t < best u \<and> candScore c ((cd # cds) ! 0) = best u
                \<and> (\<forall>j<0. candScore c ((cd # cds) ! j) < best u) \<and> foundBest u
                \<and> (bestState u, bestPos u, bestMutState u, bestIts u, bestInSym u)
                    = (case (cd # cds) ! 0 of (s, p, m, ts, its) \<Rightarrow> (s, p, m, its, case its of Some i \<Rightarrow> its_in i | None \<Rightarrow> MachineNull))"
        by simp
      then show ?thesis by blast
    qed
  next
    assume "\<exists>i<length cds. best t1 < best u \<and> candScore c (cds ! i) = best u
                \<and> (\<forall>j<i. candScore c (cds ! j) < best u) \<and> foundBest u
                \<and> (bestState u, bestPos u, bestMutState u, bestIts u, bestInSym u)
                    = (case cds ! i of (s, p, m, ts, its) \<Rightarrow> (s, p, m, its, case its of Some i \<Rightarrow> its_in i | None \<Rightarrow> MachineNull))"
    then obtain i where i: "i < length cds" "best t1 < best u" "candScore c (cds ! i) = best u"
      "\<forall>j<i. candScore c (cds ! j) < best u" "foundBest u"
      "(bestState u, bestPos u, bestMutState u, bestIts u, bestInSym u)
         = (case cds ! i of (s, p, m, ts, its) \<Rightarrow> (s, p, m, its, case its of Some i \<Rightarrow> its_in i | None \<Rightarrow> MachineNull))"
      by blast
    have before: "\<forall>j<Suc i. candScore c ((cd # cds) ! j) < best u"
    proof (intro allI impI)
      fix j assume "j < Suc i"
      then show "candScore c ((cd # cds) ! j) < best u"
        using i(2,4) le1 by (cases j) auto
    qed
    have "Suc i < length (cd # cds) \<and> best t < best u \<and> candScore c ((cd # cds) ! Suc i) = best u
                \<and> (\<forall>j<Suc i. candScore c ((cd # cds) ! j) < best u) \<and> foundBest u
                \<and> (bestState u, bestPos u, bestMutState u, bestIts u, bestInSym u)
                    = (case (cd # cds) ! Suc i of (s, p, m, ts, its) \<Rightarrow> (s, p, m, its, case its of Some i \<Rightarrow> its_in i | None \<Rightarrow> MachineNull))"
      using i mono1 before by auto
    then show ?thesis by blast
  qed
  with all mono show ?case by blast
qed

lemma foldE_updateBest_keeps:
  "foldE (updateBest V c) cds t = Inr t1 \<Longrightarrow>
     tb_state t1 = tb_state t \<and> tb_pos t1 = tb_pos t \<and> tb_mutState t1 = tb_mutState t"
proof (induction cds arbitrary: t)
  case Nil
  then show ?case by simp
next
  case (Cons cd cds)
  then show ?case
    by (auto split: sum.splits dest: updateBest_keeps)
qed

section \<open>Traceback: results\<close>

lemma loopV_members:
  "ViterbiMatrix_members (exDecls ''x'' [0, 1] 0) loopMachine globalParams [0, 0] loopStateScores
     = loopV"
  by (simp add: ViterbiMatrix_members_def exDecls_def globalParams_def loopV_def)

lemma lineV_members:
  "ViterbiMatrix_members (exDecls ''x'' [0, 1, 2] 1) lineMachine globalParams [0] lineStateScores
     = lineV"
  by (simp add: ViterbiMatrix_members_def exDecls_def globalParams_def lineV_def)

lemma globalParams_model:
  "InputModel_new (isControl (exDecls ''x'' ord k)) (decoderInputAlphabet (exDecls ''x'' ord k) m) 1
     (rnd (1 / 4 ^ (4 * mp_maxDupLen globalParams))) = Inr xModel"
  using xModel_built by (simp add: exDecls_def globalParams_def)

lemma exDecls_order:
  "decoderToposort (exDecls a ord k) m alph = ord"
  by (simp add: exDecls_def)

lemma lineCells_filled: "ViterbiMatrix_fill lineV [0, 1, 2] = Some (Inr lineCells)"
proof -
  have "(case ViterbiMatrix_fill lineV [0, 1, 2] of Some (Inr c) \<Rightarrow> True | _ \<Rightarrow> False)"
    by code_simp
  then show ?thesis
    by (auto simp: lineCells_def split: option.splits sum.splits)
qed

lemma loopCells_filled: "ViterbiMatrix_fill loopV [0, 1] = Some (Inr loopCells)"
proof -
  have "(case ViterbiMatrix_fill loopV [0, 1] of Some (Inr c) \<Rightarrow> True | _ \<Rightarrow> False)"
    by code_simp
  then show ?thesis
    by (auto simp: loopCells_def split: option.splits sum.splits)
qed

lemma dupCells_filled: "ViterbiMatrix_fill dupV [0, 2, 1] = Some (Inr dupCells)"
proof -
  have "(case ViterbiMatrix_fill dupV [0, 2, 1] of Some (Inr c) \<Rightarrow> True | _ \<Rightarrow> False)"
    by code_simp
  then show ?thesis
    by (auto simp: dupCells_def split: option.splits sum.splits)
qed

text \<open>
  The machine \<open>loopMachine\<close>, whose start state has a loop, on AA in global mode: the
  traceback starts in \<open>(1, 2, S)\<close>, chooses the null predecessor \<open>(0, 2, S)\<close> and leaves
  the loop there, since the loop condition is \<open>state > 0\<close>.
\<close>

lemma loop_stops_at_position_2:
  "map_option (map_sum id (\<lambda>t. (tb_state t, tb_pos t)))
     (decodeRun (exDecls ''x'' [0, 1] 0) loopMachine globalParams [0, 0]) = Some (Inr (0, 2))
   \<and> decode (exDecls ''x'' [0, 1] 0) loopMachine globalParams [0, 0] = Some (Inr ''$'')"
proof -
  have run: "map_option (map_sum id (\<lambda>t. (tb_state t, tb_pos t, trace t)))
               (fillAndTrace loopV [0, 1]) = Some (Inr (0, 2, ''$''))"
    by code_simp
  have "decodeRun (exDecls ''x'' [0, 1] 0) loopMachine globalParams [0, 0]
          = fillAndTrace loopV [0, 1]"
    by (simp only: decodeRun_unfold globalParams_model loopStateScores_built loopV_members
        exDecls_order sum.case)
  moreover from run obtain t' where "fillAndTrace loopV [0, 1] = Some (Inr t')"
    "tb_state t' = 0" "tb_pos t' = 2" "trace t' = ''$''"
    by (cases "fillAndTrace loopV [0, 1]") (auto simp: map_sum_def split: sum.splits)
  ultimately show ?thesis
    by (simp add: decode_def)
qed


text \<open>
  The machine \<open>cycleMachine\<close> on AA in global mode. The fill ends with
  \<open>S[1,2] = S[2,2] = -4\<close> (state 1 is reached by a tandem duplication, state 2 from
  state 1 by the null transition). In \<open>(2, 2, S)\<close> the only finite candidate is the null
  predecessor \<open>(1, 2, S)\<close>; in \<open>(1, 2, S)\<close> the null predecessor \<open>(2, 2, S)\<close> has the
  score of the cell and is enumerated before the tandem duplication, which ties with
  it, so \<^verbatim>\<open>updateBest\<close> keeps it. Both iterations pass \<^verbatim>\<open>checkBest\<close>.
\<close>

lemma cycleStateScores_built:
  "MachineScores_new (exDecls ''x'' [0, 1, 2] 1) cycleMachine xModel = Inr cycleStateScores"
  by (simp add: build_defs cycleMachine_def cycleStateScores_def)


lemma cycleCells_filled: "ViterbiMatrix_fill cycleV [0, 1, 2] = Some (Inr cycleCells)"
proof -
  have "(case ViterbiMatrix_fill cycleV [0, 1, 2] of Some (Inr c) \<Rightarrow> True | _ \<Rightarrow> False)"
    by code_simp
  then show ?thesis
    by (auto simp: cycleCells_def split: option.splits sum.splits)
qed

lemma cycleCells_values:
  "getCell cycleCells 1 2 0 = Fin (- 4)" "getCell cycleCells 2 2 0 = Fin (- 4)"
  "getCell cycleCells 0 1 0 = NegInf"
  "getCell cycleCells 1 2 1 = NegInf" "getCell cycleCells 2 2 1 = NegInf"
  "getCell cycleCells 1 1 2 = Fin (- 4)" "getCell cycleCells 2 1 2 = Fin (- 4)"
  by code_simp+


lemmas step_defs = tracebackStep_def candidates_def candidatesS_def updateBest_def checkBest_def
  initBest_def cycleV_def cycleStateScores_def exScores_def maxDupLenAt_def tanDupBase_def
  nStates_def seqLen_def sMutStateIndex_def dMutStateIndex_def tMutStateIndex_def
  cycleCells_values cycleCells_values [unfolded One_nat_def] bot_logprob_def Let_def

lemma cycle_step_2:
  assumes "tb_state t = 2" "tb_pos t = 2" "tb_mutState t = 0"
  shows "\<exists>t'. tracebackStep cycleV cycleCells t = Inr t' \<and> tb_state t' = 1 \<and> tb_pos t' = 2
           \<and> tb_mutState t' = 0"
  using assms by (simp add: step_defs)

lemma cycle_step_1:
  assumes "tb_state t = 1" "tb_pos t = 2" "tb_mutState t = 0"
  shows "\<exists>t'. tracebackStep cycleV cycleCells t = Inr t' \<and> tb_state t' = 2 \<and> tb_pos t' = 2
           \<and> tb_mutState t' = 0"
  using assms by (simp add: step_defs)

lemma cycle_step:
  assumes "inCycle t"
  shows "\<exists>t'. tracebackStep cycleV cycleCells t = Inr t' \<and> inCycle t'"
  using assms cycle_step_1 [of t] cycle_step_2 [of t] unfolding inCycle_def by blast

lemma cycle_never_returns:
  assumes "tracebackLoop V c t = Some r"
  shows "\<not> (V = cycleV \<and> c = cycleCells \<and> inCycle t)"
proof (rule tracebackLoop.raw_induct [OF _ assms])
  fix loop V c t r
  assume IH: "\<And>V c t r. loop V c t = Some r \<Longrightarrow> \<not> (V = cycleV \<and> c = cycleCells \<and> inCycle t)"
    and eq: "(if 0 < tb_state t then case tracebackStep V c t of Inl e \<Rightarrow> Some (Inl e)
                | Inr t' \<Rightarrow> loop V c t' else Some (Inr t)) = Some r"
  show "\<not> (V = cycleV \<and> c = cycleCells \<and> inCycle t)"
  proof
    assume a: "V = cycleV \<and> c = cycleCells \<and> inCycle t"
    then obtain t' where st: "tracebackStep cycleV cycleCells t = Inr t'" and c': "inCycle t'"
      using cycle_step by blast
    from a have "0 < tb_state t" by (auto simp: inCycle_def)
    with eq a st have "loop cycleV cycleCells t' = Some r" by simp
    from IH [OF this] c' show False by simp
  qed
qed

lemma cycle_loops: "inCycle t \<Longrightarrow> tracebackLoop cycleV cycleCells t = None"
  using cycle_never_returns [of cycleV cycleCells t] by (cases "tracebackLoop cycleV cycleCells t") auto

lemma cycle_start:
  "\<exists>t. tracebackStart cycleV cycleCells = Inr t \<and> inCycle t"
proof -
  have "map_sum id (\<lambda>t. (tb_state t, tb_pos t, tb_mutState t)) (tracebackStart cycleV cycleCells)
          = Inr (2, 2, 0)"
    by code_simp
  then show ?thesis
    by (cases "tracebackStart cycleV cycleCells") (auto simp: inCycle_def)
qed

lemma cycle_run: "tracebackRun cycleV cycleCells = None"
proof -
  have ll: "loglike cycleV cycleCells = Fin (- 4)" by code_simp
  have n: "nStates cycleV = 3" by (simp add: nStates_def cycleV_def cycleStateScores_def)
  from cycle_start obtain t where "tracebackStart cycleV cycleCells = Inr t" "inCycle t" by blast
  then show ?thesis
    by (simp add: tracebackRun_def ll n bot_logprob_def cycle_loops)
qed

lemma cycleV_members:
  "ViterbiMatrix_members (exDecls ''x'' [0, 1, 2] 1) cycleMachine globalParams [0, 0] cycleStateScores
     = cycleV"
  by (simp add: ViterbiMatrix_members_def exDecls_def globalParams_def cycleV_def)

text \<open>
  C8 (the code breaks the claim). In global mode the claim has the traceback loop stop
  exactly in state 0 at position 0, and fail with \<open>TracebackInconsistent\<close> rather than
  run forever when that configuration is not reached. On \<open>cycleMachine\<close> with the
  observed sequence AA the matrix is filled, the final log-likelihood is \<open>-4\<close>, and the
  traceback alternates between \<open>(2, 2, S)\<close> and \<open>(1, 2, S)\<close> for ever: the decode never
  returns, and no assertion fires. On \<open>loopMachine\<close> with AA the loop is left in state
  0 at position 2 and the decode returns the string \<open>$\<close>, again without a failure.
\<close>

theorem C8_traceback_never_returns:
  "map_option (map_sum id (\<lambda>(V, c). loglike V c))
     (ViterbiMatrix_new (exDecls ''x'' [0, 1, 2] 1) cycleMachine xModel globalParams [0, 0])
     = Some (Inr (Fin (- 4)))
   \<and> decode (exDecls ''x'' [0, 1, 2] 1) cycleMachine globalParams [0, 0] = None
   \<and> map_option (map_sum id (\<lambda>t. (tb_state t, tb_pos t)))
       (decodeRun (exDecls ''x'' [0, 1] 0) loopMachine globalParams [0, 0]) = Some (Inr (0, 2))
   \<and> decode (exDecls ''x'' [0, 1] 0) loopMachine globalParams [0, 0] = Some (Inr ''$'')"
proof -
  have ll: "map_option (map_sum id (loglike cycleV)) (ViterbiMatrix_fill cycleV [0, 1, 2])
              = Some (Inr (Fin (- 4)))"
    by code_simp
  have "map_option (map_sum id (\<lambda>(V, c). loglike V c))
      (ViterbiMatrix_new (exDecls ''x'' [0, 1, 2] 1) cycleMachine xModel globalParams [0, 0])
      = Some (Inr (Fin (- 4)))"
    by (simp only: ViterbiMatrix_new_unfold [OF cycleStateScores_built] cycleV_members
        exDecls_order ll)
  moreover have "fillAndTrace cycleV [0, 1, 2] = None"
    by (simp only: fillAndTrace_def cycleCells_filled cycle_run option.case sum.case)
  then have "decodeRun (exDecls ''x'' [0, 1, 2] 1) cycleMachine globalParams [0, 0] = None"
    by (simp only: decodeRun_unfold globalParams_model cycleStateScores_built cycleV_members
        exDecls_order sum.case)
  then have "decode (exDecls ''x'' [0, 1, 2] 1) cycleMachine globalParams [0, 0] = None"
    by (simp add: decode_def)
  ultimately show ?thesis
    using loop_stops_at_position_2 by (intro conjI) simp_all
qed


section \<open>The string of the traceback\<close>

lemma candidates_configOf:
  "configOf t = configOf t' \<Longrightarrow> candidates V t = candidates V t'"
  by (auto simp: configOf_def candidates_def Let_def)

lemma chosenPath_unique:
  "chosenPath V c cfg p1 c1 \<Longrightarrow> chosenPath V c cfg p2 c2 \<Longrightarrow> p1 = p2 \<and> c1 = c2"
proof (induction arbitrary: p2 c2 rule: chosenPath.induct)
  case (stop cfg)
  from stop(2) stop(1) show ?case
    by (cases rule: chosenPath.cases) (auto simp: configOf_def)
next
  case (step t cds cd path cfg')
  from step.prems show ?case
  proof (cases rule: chosenPath.cases)
    case stop
    with step.hyps(1) show ?thesis by (simp add: configOf_def)
  next
    case (step t2 cds2 cd2 path2)
    from step(1) have "candidates V t2 = candidates V t"
      by (intro candidates_configOf) simp
    with step(4) step.hyps(2) have "cds2 = cds" by simp
    with step(5) step.hyps(3) have "cd2 = cd" by simp
    with step(6) step.IH [of path2 c2] step(2) show ?thesis by simp
  qed
qed

lemma chosen_first_max:
  assumes i: "i < length cds" and b: "bot < candScore c (cds ! i)"
    and mx: "\<forall>j<length cds. candScore c (cds ! j) \<le> candScore c (cds ! i)"
    and before: "\<forall>j<i. candScore c (cds ! j) < candScore c (cds ! i)"
  shows "chosen c cds = Some (cds ! i)"
proof -
  let ?P = "\<lambda>cd. bot < candScore c cd \<and> (\<forall>cd'\<in>set cds. candScore c cd' \<le> candScore c cd)"
  have all: "\<forall>cd'\<in>set cds. candScore c cd' \<le> candScore c (cds ! i)"
  proof
    fix cd' assume "cd' \<in> set cds"
    then obtain j where "j < length cds" "cds ! j = cd'" by (auto simp: in_set_conv_nth)
    with mx show "candScore c cd' \<le> candScore c (cds ! i)" by blast
  qed
  have Pi: "?P (cds ! i)" using b all by simp
  have notP: "\<not> ?P (cds ! j)" if "j < i" for j
  proof
    assume "?P (cds ! j)"
    moreover have "cds ! i \<in> set cds" using i by simp
    ultimately have "candScore c (cds ! i) \<le> candScore c (cds ! j)" by blast
    moreover have "candScore c (cds ! j) < candScore c (cds ! i)" using before that by blast
    ultimately show False by simp
  qed
  have "\<exists>k<length cds. ?P (cds ! k) \<and> cds ! i = cds ! k \<and> (\<forall>j<k. \<not> ?P (cds ! j))"
    using i Pi notP by (intro exI [of _ i]) blast
  then show ?thesis
    unfolding chosen_def by (simp only: find_Some_iff)
qed

lemma chosen_none:
  assumes "\<forall>j<length cds. candScore c (cds ! j) \<le> bot"
  shows "chosen c cds = None"
proof -
  have "\<not> bot < candScore c cd" if "cd \<in> set cds" for cd
  proof -
    from that obtain j where "j < length cds" "cds ! j = cd" by (auto simp: in_set_conv_nth)
    with assms have "candScore c cd \<le> bot" by blast
    then show ?thesis by (simp add: not_less)
  qed
  then show ?thesis
    unfolding chosen_def find_None_iff by blast
qed

lemma foldE_updateBest_chosen:
  assumes "foldE (updateBest V c) cds (initBest t) = Inr u"
  shows "(case chosen c cds of
            None \<Rightarrow> \<not> foundBest u
          | Some cd \<Rightarrow> foundBest u \<and> best u = candScore c cd
              \<and> (bestState u, bestPos u, bestMutState u) = candConfig cd
              \<and> bestInSym u = candSym cd)"
proof -
  note A = foldE_updateBest_argmax [OF assms]
  have b0: "best (initBest t) = bot" and nf: "\<not> foundBest (initBest t)"
    by (simp_all add: initBest_def)
  from A consider (same) "u = initBest t"
    | (upd) i where "i < length cds" "best (initBest t) < best u" "candScore c (cds ! i) = best u"
        "\<forall>j<i. candScore c (cds ! j) < best u" "foundBest u"
        "(bestState u, bestPos u, bestMutState u, bestIts u, bestInSym u)
           = (case cds ! i of (s, p, m, ts, its) \<Rightarrow>
                (s, p, m, its, case its of Some i \<Rightarrow> its_in i | None \<Rightarrow> MachineNull))"
    by blast
  then show ?thesis
  proof cases
    case same
    with A b0 have "\<forall>j<length cds. candScore c (cds ! j) \<le> bot" by simp
    from chosen_none [OF this] same nf show ?thesis by simp
  next
    case upd
    from A upd(3) have mx: "\<forall>j<length cds. candScore c (cds ! j) \<le> candScore c (cds ! i)"
      by simp
    have "bot < candScore c (cds ! i)" using upd(2,3) b0 by simp
    from chosen_first_max [OF upd(1) this mx] upd(3,4)
    have ch: "chosen c cds = Some (cds ! i)" by simp
    obtain s p m ts its where cd: "cds ! i = (s, p, m, ts, its)" by (cases "cds ! i") auto
    show ?thesis
      using upd(3,5,6) by (simp add: ch cd candConfig_def candSym_def)
  qed
qed

lemma tracebackStep_chosen:
  assumes "tracebackStep V c t = Inr t1"
  shows "\<exists>cds cd. candidates V t = Inr cds \<and> chosen c cds = Some cd
           \<and> configOf t1 = candConfig cd
           \<and> trace t1 = (if candSym cd \<noteq> MachineNull then candSym cd # trace t else trace t)"
proof -
  from assms obtain cds u u2 where cds: "candidates V t = Inr cds"
    and fold: "foldE (updateBest V c) cds (initBest t) = Inr u"
    and chk: "checkBest c u = Inr u2"
    and t1: "t1 = (if bestInSym u2 \<noteq> CHR 0x00 then u2\<lparr>trace := bestInSym u2 # trace u2\<rparr> else u2)"
    by (auto simp: tracebackStep_def split: if_splits sum.splits)
  from checkBest_ok [OF chk] have found: "foundBest u" by simp
  with foldE_updateBest_chosen [OF fold] obtain cd where ch: "chosen c cds = Some cd"
    and cfg: "(bestState u, bestPos u, bestMutState u) = candConfig cd"
    and sym: "bestInSym u = candSym cd"
    by (cases "chosen c cds") auto
  from chk have u2: "u2 = u\<lparr>tb_state := bestState u, tb_pos := bestPos u, tb_mutState := bestMutState u\<rparr>"
    by (auto simp: checkBest_def Let_def split: if_splits)
  have tr: "trace u = trace t"
    using foldE_updateBest_trace [OF fold] by (simp add: initBest_def)
  have "configOf t1 = candConfig cd"
    using cfg by (simp add: t1 u2 configOf_def)
  moreover have "trace t1 = (if candSym cd \<noteq> MachineNull then candSym cd # trace t else trace t)"
    using sym tr by (simp add: t1 u2 MachineNull_def)
  ultimately show ?thesis using cds ch by blast
qed

lemma tracebackLoop_chosenPath:
  assumes "tracebackLoop V c t = Some r"
  shows "\<forall>t'. r = Inr t' \<longrightarrow>
     (\<exists>path. chosenPath V c (configOf t) path (configOf t')
        \<and> trace t' = filter (\<lambda>s. s \<noteq> MachineNull) (rev (map candSym path)) @ trace t)"
proof (rule tracebackLoop.raw_induct [OF _ assms], intro allI impI)
  fix loop V c t r t'
  assume IH: "\<And>V c t r. loop V c t = Some r \<Longrightarrow> \<forall>t'. r = Inr t' \<longrightarrow>
     (\<exists>path. chosenPath V c (configOf t) path (configOf t')
        \<and> trace t' = filter (\<lambda>s. s \<noteq> MachineNull) (rev (map candSym path)) @ trace t)"
    and eq: "(if 0 < tb_state t then case tracebackStep V c t of Inl e \<Rightarrow> Some (Inl e)
                | Inr t' \<Rightarrow> loop V c t' else Some (Inr t)) = Some r"
    and r: "r = Inr t'"
  show "\<exists>path. chosenPath V c (configOf t) path (configOf t')
        \<and> trace t' = filter (\<lambda>s. s \<noteq> MachineNull) (rev (map candSym path)) @ trace t"
  proof (cases "tb_state t > 0")
    case False
    with eq r have "t' = t" by simp
    moreover have "chosenPath V c (configOf t) [] (configOf t)"
      using False by (intro chosenPath.stop) (simp add: configOf_def)
    ultimately show ?thesis by (intro exI [of _ "[]"]) simp
  next
    case True
    with eq obtain t1 where st: "tracebackStep V c t = Inr t1" and lp: "loop V c t1 = Some r"
      using r by (auto split: sum.splits)
    from IH [OF lp] r obtain path where
      p: "chosenPath V c (configOf t1) path (configOf t')"
      and tr: "trace t' = filter (\<lambda>s. s \<noteq> MachineNull) (rev (map candSym path)) @ trace t1"
      by blast
    from tracebackStep_chosen [OF st] obtain cds cd where cds: "candidates V t = Inr cds"
      and ch: "chosen c cds = Some cd" and cfg: "configOf t1 = candConfig cd"
      and tr1: "trace t1 = (if candSym cd \<noteq> MachineNull then candSym cd # trace t else trace t)"
      by blast
    have "chosenPath V c (configOf t) (cd # path) (configOf t')"
      using True cds ch p unfolding cfg by (rule chosenPath.step)
    moreover have "trace t' = filter (\<lambda>s. s \<noteq> MachineNull) (rev (map candSym (cd # path))) @ trace t"
      using tr tr1 by simp
    ultimately show ?thesis by blast
  qed
qed

lemma tracebackStart_chosen:
  assumes "tracebackStart V c = Inr t0"
  shows "\<exists>cd0. chosen c (startCandidates V) = Some cd0 \<and> configOf t0 = candConfig cd0
           \<and> trace t0 = []"
proof -
  let ?i = "\<lparr>tb_state = nStates V - 1, tb_pos = seqLen V, tb_mutState = 0,
                        best = bot, bestState = 0, bestPos = 0, bestMutState = 0,
                        bestInSym = MachineNull, bestIts = None, foundBest = False,
                        trace = []\<rparr>"
  from assms obtain u where fold: "foldE (updateBest V c) (startCandidates V) (initBest ?i) = Inr u"
    and chk: "checkBest c u = Inr t0"
    by (auto simp: tracebackStart_def split: sum.splits)
  from checkBest_ok [OF chk] have found: "foundBest u" by simp
  with foldE_updateBest_chosen [OF fold] obtain cd where ch: "chosen c (startCandidates V) = Some cd"
    and cfg: "(bestState u, bestPos u, bestMutState u) = candConfig cd"
    by (cases "chosen c (startCandidates V)") auto
  from chk have t0: "t0 = u\<lparr>tb_state := bestState u, tb_pos := bestPos u, tb_mutState := bestMutState u\<rparr>"
    by (auto simp: checkBest_def Let_def split: if_splits)
  have "configOf t0 = candConfig cd" using cfg by (simp add: t0 configOf_def)
  with ch tracebackStart_trace [OF assms] show ?thesis by blast
qed


text \<open>
  C9 (as stated, refuted). Global mode, the machine \<open>lineMachine\<close>, observed sequence A.
  The path reads \<open>x\<close> and then the end-of-input marker \<open>$\<close>; the traceback tests only
  \<^verbatim>\<open>if (bestInSym)\<close>, which drops the null symbol and nothing else, so the marker is in
  the returned string.
\<close>

theorem C9_eof_in_string_counterexample:
  "decode (exDecls ''x'' [0, 1, 2] 1) lineMachine globalParams [0] = Some (Inr ''x$'')
   \<and> MachineEOF (exDecls ''x'' [0, 1, 2] 1) \<in> set ''x$''"
proof -
  have run: "map_option (map_sum id trace) (fillAndTrace lineV [0, 1, 2]) = Some (Inr ''x$'')"
    by code_simp
  have "decodeRun (exDecls ''x'' [0, 1, 2] 1) lineMachine globalParams [0]
          = fillAndTrace lineV [0, 1, 2]"
    by (simp only: decodeRun_unfold globalParams_model lineStateScores_built lineV_members
        exDecls_order sum.case)
  with run show ?thesis
    by (simp add: decode_def exDecls_def)
qed

text \<open>
  C9 (amended). For every successful decode, the string returned by the traceback
  consists, in path order, of exactly those input symbols of the chosen predecessors
  that are not the null symbol: the traceback starts from the chosen one of the start
  candidates and follows the one path of chosen predecessors to a configuration in
  state 0; the string lists the input symbols that these predecessors carry, the last
  chosen first, without the null symbols. A symbol that is the end-of-input marker is
  kept. (When there is no decoding the string is empty.)
\<close>

theorem C9_traceback_string:
  assumes "traceback V c = Some (Inr str)"
  shows "MachineNull \<notin> set str
       \<and> (if loglike V c > bot
          then \<exists>cd0 path cfg'. chosen c (startCandidates V) = Some cd0
                 \<and> chosenPath V c (candConfig cd0) path cfg'
                 \<and> (\<forall>path2 cfg2. chosenPath V c (candConfig cd0) path2 cfg2 \<longrightarrow> path2 = path)
                 \<and> str = filter (\<lambda>s. s \<noteq> MachineNull) (rev (map candSym path))
          else str = [])"
proof (cases "loglike V c > bot")
  case False
  with assms have "str = []"
    by (auto simp: traceback_def tracebackRun_def split: if_splits)
  with False show ?thesis by simp
next
  case True
  from assms obtain t' where run: "tracebackRun V c = Some (Inr t')" and str: "str = trace t'"
    by (cases "tracebackRun V c") (auto simp: traceback_def map_sum_def split: sum.splits)
  from run True obtain t0 where st: "tracebackStart V c = Inr t0"
    and lp: "tracebackLoop V c t0 = Some (Inr t')"
    by (auto simp: tracebackRun_def split: if_splits sum.splits)
  from tracebackStart_chosen [OF st] obtain cd0 where ch: "chosen c (startCandidates V) = Some cd0"
    and cfg: "configOf t0 = candConfig cd0" and tr0: "trace t0 = []"
    by blast
  from tracebackLoop_chosenPath [OF lp] obtain path where
    p: "chosenPath V c (candConfig cd0) path (configOf t')"
    and tr: "trace t' = filter (\<lambda>s. s \<noteq> MachineNull) (rev (map candSym path)) @ trace t0"
    unfolding cfg by blast
  have eq: "str = filter (\<lambda>s. s \<noteq> MachineNull) (rev (map candSym path))"
    using str tr tr0 by simp
  then have "MachineNull \<notin> set str" by simp
  moreover have "\<forall>path2 cfg2. chosenPath V c (candConfig cd0) path2 cfg2 \<longrightarrow> path2 = path"
    using chosenPath_unique [OF p] by blast
  ultimately have "MachineNull \<notin> set str
    \<and> (\<exists>cd0 path cfg'. chosen c (startCandidates V) = Some cd0
                 \<and> chosenPath V c (candConfig cd0) path cfg'
                 \<and> (\<forall>path2 cfg2. chosenPath V c (candConfig cd0) path2 cfg2 \<longrightarrow> path2 = path)
                 \<and> str = filter (\<lambda>s. s \<noteq> MachineNull) (rev (map candSym path)))"
    using ch p eq by blast
  with True show ?thesis by (simp only: if_True simp_thms)
qed

theorem C9_traceback_string_witness:
  "traceback lineV lineCells = Some (Inr ''x$'')
   \<and> loglike lineV lineCells > bot
   \<and> MachineNull \<notin> set ''x$''
   \<and> (\<exists>cd0 path cfg'. chosen lineCells (startCandidates lineV) = Some cd0
         \<and> chosenPath lineV lineCells (candConfig cd0) path cfg'
         \<and> ''x$'' = filter (\<lambda>s. s \<noteq> MachineNull) (rev (map candSym path)))"
proof -
  have run: "traceback lineV lineCells = Some (Inr ''x$'')"
    by code_simp
  have fin: "loglike lineV lineCells > bot"
    by code_simp
  from C9_traceback_string [OF run] fin
  have null: "MachineNull \<notin> set ''x$''"
    and "\<exists>cd0 path cfg'. chosen lineCells (startCandidates lineV) = Some cd0
         \<and> chosenPath lineV lineCells (candConfig cd0) path cfg'
         \<and> (\<forall>path2 cfg2. chosenPath lineV lineCells (candConfig cd0) path2 cfg2 \<longrightarrow> path2 = path)
         \<and> ''x$'' = filter (\<lambda>s. s \<noteq> MachineNull) (rev (map candSym path))"
    by (simp_all only: if_True simp_thms)
  then have "\<exists>cd0 path cfg'. chosen lineCells (startCandidates lineV) = Some cd0
         \<and> chosenPath lineV lineCells (candConfig cd0) path cfg'
         \<and> ''x$'' = filter (\<lambda>s. s \<noteq> MachineNull) (rev (map candSym path))"
    by blast
  with run fin null show ?thesis by (intro conjI)
qed

section \<open>Two runs: the fill\<close>

lemma sameInput_members:
  assumes "sameInput V V'"
  shows "nStates V' = nStates V" and "seqLen V' = seqLen V" and "maxDupLen V' = maxDupLen V"
    and "local V' = local V" and "seq V' = seq V" and "mutatorScores V' = mutatorScores V"
    and "loglike V' = loglike V"
    and "\<And>s. s < nStates V \<Longrightarrow> sameStateScores (machineScores V ! s) (machineScores V' ! s)"
proof -
  from assms have l: "list_all2 sameStateScores (machineScores V) (machineScores V')"
    and m: "maxDupLen V = maxDupLen V'" "local V = local V'" "seq V = seq V'"
      "mutatorScores V = mutatorScores V'"
    by (simp_all add: sameInput_def)
  from l show n: "nStates V' = nStates V"
    by (simp add: nStates_def list_all2_lengthD)
  from m show s: "seqLen V' = seqLen V" and "maxDupLen V' = maxDupLen V" and "local V' = local V"
    and "seq V' = seq V" and "mutatorScores V' = mutatorScores V"
    by (simp_all add: seqLen_def)
  from n s show "loglike V' = loglike V"
    by (simp add: loglike_def fun_eq_iff)
  fix s assume "s < nStates V"
  with l show "sameStateScores (machineScores V ! s) (machineScores V' ! s)"
    by (simp add: nStates_def list_all2_nthD)
qed

lemma sameTransition_sym: "sameTransition a b \<Longrightarrow> sameTransition b a"
  by (simp add: sameTransition_def)

lemma sameStateScores_sym: "sameStateScores a b \<Longrightarrow> sameStateScores b a"
  unfolding sameStateScores_def
  by (auto simp: list_all2_conv_all_nth sameTransition_sym)

lemma sameInput_sym: "sameInput V V' \<Longrightarrow> sameInput V' V"
  unfolding sameInput_def
  by (auto simp: list_all2_conv_all_nth sameStateScores_sym)

lemma foldE_list_all2:
  assumes "list_all2 R xs ys" and "\<And>x y s. R x y \<Longrightarrow> f s x = g s y"
  shows "foldE f xs s = foldE g ys s"
  using assms(1)
proof (induction arbitrary: s rule: list_all2_induct)
  case Nil
  show ?case by simp
next
  case (Cons x xs y ys)
  from assms(2) [OF Cons.hyps(1)] have "f s x = g s y" .
  with Cons.IH show ?case by (simp split: sum.splits)
qed

lemma sameInput_fill_parts:
  fixes V V' :: "('v::{linorder,plus,zero,bot}) ViterbiMatrix"
  assumes "sameInput V V'"
  shows "fillEmit V' = fillEmit V" and "fillDup V' = fillDup V"
    and "relaxEmit V' = relaxEmit V" and "relaxNull V' = relaxNull V"
    and "seedDup V' = seedDup V"
    and "\<And>a b. sameTransition a b \<Longrightarrow> fillNull V pos s c a = fillNull V' pos s c b"
  using sameInput_members [OF assms]
  by (auto simp: fun_eq_iff fillEmit_def fillDup_def relaxEmit_def relaxNull_def seedDup_def
      fillNull_def sameTransition_def)

lemma sameStateScores_dup:
  assumes "sameInput V V'" and "sameStateScores ss ss'"
  shows "maxDupLenAt V' ss' = maxDupLenAt V ss" and "tanDupBase ss' = tanDupBase ss"
  using assms sameInput_members(3) [OF assms(1)]
  by (auto simp: maxDupLenAt_def tanDupBase_def sameStateScores_def fun_eq_iff)

lemma sameInput_fillState:
  fixes V V' :: "('v::{linorder,plus,zero,bot}) ViterbiMatrix"
  assumes si: "sameInput V V'"
  shows "fillState V' pos c s = fillState V pos c s"
proof (cases "s < nStates V")
  case False
  then show ?thesis
    using sameInput_members(1) [OF si] by (simp add: fillState_def)
next
  case True
  let ?ss = "machineScores V ! s" and ?ss' = "machineScores V' ! s"
  have ss: "sameStateScores ?ss ?ss'" using si True by (rule sameInput_members(8))
  note P = sameInput_fill_parts [OF si]
  note D = sameStateScores_dup [OF si ss]
  have emit: "incomingEmit ?ss' = incomingEmit ?ss" and lc: "leftContext ?ss' = leftContext ?ss"
    using ss by (simp_all add: sameStateScores_def)
  have null: "foldE (fillNull V' pos s) (incomingNull ?ss') c1 = foldE (fillNull V pos s) (incomingNull ?ss) c1"
    for c1
  proof (rule sym, rule foldE_list_all2)
    show "list_all2 sameTransition (incomingNull ?ss) (incomingNull ?ss')"
      using ss by (simp add: sameStateScores_def)
  next
    fix a b :: "'v IncomingTransScore" and c2 :: "'v cells" assume "sameTransition a b"
    then show "fillNull V pos s c2 a = fillNull V' pos s c2 b" by (rule P(6))
  qed
  have m: "nStates V' = nStates V" "seq V' = seq V" "mutatorScores V' = mutatorScores V"
    using sameInput_members [OF si] by simp_all
  have dup: "fillDup V ?ss' = fillDup V ?ss"
    by (simp add: fun_eq_iff fillDup_def D)
  show ?thesis
    unfolding fillState_def Let_def
    by (simp only: m P(1,2) D emit null dup)
qed

lemma closureStep_sameInput:
  fixes V V' :: "('v::{linorder,plus,zero,bot}) ViterbiMatrix"
  assumes si: "sameInput V V'"
  shows "closureStep V' pos cl = closureStep V pos cl"
proof -
  obtain c ps os where cl: "cl = (c, ps, os)" by (cases cl) auto
  note P = sameInput_fill_parts [OF si]
  have m: "nStates V' = nStates V" "mutatorScores V' = mutatorScores V"
    using sameInput_members [OF si] by simp_all
  show ?thesis
  proof (cases "last ps < nStates V")
    case False
    then show ?thesis by (simp add: cl closureStep_def m Let_def)
  next
    case True
    from sameInput_members(8) [OF si True]
    have "outgoingEmit (machineScores V' ! last ps) = outgoingEmit (machineScores V ! last ps)"
      "outgoingNull (machineScores V' ! last ps) = outgoingNull (machineScores V ! last ps)"
      by (simp_all add: sameStateScores_def)
    then show ?thesis
      unfolding cl closureStep_def Let_def prod.case
      by (simp only: m P(3,4))
  qed
qed

lemma closureLoop_transfer:
  fixes V' :: "('v::{linorder,plus,zero,bot}) ViterbiMatrix"
  assumes "closureLoop V pos cl = Some r"
  shows "(\<forall>pos cl. closureStep V' pos cl = closureStep V pos cl) \<longrightarrow> closureLoop V' pos cl = Some r"
proof (rule closureLoop.raw_induct [OF _ assms], intro impI)
  fix loop :: "'v ViterbiMatrix \<Rightarrow> nat \<Rightarrow> 'v closure \<Rightarrow> (error + 'v cells) option"
    and V :: "'v ViterbiMatrix" and pos cl r
  assume IH: "\<And>V pos cl r. loop V pos cl = Some r \<Longrightarrow>
        (\<forall>pos cl. closureStep V' pos cl = closureStep V pos cl) \<longrightarrow> closureLoop V' pos cl = Some r"
    and eq: "(if fst (snd cl) = [] then Some (Inr (fst cl))
              else case closureStep V pos cl of Inl e \<Rightarrow> Some (Inl e) | Inr cl' \<Rightarrow> loop V pos cl')
             = Some r"
    and same: "\<forall>pos cl. closureStep V' pos cl = closureStep V pos cl"
  from same have s: "closureStep V' pos cl = closureStep V pos cl" by blast
  show "closureLoop V' pos cl = Some r"
  proof (cases "fst (snd cl) = []")
    case True
    with eq show ?thesis by (subst closureLoop.simps) simp
  next
    case False
    show ?thesis
    proof (cases "closureStep V pos cl")
      case (Inl e)
      with eq False show ?thesis by (subst closureLoop.simps) (simp add: s)
    next
      case (Inr cl')
      with eq False have "loop V pos cl' = Some r" by simp
      from IH [OF this] same have "closureLoop V' pos cl' = Some r" by blast
      with Inr False show ?thesis by (subst closureLoop.simps) (simp add: s)
    qed
  qed
qed

lemma closureLoop_sameInput:
  fixes V V' :: "('v::{linorder,plus,zero,bot}) ViterbiMatrix"
  assumes si: "sameInput V V'"
  shows "closureLoop V' pos cl = closureLoop V pos cl"
proof (cases "closureLoop V pos cl")
  case (Some r)
  from closureLoop_transfer [OF Some, of V'] closureStep_sameInput [OF si] Some
  show ?thesis by simp
next
  case None
  show ?thesis
  proof (cases "closureLoop V' pos cl")
    case (Some r)
    from closureLoop_transfer [OF Some, of V] closureStep_sameInput [OF si] None
    show ?thesis by simp
  next
    case N: None
    with None show ?thesis by simp
  qed
qed

lemma sameInput_fillColumn:
  fixes V V' :: "('v::{linorder,plus,zero,bot}) ViterbiMatrix"
  assumes si: "sameInput V V'"
  shows "fillColumn V' stateOrder c pos = fillColumn V stateOrder c pos"
proof -
  have n: "nStates V' = nStates V" using sameInput_members(1) [OF si] .
  have fs: "fillState V' pos = fillState V pos"
    using sameInput_fillState [OF si] by (simp add: fun_eq_iff)
  have cl: "closure V' stateOrder pos = closure V stateOrder pos"
    by (simp add: fun_eq_iff closure_def closureLoop_sameInput [OF si] n)
  have sd: "seedDup V' = seedDup V" using sameInput_fill_parts(5) [OF si] .
  have ss: "seedState V' pos c2 s = seedState V pos c2 s" if "s < nStates V" for c2 s
    using sameStateScores_dup(1) [OF si sameInput_members(8) [OF si that]]
    by (simp add: seedState_def sd)
  have F: "foldl (seedState V' pos) c2 xs = foldl (seedState V pos) c2 xs"
    if "set xs \<subseteq> {..<nStates V}" for c2 xs
    using that by (induction xs arbitrary: c2) (simp_all add: ss)
  have sc: "seedColumn V' pos = seedColumn V pos"
  proof (rule ext)
    fix c2
    have "foldl (seedState V' pos) c2 [0 ..< nStates V] = foldl (seedState V pos) c2 [0 ..< nStates V]"
      by (rule F) auto
    then show "seedColumn V' pos c2 = seedColumn V pos c2"
      by (simp only: seedColumn_def n)
  qed
  show ?thesis
    by (simp only: fillColumn_def fs cl sc)
qed

lemma sameInput_fill:
  fixes V V' :: "('v::{linorder,plus,zero,bot}) ViterbiMatrix"
  assumes si: "sameInput V V'"
  shows "ViterbiMatrix_fill V' stateOrder = ViterbiMatrix_fill V stateOrder"
proof -
  note m = sameInput_members [OF si]
  have cols: "fillColumns V' stateOrder ps c = fillColumns V stateOrder ps c" for ps c
    by (induction ps arbitrary: c)
      (simp_all add: sameInput_fillColumn [OF si] cong: option.case_cong sum.case_cong)
  have init: "initCells V' = initCells V"
    by (simp add: initCells_def m)
  have fin: "finalLoglike V' = finalLoglike V"
    by (simp add: finalLoglike_def fun_eq_iff m)
  show ?thesis
    by (simp only: ViterbiMatrix_fill_def cols init fin m)
qed

section \<open>Two runs: the traceback\<close>

lemma rel_sumD:
  "rel_sum (=) Q x y \<Longrightarrow> (\<exists>e. x = Inl e \<and> y = Inl e) \<or> (\<exists>a b. x = Inr a \<and> y = Inr b \<and> Q a b)"
  by (cases x; cases y) auto

lemma sameTransition_refl [simp]: "sameTransition a a"
  by (simp add: sameTransition_def)

lemma sameCand_refl [simp]: "sameCand cd cd"
  by (cases cd) (simp add: sameCand_def option.rel_refl)

lemma sameStateScores_refl [simp]: "sameStateScores a a"
  by (simp add: sameStateScores_def list_all2_refl)

lemma sameInput_refl [simp]: "sameInput V V"
  by (simp add: sameInput_def list_all2_refl)

lemma sameVisible_sym: "sameVisible t t' \<Longrightarrow> sameVisible t' t"
  by (simp add: sameVisible_def)

lemma foldE_rel:
  assumes "list_all2 R xs ys" and "Q s t"
    and "\<And>x y s t. R x y \<Longrightarrow> Q s t \<Longrightarrow> rel_sum (=) Q (f s x) (g t y)"
  shows "rel_sum (=) Q (foldE f xs s) (foldE g ys t)"
  using assms(1,2)
proof (induction arbitrary: s t rule: list_all2_induct)
  case Nil
  then show ?case by simp
next
  case (Cons x xs y ys)
  from rel_sumD [OF assms(3) [OF Cons.hyps(1) Cons.prems]] show ?case
  proof
    assume "\<exists>e. f s x = Inl e \<and> g t y = Inl e"
    then show ?thesis by auto
  next
    assume "\<exists>a b. f s x = Inr a \<and> g t y = Inr b \<and> Q a b"
    then obtain a b where "f s x = Inr a" "g t y = Inr b" "Q a b" by blast
    with Cons.IH [of a b] show ?thesis by simp
  qed
qed

lemma null_cands_same:
  assumes "list_all2 sameTransition xs ys"
  shows "list_all2 sameCand (map (\<lambda>its. (its_src its, p, m, its_score its, Some its)) xs)
           (map (\<lambda>its. (its_src its, p, m, its_score its, Some its)) ys)"
  unfolding list.rel_map
  by (rule list_all2_mono [OF assms]) (simp add: sameCand_def sameTransition_def)

lemma candidates_sameInput:
  assumes si: "sameInput V V'" and cfg: "configOf t = configOf t'" and st: "tb_state t < nStates V"
  shows "rel_sum (=) (list_all2 sameCand) (candidates V t) (candidates V' t')"
proof -
  let ?ss = "machineScores V ! tb_state t" and ?ss' = "machineScores V' ! tb_state t"
  from cfg have t': "tb_state t' = tb_state t" "tb_pos t' = tb_pos t" "tb_mutState t' = tb_mutState t"
    by (simp_all add: configOf_def)
  note m = sameInput_members [OF si]
  have ss: "sameStateScores ?ss ?ss'" using st by (rule m(8))
  note D = sameStateScores_dup [OF si ss]
  from ss have emit: "incomingEmit ?ss' = incomingEmit ?ss"
    and null: "list_all2 sameTransition (incomingNull ?ss) (incomingNull ?ss')"
    by (simp_all add: sameStateScores_def)
  have S: "list_all2 sameCand (candidatesS V ?ss (tb_state t) (tb_pos t))
             (candidatesS V' ?ss' (tb_state t) (tb_pos t))"
    unfolding candidatesS_def m D emit
    by (intro list_all2_appendI null_cands_same [OF null] list_all2_refl) simp_all
  have Dl: "list_all2 sameCand (candidatesD V ?ss (tb_state t) (tb_pos t))
             (candidatesD V' ?ss' (tb_state t) (tb_pos t))"
    unfolding candidatesD_def m D emit
    by (intro list_all2_appendI null_cands_same [OF null] list_all2_refl) simp_all
  have T: "candidatesT V' ?ss' (tb_state t) (tb_pos t) (tb_mutState t)
            = candidatesT V ?ss (tb_state t) (tb_pos t) (tb_mutState t)"
    by (simp add: candidatesT_def m D Let_def)
  have isT: "isTMutStateIndex V' (tb_mutState t) = isTMutStateIndex V (tb_mutState t)"
    by (simp add: isTMutStateIndex_def m)
  have Tl: "rel_sum (=) (list_all2 sameCand)
              (candidatesT V ?ss (tb_state t) (tb_pos t) (tb_mutState t))
              (candidatesT V ?ss (tb_state t) (tb_pos t) (tb_mutState t))"
    by (cases "candidatesT V ?ss (tb_state t) (tb_pos t) (tb_mutState t)")
      (simp_all add: list_all2_refl)
  show ?thesis
    unfolding candidates_def Let_def t' T isT
    using S Dl Tl by simp
qed

lemma updateBest_same:
  assumes n: "nStates V' = nStates V" and b: "sameBest u u'" and cd: "sameCand cd cd'"
  shows "rel_sum (=) sameBest (updateBest V c u cd) (updateBest V' c u' cd')"
proof -
  obtain s p m ts its where a: "cd = (s, p, m, ts, its)" by (cases cd) auto
  obtain its' where a': "cd' = (s, p, m, ts, its')" and r: "rel_option sameTransition its its'"
    using cd a by (cases cd') (auto simp: sameCand_def)
  have sym: "(case its of Some i \<Rightarrow> its_in i | None \<Rightarrow> MachineNull)
           = (case its' of Some i \<Rightarrow> its_in i | None \<Rightarrow> MachineNull)"
    using r by (cases its; cases its') (simp_all add: sameTransition_def)
  from b have "best u' = best u" by (simp add: sameBest_def)
  with b sym show ?thesis
    by (simp add: a a' updateBest_def n Let_def sameBest_def configOf_def)
qed

lemma foldE_updateBest_same:
  assumes "nStates V' = nStates V" and "sameBest u u'" and "list_all2 sameCand cds cds'"
  shows "rel_sum (=) sameBest (foldE (updateBest V c) cds u) (foldE (updateBest V' c) cds' u')"
  using assms(3,2)
proof (rule foldE_rel)
  fix x y s t assume "sameCand x y" "sameBest s t"
  with assms(1) show "rel_sum (=) sameBest (updateBest V c s x) (updateBest V' c t y)"
    by (intro updateBest_same)
qed

lemma checkBest_same:
  assumes "sameBest u u'"
  shows "rel_sum (=) (\<lambda>t t'. sameVisible t t' \<and> bestInSym t = bestInSym t')
           (checkBest c u) (checkBest c u')"
  using assms
  by (auto simp: checkBest_def Let_def sameBest_def sameVisible_def configOf_def)

lemma initBest_same: "sameVisible t t' \<Longrightarrow> sameBest (initBest t) (initBest t')"
  by (simp add: sameBest_def sameVisible_def initBest_def configOf_def)

lemma tracebackStep_same:
  assumes si: "sameInput V V'" and sv: "sameVisible t t'"
  shows "rel_sum (=) sameVisible (tracebackStep V c t) (tracebackStep V' c t')"
proof -
  note m = sameInput_members [OF si]
  from sv have cfg: "configOf t = configOf t'" and t': "tb_state t' = tb_state t" "tb_pos t' = tb_pos t"
    by (simp_all add: sameVisible_def configOf_def)
  show ?thesis
  proof (cases "tb_state t < nStates V \<and> tb_pos t \<le> seqLen V")
    case False
    then have "tracebackStep V c t = Inl OutOfRange" "tracebackStep V' c t' = Inl OutOfRange"
      by (auto simp: tracebackStep_def t' m)
    then show ?thesis by simp
  next
    case True
    then have st: "tb_state t < nStates V" by simp
    from rel_sumD [OF candidates_sameInput [OF si cfg st]] show ?thesis
    proof
      assume "\<exists>e. candidates V t = Inl e \<and> candidates V' t' = Inl e"
      with True show ?thesis by (auto simp: tracebackStep_def t' m)
    next
      assume "\<exists>a b. candidates V t = Inr a \<and> candidates V' t' = Inr b \<and> list_all2 sameCand a b"
      then obtain cds cds' where c1: "candidates V t = Inr cds" "candidates V' t' = Inr cds'"
        and l: "list_all2 sameCand cds cds'"
        by blast
      from rel_sumD [OF foldE_updateBest_same [OF m(1) initBest_same [OF sv] l, of c]]
      show ?thesis
      proof
        assume "\<exists>e. foldE (updateBest V c) cds (initBest t) = Inl e
                  \<and> foldE (updateBest V' c) cds' (initBest t') = Inl e"
        with True c1 show ?thesis by (auto simp: tracebackStep_def t' m)
      next
        assume "\<exists>a b. foldE (updateBest V c) cds (initBest t) = Inr a
                  \<and> foldE (updateBest V' c) cds' (initBest t') = Inr b \<and> sameBest a b"
        then obtain u u' where f: "foldE (updateBest V c) cds (initBest t) = Inr u"
          "foldE (updateBest V' c) cds' (initBest t') = Inr u'" and b: "sameBest u u'"
          by blast
        from rel_sumD [OF checkBest_same [OF b, of c]] show ?thesis
        proof
          assume "\<exists>e. checkBest c u = Inl e \<and> checkBest c u' = Inl e"
          with True c1 f show ?thesis by (auto simp: tracebackStep_def t' m)
        next
          assume "\<exists>a b. checkBest c u = Inr a \<and> checkBest c u' = Inr b
                    \<and> (sameVisible a b \<and> bestInSym a = bestInSym b)"
          then obtain w w' where k: "checkBest c u = Inr w" "checkBest c u' = Inr w'"
            and v: "sameVisible w w'" "bestInSym w = bestInSym w'"
            by blast
          with True c1 f show ?thesis
            by (simp add: tracebackStep_def t' m sameVisible_def configOf_def)
        qed
      qed
    qed
  qed
qed

lemma tracebackLoop_transfer:
  assumes "tracebackLoop V c t = Some r"
  shows "sameInput V V' \<longrightarrow> (\<forall>t'. sameVisible t t' \<longrightarrow>
           (\<exists>r'. tracebackLoop V' c t' = Some r' \<and> rel_sum (=) sameVisible r r'))"
proof (rule tracebackLoop.raw_induct [OF _ assms], intro impI allI)
  fix loop V c t r t'
  assume IH: "\<And>V c t r. loop V c t = Some r \<Longrightarrow> sameInput V V' \<longrightarrow> (\<forall>t'. sameVisible t t' \<longrightarrow>
           (\<exists>r'. tracebackLoop V' c t' = Some r' \<and> rel_sum (=) sameVisible r r'))"
    and eq: "(if 0 < tb_state t then case tracebackStep V c t of Inl e \<Rightarrow> Some (Inl e)
                | Inr t' \<Rightarrow> loop V c t' else Some (Inr t)) = Some r"
    and si: "sameInput V V'" and sv: "sameVisible t t'"
  from sv have st: "tb_state t' = tb_state t" by (simp add: sameVisible_def configOf_def)
  show "\<exists>r'. tracebackLoop V' c t' = Some r' \<and> rel_sum (=) sameVisible r r'"
  proof (cases "0 < tb_state t")
    case False
    with eq have "r = Inr t" by simp
    moreover from False st have "tracebackLoop V' c t' = Some (Inr t')"
      by (subst tracebackLoop.simps) simp
    ultimately show ?thesis using sv by simp
  next
    case True
    from rel_sumD [OF tracebackStep_same [OF si sv, of c]] show ?thesis
    proof
      assume "\<exists>e. tracebackStep V c t = Inl e \<and> tracebackStep V' c t' = Inl e"
      then obtain e where e: "tracebackStep V c t = Inl e" "tracebackStep V' c t' = Inl e" by blast
      with eq True have "r = Inl e" by simp
      moreover from e True st have "tracebackLoop V' c t' = Some (Inl e)"
        by (subst tracebackLoop.simps) simp
      ultimately show ?thesis by simp
    next
      assume "\<exists>a b. tracebackStep V c t = Inr a \<and> tracebackStep V' c t' = Inr b \<and> sameVisible a b"
      then obtain t1 t1' where s: "tracebackStep V c t = Inr t1" "tracebackStep V' c t' = Inr t1'"
        and v: "sameVisible t1 t1'"
        by blast
      with eq True have "loop V c t1 = Some r" by simp
      from IH [OF this] si v obtain r' where r': "tracebackLoop V' c t1' = Some r'"
        "rel_sum (=) sameVisible r r'"
        by blast
      from s(2) True st r'(1) have "tracebackLoop V' c t' = Some r'"
        by (subst tracebackLoop.simps) simp
      with r'(2) show ?thesis by blast
    qed
  qed
qed

lemma rel_sum_trace:
  "rel_sum (=) sameVisible r r' \<Longrightarrow> map_sum id trace r = map_sum id trace r'"
  by (cases r; cases r') (simp_all add: sameVisible_def)

lemma tracebackLoop_same:
  assumes si: "sameInput V V'" and sv: "sameVisible t t'"
  shows "map_option (map_sum id trace) (tracebackLoop V c t)
       = map_option (map_sum id trace) (tracebackLoop V' c t')"
proof (cases "tracebackLoop V c t")
  case (Some r)
  from tracebackLoop_transfer [OF Some, of V'] si sv obtain r' where
    "tracebackLoop V' c t' = Some r'" "rel_sum (=) sameVisible r r'"
    by blast
  with Some show ?thesis by (simp add: rel_sum_trace)
next
  case None
  show ?thesis
  proof (cases "tracebackLoop V' c t'")
    case (Some r')
    from tracebackLoop_transfer [OF Some, of V] sameInput_sym [OF si] sameVisible_sym [OF sv]
    obtain r where "tracebackLoop V c t = Some r" by blast
    with None show ?thesis by simp
  next
    case N: None
    with None show ?thesis by simp
  qed
qed

lemma tracebackRunFrom_same:
  assumes si: "sameInput V V'"
  shows "map_option (map_sum id trace) (tracebackRunFrom V c u)
       = map_option (map_sum id trace) (tracebackRunFrom V' c u')"
proof -
  note m = sameInput_members [OF si]
  let ?t0 = "u\<lparr>tb_state := nStates V - 1, tb_pos := seqLen V, tb_mutState := 0, trace := []\<rparr>"
  let ?t0' = "u'\<lparr>tb_state := nStates V - 1, tb_pos := seqLen V, tb_mutState := 0, trace := []\<rparr>"
  have sv0: "sameVisible ?t0 ?t0'" by (simp add: sameVisible_def configOf_def)
  have sc: "startCandidates V' = startCandidates V" by (simp add: startCandidates_def m)
  show ?thesis
  proof (cases "nStates V = 0 \<or> \<not> loglike V c > bot")
    case True
    then show ?thesis by (auto simp: tracebackRunFrom_def m Let_def)
  next
    case False
    have "list_all2 sameCand (startCandidates V) (startCandidates V)"
      by (rule list_all2_refl) simp
    from rel_sumD [OF foldE_updateBest_same [OF m(1) initBest_same [OF sv0] this, of c]]
    show ?thesis
    proof
      assume "\<exists>e. foldE (updateBest V c) (startCandidates V) (initBest ?t0) = Inl e
                \<and> foldE (updateBest V' c) (startCandidates V) (initBest ?t0') = Inl e"
      with False show ?thesis by (auto simp: tracebackRunFrom_def m sc Let_def)
    next
      assume "\<exists>a b. foldE (updateBest V c) (startCandidates V) (initBest ?t0) = Inr a
                \<and> foldE (updateBest V' c) (startCandidates V) (initBest ?t0') = Inr b \<and> sameBest a b"
      then obtain w w' where f: "foldE (updateBest V c) (startCandidates V) (initBest ?t0) = Inr w"
        "foldE (updateBest V' c) (startCandidates V) (initBest ?t0') = Inr w'" and b: "sameBest w w'"
        by blast
      from rel_sumD [OF checkBest_same [OF b, of c]] show ?thesis
      proof
        assume "\<exists>e. checkBest c w = Inl e \<and> checkBest c w' = Inl e"
        with False f show ?thesis by (auto simp: tracebackRunFrom_def m sc Let_def)
      next
        assume "\<exists>a b. checkBest c w = Inr a \<and> checkBest c w' = Inr b
                  \<and> (sameVisible a b \<and> bestInSym a = bestInSym b)"
        then obtain t1 t1' where k: "checkBest c w = Inr t1" "checkBest c w' = Inr t1'"
          and v: "sameVisible t1 t1'"
          by blast
        from False f k tracebackLoop_same [OF si v, of c] show ?thesis
          by (simp add: tracebackRunFrom_def m sc Let_def)
      qed
    qed
  qed
qed

lemma tracebackRun_from:
  "tracebackRun V c = tracebackRunFrom V c
     \<lparr>tb_state = 0, tb_pos = 0, tb_mutState = 0, best = bot, bestState = 0, bestPos = 0,
      bestMutState = 0, bestInSym = MachineNull, bestIts = None, foundBest = False, trace = []\<rparr>"
  by (simp add: tracebackRun_def tracebackRunFrom_def tracebackStart_def Let_def
      split: sum.splits)

lemma traceback_from:
  "traceback V c = map_option (map_sum id trace) (tracebackRunFrom V c u)"
  unfolding traceback_def tracebackRun_from
  by (rule tracebackRunFrom_same) simp


subsection \<open>Runs of the decoder with given contents of the uninitialised memory\<close>

lemma garble_length [simp]: "length (garble g ms) = length ms"
  by (simp add: garble_def)

lemma garble_nth:
  "s < length ms \<Longrightarrow> garble g ms ! s
     = (ms ! s)\<lparr>incomingNull := map (\<lambda>(k, its). its\<lparr>its_base := g s k\<rparr>)
                                   (enumerate 0 (incomingNull (ms ! s)))\<rparr>"
  by (simp add: garble_def nth_enumerate_eq)

lemma garbled_null_same:
  "list_all2 sameTransition (map (\<lambda>(k, its). its\<lparr>its_base := f k\<rparr>) (enumerate n xs))
     (map (\<lambda>(k, its). its\<lparr>its_base := h k\<rparr>) (enumerate n xs))"
  by (induction xs arbitrary: n) (simp_all add: sameTransition_def)

lemma garble_same: "list_all2 sameStateScores (garble g ms) (garble h ms)"
  unfolding list_all2_conv_all_nth
  by (simp add: garble_nth sameStateScores_def garbled_null_same)

lemma garbled_null_same_orig:
  "list_all2 sameTransition xs (map (\<lambda>(k, its). its\<lparr>its_base := h k\<rparr>) (enumerate n xs))"
  by (induction xs arbitrary: n) (simp_all add: sameTransition_def)

lemma garble_same_orig: "list_all2 sameStateScores ms (garble h ms)"
  unfolding list_all2_conv_all_nth
  by (simp add: garble_nth sameStateScores_def garbled_null_same_orig)

lemma members_sameInput:
  "list_all2 sameStateScores ms ms'
    \<Longrightarrow> sameInput (ViterbiMatrix_members D machine mp tokens ms)
          (ViterbiMatrix_members D machine mp tokens ms')"
  by (simp add: sameInput_def ViterbiMatrix_members_def)

lemma fill_trace_same:
  assumes si: "sameInput V V'"
  shows "(case ViterbiMatrix_fill V stateOrder of None \<Rightarrow> None | Some (Inl e) \<Rightarrow> Some (Inl e)
          | Some (Inr c) \<Rightarrow> map_option (map_sum id (\<lambda>t. (loglike V c, trace t)))
                             (tracebackRunFrom V c u))
       = (case ViterbiMatrix_fill V' stateOrder of None \<Rightarrow> None | Some (Inl e) \<Rightarrow> Some (Inl e)
          | Some (Inr c) \<Rightarrow> map_option (map_sum id (\<lambda>t. (loglike V' c, trace t)))
                             (tracebackRunFrom V' c u'))"
proof -
  have f: "ViterbiMatrix_fill V' stateOrder = ViterbiMatrix_fill V stateOrder"
    using si by (rule sameInput_fill)
  have l: "loglike V' = loglike V" using si by (rule sameInput_members(7))
  have t: "map_option (map_sum id (\<lambda>t. (x, trace t))) (tracebackRunFrom V c u)
         = map_option (map_sum id (\<lambda>t. (x, trace t))) (tracebackRunFrom V' c u')" for c x
  proof -
    have "map_option (map_sum id (\<lambda>t. (x, trace t))) r
            = map_option (map_sum id (Pair x)) (map_option (map_sum id trace) r)" for r :: "(error + tb) option"
      by (cases r) (auto simp: map_sum_def split: sum.splits)
    then show ?thesis
      using tracebackRunFrom_same [OF si, of c u u'] by simp
  qed
  show ?thesis
    unfolding f l by (simp add: t split: option.splits sum.splits)
qed

lemma decodeWith_same:
  "decodeWith g u D machine mp tokens = decodeWith g' u' D machine mp tokens"
proof -
  have "sameInput (ViterbiMatrix_members D machine mp tokens (garble g ms))
          (ViterbiMatrix_members D machine mp tokens (garble g' ms))" for ms
    by (intro members_sameInput garble_same)
  from fill_trace_same [OF this] show ?thesis
    unfolding decodeWith_def Let_def
    by (simp split: sum.splits)
qed

lemma decodeWith_decode:
  "map_option (map_sum id snd) (decodeWith g u D machine mp tokens) = decode D machine mp tokens"
proof -
  let ?z = "\<lparr>tb_state = 0, tb_pos = 0, tb_mutState = 0, best = bot, bestState = 0, bestPos = 0,
      bestMutState = 0, bestInSym = MachineNull, bestIts = None, foundBest = False, trace = []\<rparr>"
  have si: "sameInput (ViterbiMatrix_members D machine mp tokens (garble g ms))
          (ViterbiMatrix_members D machine mp tokens ms)" for ms
    by (intro sameInput_sym [OF members_sameInput] garble_same_orig)
  have snd: "map_option (map_sum id snd) (map_option (map_sum id (\<lambda>t. (x, trace t))) r)
           = map_option (map_sum id trace) r" for x and r :: "(error + tb) option"
    by (cases r) (auto simp: map_sum_def split: sum.splits)
  have "map_option (map_sum id snd)
          (case ViterbiMatrix_fill V stateOrder of None \<Rightarrow> None | Some (Inl e) \<Rightarrow> Some (Inl e)
           | Some (Inr c) \<Rightarrow> map_option (map_sum id (\<lambda>t. (loglike V c, trace t)))
                              (tracebackRunFrom V c u))
      = map_option (map_sum id trace) (fillAndTrace V' stateOrder)"
    if "sameInput V V'" for V V' stateOrder
    unfolding fill_trace_same [OF that, where stateOrder = stateOrder and u = u and u' = "?z"]
    by (simp add: fillAndTrace_def tracebackRun_from snd split: option.splits sum.splits)
  from this [OF si] show ?thesis
    unfolding decodeWith_def decode_def decodeRun_unfold Let_def
    by (simp split: sum.splits)
qed

section \<open>Determinism and the choice among equal scores\<close>

lemma lineV2_same: "sameInput lineV lineV2"
  by (simp add: sameInput_def lineV2_def lineV_def lineStateScores_def sameStateScores_def
      sameTransition_def)

lemma lineV2_differs: "machineScores lineV2 \<noteq> machineScores lineV"
  by (simp add: lineV2_def lineV_def lineStateScores_def)

text \<open>
  C10. Decoding is deterministic. Two runs on the same input can differ only in what
  the source leaves uninitialised: the \<^verbatim>\<open>base\<close> of the incoming null transitions and the
  local variables of the traceback. Whatever these hold in the two runs (\<open>g\<close>, \<open>u\<close> and
  \<open>g'\<close>, \<open>u'\<close>), the two runs of the decoder on a machine, parameters and observed
  sequence have the same outcome: the same final log-likelihood with the same decoded
  string, or the same error, or neither returns; and the string is that of \<open>decode\<close>.
  More generally, for two matrices \<open>V\<close> and \<open>V'\<close> that agree on everything but the
  uninitialised \<^verbatim>\<open>base\<close> fields: the two fills are equal, so the final log-likelihood is
  the same, and the two tracebacks return the same string. Among the
  candidates of one iteration \<^verbatim>\<open>updateBest\<close> keeps the first one of maximal score: the
  chosen candidate has the maximal score and every candidate enumerated before it has
  a strictly smaller one.
\<close>

theorem C10_decoding_deterministic:
  assumes si: "sameInput V V'"
  shows "decodeWith g' u' D machine mutatorParams tokens
           = decodeWith g u D machine mutatorParams tokens
       \<and> map_option (map_sum id snd) (decodeWith g u D machine mutatorParams tokens)
           = decode D machine mutatorParams tokens
       \<and> ViterbiMatrix_fill V' stateOrder = ViterbiMatrix_fill V stateOrder
       \<and> loglike V' = loglike V
       \<and> map_option (map_sum id trace) (tracebackRunFrom V' c u')
           = map_option (map_sum id trace) (tracebackRunFrom V c u)
       \<and> traceback V c = map_option (map_sum id trace) (tracebackRunFrom V c u)
       \<and> (foldE (updateBest V c) cds (initBest t) = Inr w \<and> foundBest w
           \<longrightarrow> (\<exists>i<length cds. candScore c (cds ! i) = best w
                  \<and> (bestState w, bestPos w, bestMutState w) = candConfig (cds ! i)
                  \<and> bestInSym w = candSym (cds ! i)
                  \<and> (\<forall>j<length cds. candScore c (cds ! j) \<le> best w)
                  \<and> (\<forall>j<i. candScore c (cds ! j) < best w)))"
proof (intro conjI impI)
  show "decodeWith g' u' D machine mutatorParams tokens
           = decodeWith g u D machine mutatorParams tokens"
    by (rule decodeWith_same)
  show "map_option (map_sum id snd) (decodeWith g u D machine mutatorParams tokens)
           = decode D machine mutatorParams tokens"
    by (rule decodeWith_decode)
  show "ViterbiMatrix_fill V' stateOrder = ViterbiMatrix_fill V stateOrder"
    using si by (rule sameInput_fill)
  show "loglike V' = loglike V"
    using si by (rule sameInput_members(7))
  show "map_option (map_sum id trace) (tracebackRunFrom V' c u')
           = map_option (map_sum id trace) (tracebackRunFrom V c u)"
    using tracebackRunFrom_same [OF si, of c u u'] by simp
  show "traceback V c = map_option (map_sum id trace) (tracebackRunFrom V c u)"
    by (rule traceback_from)
next
  assume a: "foldE (updateBest V c) cds (initBest t) = Inr w \<and> foundBest w"
  then have fold: "foldE (updateBest V c) cds (initBest t) = Inr w" and found: "foundBest w"
    by simp_all
  from found have "w \<noteq> initBest t"
    by (auto simp: initBest_def)
  with foldE_updateBest_argmax [OF fold] obtain i where i: "i < length cds"
    "candScore c (cds ! i) = best w" "\<forall>j<i. candScore c (cds ! j) < best w"
    "(bestState w, bestPos w, bestMutState w, bestIts w, bestInSym w)
       = (case cds ! i of (s, p, m, ts, its) \<Rightarrow>
            (s, p, m, its, case its of Some i \<Rightarrow> its_in i | None \<Rightarrow> MachineNull))"
    and all: "\<forall>j<length cds. candScore c (cds ! j) \<le> best w"
    by blast
  obtain s p m ts its where cd: "cds ! i = (s, p, m, ts, its)" by (cases "cds ! i") auto
  from i(4) have "(bestState w, bestPos w, bestMutState w) = candConfig (cds ! i)"
    "bestInSym w = candSym (cds ! i)"
    by (simp_all add: cd candConfig_def candSym_def)
  with i(1,2,3) all
  show "\<exists>i<length cds. candScore c (cds ! i) = best w
                  \<and> (bestState w, bestPos w, bestMutState w) = candConfig (cds ! i)
                  \<and> bestInSym w = candSym (cds ! i)
                  \<and> (\<forall>j<length cds. candScore c (cds ! j) \<le> best w)
                  \<and> (\<forall>j<i. candScore c (cds ! j) < best w)"
    by blast
qed

theorem C10_decoding_deterministic_witness:
  "sameInput lineV lineV2
   \<and> decodeWith (\<lambda>s k. 3) otherLocals (exDecls ''x'' [0, 1] 0) loopMachine globalParams [0, 0]
       = decodeWith (\<lambda>s k. 0) (tbAt 0 0 0) (exDecls ''x'' [0, 1] 0) loopMachine globalParams [0, 0]
   \<and> map_option (map_sum id snd)
         (decodeWith (\<lambda>s k. 3) otherLocals (exDecls ''x'' [0, 1] 0) loopMachine globalParams [0, 0])
       = Some (Inr ''$'')
   \<and> machineScores lineV2 \<noteq> machineScores lineV
   \<and> ViterbiMatrix_fill lineV2 [0, 1, 2] = Some (Inr lineCells)
   \<and> loglike lineV2 lineCells = Fin (- 1)
   \<and> map_option (map_sum id trace) (tracebackRunFrom lineV2 lineCells otherLocals) = Some (Inr ''x$'')
   \<and> traceback lineV lineCells = Some (Inr ''x$'')
   \<and> (\<exists>w. foldE (updateBest lineV (\<lambda>i. Fin 0))
              [(0, 0, 0, Fin 0, None), (1, 0, 0, Fin 0, None)] (initBest (tbAt 2 0 0)) = Inr w
         \<and> foundBest w
         \<and> (\<exists>i<length [(0, 0, 0, Fin 0, None), (1 :: nat, 0 :: nat, 0 :: nat, Fin (0 :: real),
                            None :: real logprob IncomingTransScore option)].
               bestState w = 0 \<and> i = 0 \<and> best w = Fin 0))"
proof -
  let ?cds = "[(0, 0, 0, Fin 0, None), (1 :: nat, 0 :: nat, 0 :: nat, Fin (0 :: real),
                None :: real logprob IncomingTransScore option)]"
  have ll: "loglike lineV lineCells = Fin (- 1)"
    by code_simp
  have tr: "traceback lineV lineCells = Some (Inr ''x$'')"
    by code_simp
  note A = C10_decoding_deterministic [OF lineV2_same, where stateOrder = "[0, 1, 2]"
      and c = lineCells and u = "tbAt 0 0 0" and u' = otherLocals and cds = ?cds
      and t = "tbAt 2 0 0"]
  note R = C10_decoding_deterministic [OF lineV2_same, where g = "\<lambda>s k. 0" and u = "tbAt 0 0 0"
      and g' = "\<lambda>s k. 3" and u' = otherLocals and D = "exDecls ''x'' [0, 1] 0"
      and machine = loopMachine and mutatorParams = globalParams and tokens = "[0, 0]"]
  note R' = C10_decoding_deterministic [OF lineV2_same, where g = "\<lambda>s k. 3" and u = otherLocals
      and D = "exDecls ''x'' [0, 1] 0"
      and machine = loopMachine and mutatorParams = globalParams and tokens = "[0, 0]"]
  from R have runs: "decodeWith (\<lambda>s k. 3) otherLocals (exDecls ''x'' [0, 1] 0) loopMachine globalParams [0, 0]
       = decodeWith (\<lambda>s k. 0) (tbAt 0 0 0) (exDecls ''x'' [0, 1] 0) loopMachine globalParams [0, 0]"
    by blast
  from R' loop_stops_at_position_2 have str: "map_option (map_sum id snd)
         (decodeWith (\<lambda>s k. 3) otherLocals (exDecls ''x'' [0, 1] 0) loopMachine globalParams [0, 0])
       = Some (Inr ''$'')"
    by simp
  from A lineCells_filled have fill: "ViterbiMatrix_fill lineV2 [0, 1, 2] = Some (Inr lineCells)"
    by simp
  from A ll have ll2: "loglike lineV2 lineCells = Fin (- 1)"
    by simp
  from A tr have run: "map_option (map_sum id trace) (tracebackRunFrom lineV2 lineCells otherLocals)
      = Some (Inr ''x$'')"
    by simp
  have "map_sum id (\<lambda>u. (foundBest u, bestState u, best u))
          (foldE (updateBest lineV (\<lambda>i. Fin 0)) ?cds (initBest (tbAt 2 0 0)))
          = Inr (True, 0, Fin 0)"
    by code_simp
  then obtain w where fold: "foldE (updateBest lineV (\<lambda>i. Fin 0)) ?cds (initBest (tbAt 2 0 0)) = Inr w"
    and found: "foundBest w" and bs: "bestState w = 0" and b: "best w = Fin 0"
    by (cases "foldE (updateBest lineV (\<lambda>i. Fin 0)) ?cds (initBest (tbAt 2 0 0))")
       (auto simp: map_sum_def split: sum.splits)
  note B = C10_decoding_deterministic [OF lineV2_same, where c = "\<lambda>i. Fin 0" and cds = ?cds
      and t = "tbAt 2 0 0" and w = w and stateOrder = "[0, 1, 2]" and u = "tbAt 0 0 0"
      and u' = otherLocals]
  from B fold found obtain i where i: "i < length ?cds"
    and before: "\<forall>j<i. candScore (\<lambda>i. Fin 0) (?cds ! j) < best w"
    by blast
  have "i = 0"
  proof (rule ccontr)
    assume "i \<noteq> 0"
    with before have "candScore (\<lambda>i. Fin 0) (?cds ! 0) < best w" by blast
    with b show False by (simp add: candScore_def getCell_def)
  qed
  with i bs b have "\<exists>i<length ?cds. bestState w = 0 \<and> i = 0 \<and> best w = Fin 0"
    by blast
  with fold found have part2: "\<exists>w. foldE (updateBest lineV (\<lambda>i. Fin 0)) ?cds (initBest (tbAt 2 0 0)) = Inr w
         \<and> foundBest w \<and> (\<exists>i<length ?cds. bestState w = 0 \<and> i = 0 \<and> best w = Fin 0)"
    by blast
  from lineV2_same runs str lineV2_differs fill ll2 run tr part2 show ?thesis
    by (intro conjI)
qed

section \<open>MachineScores: what the constructor records\<close>

lemma scoreOf_spec: "scoreOf D im t = specScore D im t"
  by (auto simp: scoreOf_def specScore_def inputEmpty_def isEOF_def symProb_count_def
      symProb_at_def map_of_eq_None_iff)

lemma addTrans_length: "addTrans D im s st t = Inr st' \<Longrightarrow> length st' = length st"
  by (auto simp: addTrans_def Let_def split: option.splits if_splits)

lemma addTrans_step:
  assumes "addTrans D im s st t = Inr st'" and "s < length st" and "d < length st"
  shows "leftContext (st' ! d) = leftContext (st ! d)
       \<and> incomingEmit (st' ! d) = incomingEmit (st ! d) @ inOf D im True s d [t]
       \<and> incomingNull (st' ! d) = incomingNull (st ! d) @ inOf D im False s d [t]
       \<and> outgoingEmit (st' ! d) = outgoingEmit (st ! d) @ (if d = s then outOf D im True [t] else [])
       \<and> outgoingNull (st' ! d) = outgoingNull (st ! d) @ (if d = s then outOf D im False [t] else [])"
  using assms
  by (auto simp: addTrans_def scoreOf_spec Let_def inOf_def outOf_def kept_def mkIts_def mkOts_def
      nth_list_update split: option.splits if_splits)

lemma inOf_Cons: "inOf D im emit s d (t # ts) = inOf D im emit s d [t] @ inOf D im emit s d ts"
  by (simp add: inOf_def)

lemma outOf_Cons: "outOf D im emit (t # ts) = outOf D im emit [t] @ outOf D im emit ts"
  by (simp add: outOf_def)

lemma addTrans_fold:
  assumes "foldE (addTrans D im s) ts st = Inr st'" and "s < length st" and "d < length st"
  shows "length st' = length st
       \<and> leftContext (st' ! d) = leftContext (st ! d)
       \<and> incomingEmit (st' ! d) = incomingEmit (st ! d) @ inOf D im True s d ts
       \<and> incomingNull (st' ! d) = incomingNull (st ! d) @ inOf D im False s d ts
       \<and> outgoingEmit (st' ! d) = outgoingEmit (st ! d) @ (if d = s then outOf D im True ts else [])
       \<and> outgoingNull (st' ! d) = outgoingNull (st ! d) @ (if d = s then outOf D im False ts else [])"
  using assms
proof (induction ts arbitrary: st)
  case Nil
  then show ?case by (simp add: inOf_def outOf_def)
next
  case (Cons t ts)
  from Cons.prems(1) obtain st1 where
    one: "addTrans D im s st t = Inr st1" and rest: "foldE (addTrans D im s) ts st1 = Inr st'"
    by (auto split: sum.splits)
  have len: "length st1 = length st"
    using addTrans_length [OF one] .
  note step = addTrans_step [OF one Cons.prems(2,3)]
  note IH = Cons.IH [OF rest, unfolded len, OF Cons.prems(2,3)]
  show ?case
    using step IH
    by (simp add: inOf_Cons [of D im _ s d t ts] outOf_Cons [of D im _ t ts])
qed

lemma addState_step:
  assumes "addState D im machine st s = Inr st'" and "s < length st" and "d < length st"
  shows "length st' = length st
       \<and> leftContext (st' ! d) = leftContext (st ! d)
            @ (if d = s then contextBases D (m_leftContext (m_state machine ! s)) else [])
       \<and> incomingEmit (st' ! d) = incomingEmit (st ! d)
            @ inOf D im True s d (m_trans (m_state machine ! s))
       \<and> incomingNull (st' ! d) = incomingNull (st ! d)
            @ inOf D im False s d (m_trans (m_state machine ! s))
       \<and> outgoingEmit (st' ! d) = outgoingEmit (st ! d)
            @ (if d = s then outOf D im True (m_trans (m_state machine ! s)) else [])
       \<and> outgoingNull (st' ! d) = outgoingNull (st ! d)
            @ (if d = s then outOf D im False (m_trans (m_state machine ! s)) else [])"
proof -
  let ?st0 = "st[s := (st ! s)\<lparr>leftContext := leftContext (st ! s)
                  @ contextBases D (m_leftContext (m_state machine ! s))\<rparr>]"
  have fold: "foldE (addTrans D im s) (m_trans (m_state machine ! s)) ?st0 = Inr st'"
    using assms(1) by (simp add: addState_def Let_def contextBases_def)
  have "s < length ?st0" and "d < length ?st0"
    using assms(2,3) by simp_all
  from addTrans_fold [OF fold this] assms(2,3) show ?thesis
    by (auto simp: nth_list_update)
qed

lemma addState_fold:
  assumes "foldE (addState D im machine) xs st = Inr st'" and "\<forall>s\<in>set xs. s < length st"
    and "d < length st"
  shows "length st' = length st
       \<and> leftContext (st' ! d) = leftContext (st ! d)
            @ concat (map (\<lambda>s. if d = s then contextBases D (m_leftContext (m_state machine ! s)) else []) xs)
       \<and> incomingEmit (st' ! d) = incomingEmit (st ! d)
            @ concat (map (\<lambda>s. inOf D im True s d (m_trans (m_state machine ! s))) xs)
       \<and> incomingNull (st' ! d) = incomingNull (st ! d)
            @ concat (map (\<lambda>s. inOf D im False s d (m_trans (m_state machine ! s))) xs)
       \<and> outgoingEmit (st' ! d) = outgoingEmit (st ! d)
            @ concat (map (\<lambda>s. if d = s then outOf D im True (m_trans (m_state machine ! s)) else []) xs)
       \<and> outgoingNull (st' ! d) = outgoingNull (st ! d)
            @ concat (map (\<lambda>s. if d = s then outOf D im False (m_trans (m_state machine ! s)) else []) xs)"
  using assms
proof (induction xs arbitrary: st)
  case Nil
  then show ?case by simp
next
  case (Cons s xs)
  from Cons.prems(1) obtain st1 where
    one: "addState D im machine st s = Inr st1"
    and rest: "foldE (addState D im machine) xs st1 = Inr st'"
    by (auto split: sum.splits)
  have s: "s < length st" using Cons.prems(2) by simp
  note step = addState_step [OF one s Cons.prems(3)]
  then have len: "length st1 = length st" by simp
  have "\<forall>s\<in>set xs. s < length st1" and "d < length st1"
    using Cons.prems(2,3) len by simp_all
  from Cons.IH [OF rest this] step show ?case
    by simp
qed

lemma concat_map_at:
  "d < n \<Longrightarrow> concat (map (\<lambda>s. if d = s then f s else []) [0 ..< n]) = f d"
  by (induction n) (auto simp: less_Suc_eq)

lemma concat_map_none:
  "n \<le> d \<Longrightarrow> concat (map (\<lambda>s. if d = s then f s else []) [0 ..< n]) = []"
  by (induction n) auto

lemma specScore_cases:
  "specScore D im t =
     (if symProb_count im (t_in t) then Some (llog (symProb_at im (t_in t)))
      else if inputEmpty t \<or> isEOF D t then Some 0 else None)"
  by (auto simp: specScore_def inputEmpty_def isEOF_def symProb_count_def symProb_at_def
      map_of_eq_None_iff)

text \<open>
  C5 (as stated, refuted). The claim gives a transition on the end-of-input marker the
  log-score 0. Line 41 tests membership in the input model first: with the marker in the
  model (the decoder's alphabet includes it) at probability 1/2, the transition of
  \<open>lineMachine\<close> on the marker is recorded with log-score \<open>log (1/2)\<close>, which is not 0.
\<close>

theorem C5_eof_score_counterexample:
  "InputModel_new (\<lambda>c. False) ''x$'' 1 (1 / 4 ^ 8) = Inr eofModel
   \<and> map_sum id (\<lambda>st. map (\<lambda>i. (its_src i, its_in i, its_score i)) (incomingNull (st ! 2)))
        (MachineScores_new (exDecls ''x$'' [0, 1, 2] 1) lineMachine eofModel)
      = Inr [(1, MachineEOF (exDecls ''x$'' [0, 1, 2] 1), llog (1 / 2))]
   \<and> llog (1 / 2) \<noteq> 0"
proof -
  have "InputModel_new (\<lambda>c. False) ''x$'' 1 (1 / 4 ^ 8) = Inr eofModel"
    by (simp add: InputModel_new_def symProbOf_def eofModel_def)
  moreover have "map_sum id (\<lambda>st. map (\<lambda>i. (its_src i, its_in i, its_score i)) (incomingNull (st ! 2)))
        (MachineScores_new (exDecls ''x$'' [0, 1, 2] 1) lineMachine eofModel)
      = Inr [(1, MachineEOF (exDecls ''x$'' [0, 1, 2] 1), llog (1 / 2))]"
    by (simp add: MachineScores_new_def exDecls_def nStatesOf_def addState_def addTrans_def
        scoreOf_def inputEmpty_def outputEmpty_def isEOF_def symProb_count_def symProb_at_def
        emptyStateScores_def MachineNull_def upt_rec eofModel_def lineMachine_def)
  moreover have "llog (1 / 2) \<noteq> 0"
    by (simp add: llog_def zero_logprob_def)
  ultimately show ?thesis by (intro conjI)
qed

text \<open>
  C5 (amended). For every machine and input model, \<open>MachineScores\<close> records each
  transition whose input symbol is a key of the input model with the log-score
  \<open>log (symProb[in])\<close>, also when that symbol is the end-of-input marker or the null
  symbol; it records a transition whose input symbol is not in the model and is the null
  symbol or the end-of-input marker with the log-score 0; it drops every other
  transition. The recorded transitions of a state are its outgoing entries, in the
  order of its transitions, in the emit list when the transition has an output symbol
  and in the null list when it has none; the incoming entries of a state are the
  recorded transitions into it, by source state and then in the order of the source's
  transitions, with the same score.
\<close>

theorem C5_machine_scores_recorded:
  assumes "MachineScores_new D machine inputModel = Inr st" and "d < nStatesOf machine"
  shows "length st = nStatesOf machine
       \<and> leftContext (st ! d) = contextBases D (m_leftContext (m_state machine ! d))
       \<and> outgoingEmit (st ! d) = outOf D inputModel True (m_trans (m_state machine ! d))
       \<and> outgoingNull (st ! d) = outOf D inputModel False (m_trans (m_state machine ! d))
       \<and> incomingEmit (st ! d)
           = concat (map (\<lambda>s. inOf D inputModel True s d (m_trans (m_state machine ! s)))
               [0 ..< nStatesOf machine])
       \<and> incomingNull (st ! d)
           = concat (map (\<lambda>s. inOf D inputModel False s d (m_trans (m_state machine ! s)))
               [0 ..< nStatesOf machine])"
proof -
  let ?n = "nStatesOf machine"
  have fold: "foldE (addState D inputModel machine) [0 ..< ?n] (replicate ?n emptyStateScores) = Inr st"
    using assms(1) by (auto simp: MachineScores_new_def split: if_splits)
  have "\<forall>s\<in>set [0 ..< ?n]. s < length (replicate ?n emptyStateScores)"
    and "d < length (replicate ?n emptyStateScores)"
    using assms(2) by simp_all
  from addState_fold [OF fold this] assms(2) show ?thesis
    by (simp add: emptyStateScores_def concat_map_at)
qed

theorem C5_machine_scores_recorded_witness:
  "MachineScores_new (exDecls ''x'' [0, 1, 2] 1) lineMachine xModel = Inr lineStateScores
   \<and> (1 :: nat) < nStatesOf lineMachine
   \<and> length lineStateScores = nStatesOf lineMachine
   \<and> outgoingNull (lineStateScores ! 1)
       = outOf (exDecls ''x'' [0, 1, 2] 1) xModel False (m_trans (m_state lineMachine ! 1))
   \<and> incomingEmit (lineStateScores ! 1)
       = concat (map (\<lambda>s. inOf (exDecls ''x'' [0, 1, 2] 1) xModel True s 1
                             (m_trans (m_state lineMachine ! s)))
           [0 ..< nStatesOf lineMachine])
   \<and> incomingEmit (lineStateScores ! 1)
       = [\<lparr>its_src = 0, its_score = Fin 0, its_in = CHR ''x'', its_base = 0\<rparr>]
   \<and> outgoingNull (lineStateScores ! 1) = [\<lparr>ots_dest = 2, ots_score = Fin 0\<rparr>]"
proof -
  have n: "(1 :: nat) < nStatesOf lineMachine"
    by (simp add: nStatesOf_def lineMachine_def)
  have "incomingEmit (lineStateScores ! 1)
          = [\<lparr>its_src = 0, its_score = Fin 0, its_in = CHR ''x'', its_base = 0\<rparr>]"
    and "outgoingNull (lineStateScores ! 1) = [\<lparr>ots_dest = 2, ots_score = Fin 0\<rparr>]"
    by (simp_all add: lineStateScores_def)
  with C5_machine_scores_recorded [OF lineStateScores_built n] lineStateScores_built n
  show ?thesis by (intro conjI) simp_all
qed

section \<open>The closure: growth and termination\<close>

lemma grows_refl: "grows V pos c c"
  by (simp add: grows_def)

lemma grows_trans: "grows V pos c c1 \<Longrightarrow> grows V pos c1 c2 \<Longrightarrow> grows V pos c c2"
  unfolding grows_def by (metis order_trans)

lemma grows_antisym: "grows V pos c c1 \<Longrightarrow> grows V pos c1 c2 \<Longrightarrow> c2 = c \<Longrightarrow> c1 = c"
  unfolding grows_def by (metis order_antisym ext)

lemma grows_setS:
  "s < nStates V \<Longrightarrow> sCell c s pos \<le> v \<Longrightarrow> grows V pos c (setS c s pos v)"
  by (auto simp: grows_def setS_def sCell_def sMutStateIndex_def)

lemma grows_setD:
  "s < nStates V \<Longrightarrow> dCell c s pos \<le> v \<Longrightarrow> grows V pos c (setD c s pos v)"
  by (auto simp: grows_def setD_def dCell_def dMutStateIndex_def)

lemma relaxed_refl: "relaxed V pos cl cl"
  by (auto simp: relaxed_def grows_refl split: prod.splits)

lemma relaxed_trans:
  assumes "relaxed V pos cl cl1" and "relaxed V pos cl1 cl2"
  shows "relaxed V pos cl cl2"
proof -
  obtain c ps os where cl: "cl = (c, ps, os)" by (cases cl) auto
  obtain c1 ps1 os1 where cl1: "cl1 = (c1, ps1, os1)" by (cases cl1) auto
  obtain c2 ps2 os2 where cl2: "cl2 = (c2, ps2, os2)" by (cases cl2) auto
  from assms(1) cl cl1 have a:
    "grows V pos c c1" "length os1 = length os" "\<forall>b<length os. os ! b \<longrightarrow> os1 ! b"
    "set ps \<subseteq> set ps1" "set ps1 \<subseteq> set ps \<union> {b. b < length os \<and> \<not> os ! b}"
    "\<forall>b<length os. os1 ! b \<and> \<not> os ! b \<longrightarrow> b \<in> set ps1"
    "\<forall>b. sCell c1 b pos \<noteq> sCell c b pos \<or> dCell c1 b pos \<noteq> dCell c b pos
               \<longrightarrow> b < length os \<and> os1 ! b"
    "c1 = c \<longrightarrow> ps1 = ps \<and> os1 = os"
    by (simp_all add: relaxed_def)
  from assms(2) cl1 cl2 have b:
    "grows V pos c1 c2" "length os2 = length os1" "\<forall>b<length os1. os1 ! b \<longrightarrow> os2 ! b"
    "set ps1 \<subseteq> set ps2" "set ps2 \<subseteq> set ps1 \<union> {b. b < length os1 \<and> \<not> os1 ! b}"
    "\<forall>b<length os1. os2 ! b \<and> \<not> os1 ! b \<longrightarrow> b \<in> set ps2"
    "\<forall>b. sCell c2 b pos \<noteq> sCell c1 b pos \<or> dCell c2 b pos \<noteq> dCell c1 b pos
               \<longrightarrow> b < length os1 \<and> os2 ! b"
    "c2 = c1 \<longrightarrow> ps2 = ps1 \<and> os2 = os1"
    by (simp_all add: relaxed_def)
  have 1: "grows V pos c c2" using a(1) b(1) by (rule grows_trans)
  have 2: "length os2 = length os" using a(2) b(2) by simp
  have 3: "\<forall>b<length os. os ! b \<longrightarrow> os2 ! b" using a(2,3) b(3) by auto
  have 4: "set ps \<subseteq> set ps2" using a(4) b(4) by auto
  have 5: "set ps2 \<subseteq> set ps \<union> {b. b < length os \<and> \<not> os ! b}"
    using a(2,3,5) b(5) by auto
  have 6: "\<forall>b<length os. os2 ! b \<and> \<not> os ! b \<longrightarrow> b \<in> set ps2"
    using a(2,6) b(4,6) by (metis subsetD)
  have 7: "\<forall>b. sCell c2 b pos \<noteq> sCell c b pos \<or> dCell c2 b pos \<noteq> dCell c b pos
               \<longrightarrow> b < length os \<and> os2 ! b"
    using a(2,7) b(3,7) by metis
  have 8: "c2 = c \<longrightarrow> ps2 = ps \<and> os2 = os"
  proof
    assume e: "c2 = c"
    from grows_antisym [OF a(1) b(1) e] have "c1 = c" .
    with e a(8) b(8) show "ps2 = ps \<and> os2 = os" by simp
  qed
  from 1 2 3 4 5 6 7 8 show ?thesis
    by (simp add: relaxed_def cl cl2)
qed

lemma cell_simps [simp]:
  "sCell (setS c s p v) s' p' = (if s' = s \<and> p' = p then v else sCell c s' p')"
  "dCell (setS c s p v) s' p' = dCell c s' p'"
  "sCell (setD c s p v) s' p' = sCell c s' p'"
  "dCell (setD c s p v) s' p' = (if s' = s \<and> p' = p then v else dCell c s' p')"
  "tCell (setS c s p v) s' p' k' = tCell c s' p' k'"
  "tCell (setD c s p v) s' p' k' = tCell c s' p' k'"
  "sCell (setT c s p k v) s' p' = sCell c s' p'"
  "dCell (setT c s p k v) s' p' = dCell c s' p'"
  "tCell (setT c s p k v) s' p' k' = (if s' = s \<and> p' = p \<and> k' = k then v else tCell c s' p' k')"
  by (auto simp: sCell_def dCell_def tCell_def setS_def setD_def setT_def sMutStateIndex_def
      dMutStateIndex_def tMutStateIndex_def)

lemma setD_neq: "dCell c s p \<noteq> v \<Longrightarrow> setD c s p v \<noteq> c"
  by (metis cell_simps(4))

lemma setS_neq: "sCell c s p \<noteq> v \<Longrightarrow> setS c s p v \<noteq> c"
  by (metis cell_simps(1))

lemma sCell_neq: "sCell c' s p \<noteq> sCell c s p \<Longrightarrow> c' \<noteq> c"
  by auto

lemma dCell_neq: "dCell c' s p \<noteq> dCell c s p \<Longrightarrow> c' \<noteq> c"
  by auto

lemma relaxed_update:
  assumes "grows V pos c c'"
    and "\<forall>b. sCell c' b pos \<noteq> sCell c b pos \<or> dCell c' b pos \<noteq> dCell c b pos \<longrightarrow> b = d"
    and "d < length os" and "c' \<noteq> c"
  shows "relaxed V pos (c, ps, os)
           (c', if os ! d then ps else ps @ [d], if os ! d then os else os[d := True])"
  using assms
  by (auto simp: relaxed_def nth_list_update)

lemma relaxEmit_relaxed:
  assumes "relaxEmit V pos dsrc ssrc cl ots = Inr cl'"
  shows "relaxed V pos cl cl'"
proof -
  obtain c ps os where cl: "cl = (c, ps, os)" by (cases cl) auto
  let ?d = "ots_dest ots"
  let ?dsc = "max (dsrc + delExtend (mutatorScores V)) (ssrc + delOpen (mutatorScores V))
                + ots_score ots"
  from assms cl have rng: "?d < nStates V" "?d < length os"
    by (auto simp: relaxEmit_def split: if_splits)
  show ?thesis
  proof (cases "?dsc > dCell c ?d pos")
    case False
    with assms cl rng have "cl' = cl"
      by (simp add: relaxEmit_def Let_def)
    then show ?thesis by (simp add: relaxed_refl)
  next
    case True
    let ?c' = "setD c ?d pos ?dsc"
    have cl': "cl' = (?c', if os ! ?d then ps else ps @ [?d], if os ! ?d then os else os[?d := True])"
      using assms cl rng True by (auto simp: relaxEmit_def Let_def)
    have "grows V pos c ?c'"
      using rng(1) True by (intro grows_setD) simp_all
    moreover have "\<forall>b. sCell ?c' b pos \<noteq> sCell c b pos \<or> dCell ?c' b pos \<noteq> dCell c b pos \<longrightarrow> b = ?d"
      by (simp split: if_splits)
    moreover have "?c' \<noteq> c"
      using True by (intro setD_neq) simp
    ultimately show ?thesis
      unfolding cl cl' using rng(2) by (intro relaxed_update)
  qed
qed

lemma relaxNull_relaxed:
  assumes "relaxNull V pos dsrc ssrc cl ots = Inr cl'"
  shows "relaxed V pos cl cl'"
proof -
  obtain c ps os where cl: "cl = (c, ps, os)" by (cases cl) auto
  let ?d = "ots_dest ots"
  let ?dsc = "dsrc + ots_score ots"
  let ?ssc = "ssrc + ots_score ots"
  let ?c1 = "if ?dsc > dCell c ?d pos then setD c ?d pos ?dsc else c"
  let ?c2 = "if ?ssc > sCell ?c1 ?d pos then setS ?c1 ?d pos ?ssc else ?c1"
  from assms cl have rng: "?d < nStates V" "?d < length os"
    by (auto simp: relaxNull_def split: if_splits)
  have g1: "grows V pos c ?c1"
    using rng(1) by (auto intro!: grows_setD simp: grows_refl)
  have g2: "grows V pos ?c1 ?c2"
    using rng(1) by (auto intro!: grows_setS simp: grows_refl)
  have g: "grows V pos c ?c2"
    using g1 g2 by (rule grows_trans)
  have only: "\<forall>b. sCell ?c2 b pos \<noteq> sCell c b pos \<or> dCell ?c2 b pos \<noteq> dCell c b pos \<longrightarrow> b = ?d"
    by (auto split: if_splits)
  show ?thesis
  proof (cases "?dsc > dCell c ?d pos \<or> ?ssc > sCell ?c1 ?d pos")
    case False
    with assms cl rng have "cl' = cl"
      by (auto simp: relaxNull_def Let_def)
    then show ?thesis by (simp add: relaxed_refl)
  next
    case True
    have cl': "cl' = (?c2, if os ! ?d then ps else ps @ [?d], if os ! ?d then os else os[?d := True])"
      using assms cl rng True by (auto simp: relaxNull_def Let_def)
    have ne: "?c2 \<noteq> c"
    proof (cases "?ssc > sCell ?c1 ?d pos")
      case True
      then have "sCell ?c2 ?d pos \<noteq> sCell c ?d pos"
        by (auto split: if_splits)
      then show ?thesis by (rule sCell_neq)
    next
      case False
      with True have "dCell ?c2 ?d pos \<noteq> dCell c ?d pos"
        by (auto split: if_splits)
      then show ?thesis by (rule dCell_neq)
    qed
    show ?thesis
      unfolding cl cl' using g only rng(2) ne by (intro relaxed_update)
  qed
qed

lemma foldE_relaxed:
  assumes "\<And>cl x cl'. f cl x = Inr cl' \<Longrightarrow> relaxed V pos cl cl'"
  shows "foldE f xs cl = Inr cl' \<Longrightarrow> relaxed V pos cl cl'"
proof (induction xs arbitrary: cl)
  case Nil
  then show ?case by (simp add: relaxed_refl)
next
  case (Cons x xs)
  from Cons.prems obtain cl1 where "f cl x = Inr cl1" and "foldE f xs cl1 = Inr cl'"
    by (auto split: sum.splits)
  with assms Cons.IH show ?case
    by (blast intro: relaxed_trans)
qed


lemma closureStep_relaxed:
  assumes "closureStep V pos (c, ps, os) = Inr cl'"
  shows "last ps < nStates V \<and> last ps < length os
       \<and> relaxed V pos
            (setS c (last ps) pos
               (max (sCell c (last ps) pos) (dCell c (last ps) pos + delEnd (mutatorScores V))),
             butlast ps, os[last ps := False]) cl'"
proof -
  let ?a = "last ps"
  let ?dsrc = "dCell c ?a pos"
  let ?ssrc = "max (sCell c ?a pos) (?dsrc + delEnd (mutatorScores V))"
  let ?st0 = "(setS c ?a pos ?ssrc, butlast ps, os[?a := False])"
  from assms have rng: "?a < nStates V" "?a < length os"
    by (auto simp: closureStep_def Let_def split: if_splits)
  from assms rng obtain cl1 where
    e: "foldE (relaxEmit V pos ?dsrc ?ssrc) (outgoingEmit (machineScores V ! ?a)) ?st0 = Inr cl1"
    and n: "foldE (relaxNull V pos ?dsrc ?ssrc) (outgoingNull (machineScores V ! ?a)) cl1 = Inr cl'"
    by (auto simp: closureStep_def Let_def split: sum.splits)
  have "relaxed V pos ?st0 cl1"
    using e by (rule foldE_relaxed [rotated]) (rule relaxEmit_relaxed)
  moreover have "relaxed V pos cl1 cl'"
    using n by (rule foldE_relaxed [rotated]) (rule relaxNull_relaxed)
  ultimately have "relaxed V pos ?st0 cl'"
    by (rule relaxed_trans)
  with rng show ?thesis by simp
qed

lemma closureStep_progress:
  assumes "closureStep V pos (c, ps, os) = Inr (c', ps', os')"
  shows "grows V pos c c' \<and> (c' = c \<longrightarrow> ps' = butlast ps)"
proof -
  let ?a = "last ps"
  let ?c0 = "setS c ?a pos (max (sCell c ?a pos) (dCell c ?a pos + delEnd (mutatorScores V)))"
  from closureStep_relaxed [OF assms] have rng: "?a < nStates V"
    and r: "relaxed V pos (?c0, butlast ps, os[?a := False]) (c', ps', os')"
    by simp_all
  have g0: "grows V pos c ?c0"
    using rng by (intro grows_setS) simp_all
  from r have g1: "grows V pos ?c0 c'" and same: "c' = ?c0 \<longrightarrow> ps' = butlast ps"
    by (simp_all add: relaxed_def)
  have "grows V pos c c'"
    using g0 g1 by (rule grows_trans)
  moreover have "c' = c \<longrightarrow> ps' = butlast ps"
  proof
    assume "c' = c"
    from grows_antisym [OF g0 g1 this] have "?c0 = c" .
    with \<open>c' = c\<close> same show "ps' = butlast ps" by simp
  qed
  ultimately show ?thesis by simp
qed

lemma rank_mono: "u \<le> v \<Longrightarrow> rank u \<le> rank v"
  unfolding rank_def by (intro card_mono) auto

lemma rank_strict: "u < v \<Longrightarrow> rank u < rank v"
  unfolding rank_def by (intro psubset_card_mono) auto

lemma rank_bound: "rank (v :: 'v :: {finite,linorder}) \<le> card (UNIV :: 'v set)"
  unfolding rank_def by (intro card_mono) auto

lemma colRank_bound:
  "colRank V pos (c :: ('v :: {finite,linorder}) cells) \<le> nStates V * (2 * card (UNIV :: 'v set))"
proof -
  have "colRank V pos c \<le> (\<Sum>s<nStates V. 2 * card (UNIV :: 'v set))"
    unfolding colRank_def mult_2
    by (intro sum_mono add_mono rank_bound)
  then show ?thesis by simp
qed

lemma grows_colRank_le: "grows V pos c c' \<Longrightarrow> colRank V pos c \<le> colRank V pos c'"
  unfolding colRank_def grows_def sCell_def dCell_def
  by (intro sum_mono add_mono rank_mono) blast+

lemma grows_colRank_less:
  assumes "grows V pos c c'" and "c' \<noteq> c"
  shows "colRank V pos c < colRank V pos c'"
proof -
  from assms(2) obtain s p m where ne: "c' (s, p, m) \<noteq> c (s, p, m)"
    by (metis ext prod_cases3)
  with assms(1) have s: "s < nStates V" and p: "p = pos" and m: "m < 2"
    by (auto simp: grows_def)
  from assms(1) have le: "\<And>i. c i \<le> c' i"
    unfolding grows_def by blast
  from m have "m = 0 \<or> m = 1" by auto
  with ne p le [of "(s, pos, m)"] have
    "sCell c s pos < sCell c' s pos \<or> dCell c s pos < dCell c' s pos"
    by (auto simp: sCell_def dCell_def sMutStateIndex_def dMutStateIndex_def)
  then have strict: "rank (sCell c s pos) + rank (dCell c s pos)
                       < rank (sCell c' s pos) + rank (dCell c' s pos)"
    using le [of "(s, pos, sMutStateIndex)"] le [of "(s, pos, dMutStateIndex)"]
    by (auto simp: sCell_def dCell_def intro: add_less_le_mono add_le_less_mono rank_mono rank_strict)
  show ?thesis
    unfolding colRank_def
  proof (rule sum_strict_mono_ex1)
    show "finite {..<nStates V}" by simp
    show "\<forall>x\<in>{..<nStates V}. rank (sCell c x pos) + rank (dCell c x pos)
            \<le> rank (sCell c' x pos) + rank (dCell c' x pos)"
      using le by (auto intro!: add_mono rank_mono simp: sCell_def dCell_def)
    show "\<exists>a\<in>{..<nStates V}. rank (sCell c a pos) + rank (dCell c a pos)
            < rank (sCell c' a pos) + rank (dCell c' a pos)"
      using s strict by auto
  qed
qed

lemma closureLoop_terminates:
  fixes V :: "('v :: {finite,linorder,plus,zero,bot}) ViterbiMatrix"
  shows "\<exists>r. closureLoop V pos cl = Some r"
proof -
  let ?B = "nStates V * (2 * card (UNIV :: 'v set))"
  have "wf (measures [\<lambda>cl. ?B - colRank V pos (fst cl), \<lambda>cl. length (fst (snd cl))])"
    by simp
  then show ?thesis
  proof (induct cl rule: wf_induct_rule)
    case (less cl)
    obtain c ps os where cl: "cl = (c, ps, os)" by (cases cl) auto
    show ?case
    proof (cases "ps = []")
      case True
      with cl show ?thesis by (subst closureLoop.simps) simp
    next
      case False
      show ?thesis
      proof (cases "closureStep V pos cl")
        case (Inl e)
        with False cl show ?thesis by (subst closureLoop.simps) simp
      next
        case (Inr cl')
        obtain c' ps' os' where cl': "cl' = (c', ps', os')" by (cases cl') auto
        from closureStep_progress [OF Inr [unfolded cl cl']]
        have g: "grows V pos c c'" and same: "c' = c \<longrightarrow> ps' = butlast ps"
          by simp_all
        have "(cl', cl) \<in> measures [\<lambda>cl. ?B - colRank V pos (fst cl), \<lambda>cl. length (fst (snd cl))]"
        proof (cases "c' = c")
          case True
          with same False show ?thesis by (simp add: cl cl')
        next
          case ne: False
          from grows_colRank_less [OF g ne] colRank_bound [of V pos c']
          have "?B - colRank V pos c' < ?B - colRank V pos c" by linarith
          then show ?thesis by (simp add: cl cl')
        qed
        from less [OF this] obtain r where "closureLoop V pos cl' = Some r" by blast
        with Inr False cl show ?thesis
          by (subst closureLoop.simps) simp
      qed
    qed
  qed
qed

lemma foldE_relax_ok:
  assumes "\<And>cl x cl'. f cl x = Inr cl' \<Longrightarrow> relaxed V pos cl cl'"
    and "\<And>c ps os x. x \<in> set xs \<Longrightarrow> length os = n \<Longrightarrow> \<exists>cl'. f (c, ps, os) x = Inr cl'"
    and "length (snd (snd cl)) = n"
  shows "\<exists>cl'. foldE f xs cl = Inr cl'"
  using assms(2,3)
proof (induction xs arbitrary: cl)
  case Nil
  show ?case by (simp del: split_paired_Ex)
next
  case (Cons x xs)
  obtain c ps os where cl: "cl = (c, ps, os)" by (cases cl) auto
  from Cons.prems(2) cl have "length os = n" by simp
  from Cons.prems(1) [OF _ this, of x c ps] cl obtain cl1 where one: "f cl x = Inr cl1"
    by auto
  from assms(1) [OF one] cl have "length (snd (snd cl1)) = n"
    using \<open>length os = n\<close> by (auto simp: relaxed_def split: prod.splits)
  from Cons.IH [OF _ this] Cons.prems(1) obtain cl' where "foldE f xs cl1 = Inr cl'"
    by auto
  with one show ?case by (simp del: split_paired_Ex)
qed

lemma closureStep_ok:
  assumes "wfScores V" and "ps \<noteq> []" and "set ps \<subseteq> {..<nStates V}" and "length os = nStates V"
  shows "\<exists>c' ps' os'. closureStep V pos (c, ps, os) = Inr (c', ps', os')
           \<and> set ps' \<subseteq> {..<nStates V} \<and> length os' = nStates V"
proof -
  let ?a = "last ps"
  let ?dsrc = "dCell c ?a pos"
  let ?ssrc = "max (sCell c ?a pos) (?dsrc + delEnd (mutatorScores V))"
  let ?st0 = "(setS c ?a pos ?ssrc, butlast ps, os[?a := False])"
  have a: "?a < nStates V"
    using assms(2,3) last_in_set by blast
  from assms(1) a have
    we: "\<And>ots. ots \<in> set (outgoingEmit (machineScores V ! ?a)) \<Longrightarrow> ots_dest ots < nStates V"
    and wn: "\<And>ots. ots \<in> set (outgoingNull (machineScores V ! ?a)) \<Longrightarrow> ots_dest ots < nStates V"
    by (auto simp: wfScores_def)
  have "\<exists>cl1. foldE (relaxEmit V pos ?dsrc ?ssrc) (outgoingEmit (machineScores V ! ?a)) ?st0 = Inr cl1"
  proof (rule foldE_relax_ok [where n = "nStates V"])
    show "\<And>cl x cl'. relaxEmit V pos ?dsrc ?ssrc cl x = Inr cl' \<Longrightarrow> relaxed V pos cl cl'"
      by (rule relaxEmit_relaxed)
    show "\<And>c ps os x. x \<in> set (outgoingEmit (machineScores V ! ?a)) \<Longrightarrow> length os = nStates V
            \<Longrightarrow> \<exists>cl'. relaxEmit V pos ?dsrc ?ssrc (c, ps, os) x = Inr cl'"
      using we by (auto simp: relaxEmit_def Let_def)
    show "length (snd (snd ?st0)) = nStates V"
      using assms(4) by simp
  qed
  then obtain cl1 where e: "foldE (relaxEmit V pos ?dsrc ?ssrc) (outgoingEmit (machineScores V ! ?a)) ?st0 = Inr cl1"
    by blast
  have r1: "relaxed V pos ?st0 cl1"
    using e by (rule foldE_relaxed [rotated]) (rule relaxEmit_relaxed)
  then have len1: "length (snd (snd cl1)) = nStates V"
    using assms(4) by (auto simp: relaxed_def split: prod.splits)
  have "\<exists>cl'. foldE (relaxNull V pos ?dsrc ?ssrc) (outgoingNull (machineScores V ! ?a)) cl1 = Inr cl'"
  proof (rule foldE_relax_ok [where n = "nStates V"])
    show "\<And>cl x cl'. relaxNull V pos ?dsrc ?ssrc cl x = Inr cl' \<Longrightarrow> relaxed V pos cl cl'"
      by (rule relaxNull_relaxed)
    show "\<And>c ps os x. x \<in> set (outgoingNull (machineScores V ! ?a)) \<Longrightarrow> length os = nStates V
            \<Longrightarrow> \<exists>cl'. relaxNull V pos ?dsrc ?ssrc (c, ps, os) x = Inr cl'"
      using wn by (auto simp: relaxNull_def Let_def)
    show "length (snd (snd cl1)) = nStates V"
      by (rule len1)
  qed
  then obtain cl' where n: "foldE (relaxNull V pos ?dsrc ?ssrc) (outgoingNull (machineScores V ! ?a)) cl1 = Inr cl'"
    by blast
  obtain c' ps' os' where cl': "cl' = (c', ps', os')" by (cases cl') auto
  have step: "closureStep V pos (c, ps, os) = Inr (c', ps', os')"
    using a assms(4) e n cl' by (simp add: closureStep_def Let_def)
  from closureStep_relaxed [OF step] have r: "relaxed V pos ?st0 (c', ps', os')"
    by simp
  then have "set ps' \<subseteq> set (butlast ps) \<union> {b. b < length (os[?a := False])}"
    and "length os' = length (os[?a := False])"
    by (auto simp: relaxed_def)
  moreover have "set (butlast ps) \<subseteq> set ps"
    by (auto dest: in_set_butlastD)
  ultimately have "set ps' \<subseteq> {..<nStates V} \<and> length os' = nStates V"
    using assms(3,4) by auto
  with step show ?thesis by blast
qed

lemma closureLoop_ok:
  assumes "closureLoop V pos cl = Some r"
  shows "wfScores V \<and> set (fst (snd cl)) \<subseteq> {..<nStates V} \<and> length (snd (snd cl)) = nStates V
           \<longrightarrow> (\<exists>c'. r = Inr c')"
proof (rule closureLoop.raw_induct [OF _ assms], intro impI)
  fix loop V pos cl r
  assume IH: "\<And>V pos cl r. loop V pos cl = Some r \<Longrightarrow>
      wfScores V \<and> set (fst (snd cl)) \<subseteq> {..<nStates V} \<and> length (snd (snd cl)) = nStates V
           \<longrightarrow> (\<exists>c'. r = Inr c')"
    and eq: "(if fst (snd cl) = [] then Some (Inr (fst cl))
              else case closureStep V pos cl of Inl e \<Rightarrow> Some (Inl e) | Inr cl' \<Rightarrow> loop V pos cl')
             = Some r"
    and inv: "wfScores V \<and> set (fst (snd cl)) \<subseteq> {..<nStates V} \<and> length (snd (snd cl)) = nStates V"
  obtain c ps os where cl: "cl = (c, ps, os)" by (cases cl) auto
  show "\<exists>c'. r = Inr c'"
  proof (cases "ps = []")
    case True
    with eq cl show ?thesis by auto
  next
    case False
    from inv cl closureStep_ok [OF _ False, of V os pos c] obtain c' ps' os' where
      step: "closureStep V pos (c, ps, os) = Inr (c', ps', os')"
      and inv': "set ps' \<subseteq> {..<nStates V}" "length os' = nStates V"
      by auto
    from eq cl False step have "loop V pos (c', ps', os') = Some r"
      by simp
    from IH [OF this] inv inv' show ?thesis by simp
  qed
qed

text \<open>
  C3. The closure over the S and D layers of a column terminates. Every write of the
  loop replaces a score by a score that is at least as large, every push of a state
  follows a write of a strictly larger score into one of its two cells, and the scores
  are doubles, a finite linearly ordered set: the sum of the ranks of the \<open>2N\<close> cells
  of the column cannot grow for ever, and while it stays the worklist shrinks. So for
  every matrix over a finite score type, every position and every state of the loop,
  the loop returns; and when the transitions lead to states of the machine and the
  worklist is seeded with states of the machine, it returns with an empty worklist and
  the cells of the closure, not with an error.
\<close>

theorem C3_closure_terminates:
  fixes V :: "('v :: {finite,linorder,plus,zero,bot}) ViterbiMatrix"
  shows "(\<exists>r. closureLoop V pos cl = Some r)
       \<and> (\<exists>r. closure V stateOrder pos c = Some r)
       \<and> (wfScores V \<and> set stateOrder \<subseteq> {..<nStates V}
            \<longrightarrow> (\<exists>c'. closure V stateOrder pos c = Some (Inr c')))"
proof (intro conjI impI)
  show "\<exists>r. closureLoop V pos cl = Some r"
    by (rule closureLoop_terminates)
  show "\<exists>r. closure V stateOrder pos c = Some r"
    unfolding closure_def by (rule closureLoop_terminates)
  assume wf: "wfScores V \<and> set stateOrder \<subseteq> {..<nStates V}"
  from closureLoop_terminates obtain r where
    r: "closureLoop V pos (c, stateOrder, replicate (nStates V) True) = Some r"
    by blast
  from closureLoop_ok [OF r] wf obtain c' where "r = Inr c'"
    by auto
  with r show "\<exists>c'. closure V stateOrder pos c = Some (Inr c')"
    by (simp add: closure_def)
qed

theorem C3_closure_terminates_witness:
  "wfScores twoV \<and> set [0] \<subseteq> {..<nStates twoV}
   \<and> (\<exists>r. closureLoop twoV 0 (\<lambda>i. 0, [0, 0], [False]) = Some r)
   \<and> (\<exists>c'. closure twoV [0] 0 (\<lambda>i. 0) = Some (Inr c'))"
proof -
  have wf: "wfScores twoV" and ord: "set [0] \<subseteq> {..<nStates twoV}"
    by (simp_all add: wfScores_def twoV_def nStates_def)
  note A = C3_closure_terminates [where V = twoV and pos = 0 and cl = "(\<lambda>i. 0, [0, 0], [False])"
      and stateOrder = "[0]" and c = "\<lambda>i. 0"]
  from A have "\<exists>r. closureLoop twoV 0 (\<lambda>i. 0, [0, 0], [False]) = Some r"
    by blast
  moreover from A wf ord have "\<exists>c'. closure twoV [0] 0 (\<lambda>i. 0) = Some (Inr c')"
    by blast
  ultimately show ?thesis using wf ord by (intro conjI)
qed

section \<open>The fill: which cells each step writes\<close>

lemma foldE_invariant:
  assumes "foldE f xs s = Inr s'" and "P s"
    and "\<And>s x s'. x \<in> set xs \<Longrightarrow> P s \<Longrightarrow> f s x = Inr s' \<Longrightarrow> P s'"
  shows "P s'"
  using assms
proof (induction xs arbitrary: s)
  case Nil
  then show ?case by simp
next
  case (Cons x xs)
  from Cons.prems(1) obtain s1 where one: "f s x = Inr s1" and rest: "foldE f xs s1 = Inr s'"
    by (auto split: sum.splits)
  have "P s1" using Cons.prems(3) [OF _ Cons.prems(2) one] by simp
  show ?case
    by (rule Cons.IH [OF rest \<open>P s1\<close>]) (blast intro: Cons.prems(3) [OF list.set_intros(2)])
qed

lemma cells_eqI:
  assumes "\<And>s p. sCell c' s p = sCell c s p" and "\<And>s p. dCell c' s p = dCell c s p"
    and "\<And>s p k. tCell c' s p k = tCell c s p k"
  shows "c' = c"
proof (rule ext)
  fix i :: "State \<times> Pos \<times> MutStateIndex"
  obtain s p m where i: "i = (s, p, m)" by (cases i) auto
  consider "m = 0" | "m = 1" | "m \<ge> 2" by linarith
  then show "c' i = c i"
  proof cases
    case 1
    with assms(1) [of s p] i show ?thesis by (simp add: sCell_def sMutStateIndex_def)
  next
    case 2
    with assms(2) [of s p] i show ?thesis by (simp add: dCell_def dMutStateIndex_def)
  next
    case 3
    then have "2 + (m - 2) = m" by simp
    with assms(3) [of s p "m - 2"] i show ?thesis by (simp add: tCell_def tMutStateIndex_def)
  qed
qed

lemma cells_leI:
  assumes "\<And>s p. sCell c s p \<le> sCell d s p" and "\<And>s p. dCell c s p \<le> dCell d s p"
    and "\<And>s p k. tCell c s p k \<le> tCell d s p k"
  shows "c \<le> d"
proof (rule le_funI)
  fix i :: "State \<times> Pos \<times> MutStateIndex"
  obtain s p m where i: "i = (s, p, m)" by (cases i) auto
  consider "m = 0" | "m = 1" | "m \<ge> 2" by linarith
  then show "c i \<le> d i"
  proof cases
    case 1
    with assms(1) [of s p] i show ?thesis by (simp add: sCell_def sMutStateIndex_def)
  next
    case 2
    with assms(2) [of s p] i show ?thesis by (simp add: dCell_def dMutStateIndex_def)
  next
    case 3
    then have "2 + (m - 2) = m" by simp
    with assms(3) [of s p "m - 2"] i show ?thesis by (simp add: tCell_def tMutStateIndex_def)
  qed
qed

lemma cells_leD:
  "c \<le> d \<Longrightarrow> sCell c s p \<le> sCell d s p"
  "c \<le> d \<Longrightarrow> dCell c s p \<le> dCell d s p"
  "c \<le> d \<Longrightarrow> tCell c s p k \<le> tCell d s p k"
  by (simp_all add: le_fun_def sCell_def dCell_def tCell_def)

lemma onlyS_refl: "onlyS st pos c c"
  by (simp add: onlyS_def)

lemma onlyS_trans: "onlyS st pos c c1 \<Longrightarrow> onlyS st pos c1 c2 \<Longrightarrow> onlyS st pos c c2"
  by (simp add: onlyS_def)

lemma onlyS_setS: "onlyS st pos c (setS c st pos v)"
  by (simp add: onlyS_def)

lemma fillEmit_onlyS: "fillEmit V pos st c its = Inr c' \<Longrightarrow> onlyS st pos c c'"
  by (auto simp: fillEmit_def onlyS_setS split: if_splits)

lemma fillNull_onlyS: "fillNull V pos st c its = Inr c' \<Longrightarrow> onlyS st pos c c'"
  by (auto simp: fillNull_def onlyS_setS split: if_splits)

lemma foldE_onlyS:
  assumes "foldE f xs c = Inr c'" and "\<And>c x c'. f c x = Inr c' \<Longrightarrow> onlyS st pos c c'"
  shows "onlyS st pos c c'"
  by (rule foldE_invariant [OF assms(1), where P = "onlyS st pos c"])
     (blast intro: onlyS_refl onlyS_trans assms(2))+

lemma fillDup_cells [simp]:
  "tCell (fillDup V ss pos st c k) s p j =
     (if s = st \<and> p = pos \<and> j = k
      then tCell c st (pos - 1) (k + 1) + sub (mutatorScores V) (tanDupBase ss (k + 1)) (seq V ! (pos - 1))
      else tCell c s p j)"
  "sCell (fillDup V ss pos st c k) s p = sCell c s p"
  "dCell (fillDup V ss pos st c k) s p = dCell c s p"
  by (simp_all add: fillDup_def)

lemma foldl_fillDup_T:
  assumes "0 < pos"
  shows "tCell (foldl (fillDup V ss pos st) c ks) s p j =
     (if s = st \<and> p = pos \<and> j \<in> set ks
      then tCell c st (pos - 1) (j + 1) + sub (mutatorScores V) (tanDupBase ss (j + 1)) (seq V ! (pos - 1))
      else tCell c s p j)"
proof (induction ks arbitrary: c)
  case Nil
  then show ?case by simp
next
  case (Cons k ks)
  have ne: "pos - 1 \<noteq> pos"
    using assms by simp
  show ?case
    using ne by (auto simp: Cons.IH simp del: One_nat_def)
qed

lemma foldl_fillDup_SD:
  "sCell (foldl (fillDup V ss pos st) c ks) s p = sCell c s p"
  "dCell (foldl (fillDup V ss pos st) c ks) s p = dCell c s p"
  by (induction ks arbitrary: c) simp_all

lemma fillState_cells:
  assumes "fillState V pos c st = Inr c'"
  shows "st < nStates V"
    and "dCell c' s p = dCell c s p"
    and "(s, p) \<noteq> (st, pos) \<Longrightarrow> sCell c' s p = sCell c s p"
    and "tCell c' s p k =
      (if s = st \<and> p = pos \<and> 0 < pos \<and> k + 1 < maxDupLenAt V (machineScores V ! st)
       then tCell c st (pos - 1) (k + 1)
              + sub (mutatorScores V) (tanDupBase (machineScores V ! st) (k + 1)) (seq V ! (pos - 1))
       else tCell c s p k)"
proof -
  let ?ss = "machineScores V ! st"
  from assms show st: "st < nStates V"
    by (auto simp: fillState_def split: if_splits)
  from assms st obtain c1 c2 where
    e: "(if pos > 0 then foldE (fillEmit V pos st) (incomingEmit ?ss) c else Inr c) = Inr c1"
    and n: "foldE (fillNull V pos st) (incomingNull ?ss) c1 = Inr c2"
    and c': "c' = (if maxDupLenAt V ?ss > 0 \<and> pos > 0 then
                     foldl (fillDup V ?ss pos st)
                       (setS c2 st pos (max (sCell c2 st pos)
                          (tCell c2 st (pos - 1) 0
                             + sub (mutatorScores V) (tanDupBase ?ss 0) (seq V ! (pos - 1)))))
                       [0 ..< maxDupLenAt V ?ss - 1]
                   else c2)"
    by (auto simp: fillState_def Let_def split: sum.splits)
  have "onlyS st pos c c1"
    using e by (auto split: if_splits intro: onlyS_refl foldE_onlyS fillEmit_onlyS)
  moreover have "onlyS st pos c1 c2"
    using n by (rule foldE_onlyS) (rule fillNull_onlyS)
  ultimately have o: "onlyS st pos c c2"
    by (rule onlyS_trans)
  then have d2: "\<And>s p. dCell c2 s p = dCell c s p" and t2: "\<And>s p k. tCell c2 s p k = tCell c s p k"
    and s2: "\<And>s p. (s, p) \<noteq> (st, pos) \<Longrightarrow> sCell c2 s p = sCell c s p"
    by (simp_all add: onlyS_def)
  show "dCell c' s p = dCell c s p"
    by (simp add: c' foldl_fillDup_SD d2)
  show "(s, p) \<noteq> (st, pos) \<Longrightarrow> sCell c' s p = sCell c s p"
    by (auto simp: c' foldl_fillDup_SD s2)
  show "tCell c' s p k =
      (if s = st \<and> p = pos \<and> 0 < pos \<and> k + 1 < maxDupLenAt V ?ss
       then tCell c st (pos - 1) (k + 1)
              + sub (mutatorScores V) (tanDupBase ?ss (k + 1)) (seq V ! (pos - 1))
       else tCell c s p k)"
    by (auto simp: c' foldl_fillDup_T t2 simp del: One_nat_def)
qed

lemma fillStates_cells:
  assumes "foldE (fillState V pos) xs c = Inr c'"
  shows "set xs \<subseteq> {..<nStates V}"
    and "dCell c' s p = dCell c s p"
    and "p \<noteq> pos \<or> s \<notin> set xs \<Longrightarrow> sCell c' s p = sCell c s p"
    and "tCell c' s p k =
      (if s \<in> set xs \<and> p = pos \<and> 0 < pos \<and> k + 1 < maxDupLenAt V (machineScores V ! s)
       then tCell c s (pos - 1) (k + 1)
              + sub (mutatorScores V) (tanDupBase (machineScores V ! s) (k + 1)) (seq V ! (pos - 1))
       else tCell c s p k)"
  using assms
proof (induction xs arbitrary: c)
  case Nil
  {
    case 1 then show ?case by simp
  next
    case 2 then show ?case by simp
  next
    case 3 then show ?case by simp
  next
    case 4 then show ?case by simp
  }
next
  case (Cons x xs)
  {
    case 1
    from 1 obtain c1 where one: "fillState V pos c x = Inr c1"
      and rest: "foldE (fillState V pos) xs c1 = Inr c'"
      by (auto split: sum.splits)
    from Cons.IH(1) [OF rest] fillState_cells(1) [OF one] show ?case by simp
  next
    case 2
    from 2 obtain c1 where one: "fillState V pos c x = Inr c1"
      and rest: "foldE (fillState V pos) xs c1 = Inr c'"
      by (auto split: sum.splits)
    from Cons.IH(2) [OF rest] fillState_cells(2) [OF one] show ?case by simp
  next
    case 3
    from 3(2) obtain c1 where one: "fillState V pos c x = Inr c1"
      and rest: "foldE (fillState V pos) xs c1 = Inr c'"
      by (auto split: sum.splits)
    from 3(1) have "p \<noteq> pos \<or> s \<notin> set xs" and "(s, p) \<noteq> (x, pos)" by auto
    with Cons.IH(3) [OF _ rest] fillState_cells(3) [OF one] show ?case by simp
  next
    case 4
    from 4 obtain c1 where one: "fillState V pos c x = Inr c1"
      and rest: "foldE (fillState V pos) xs c1 = Inr c'"
      by (auto split: sum.splits)
    have prev: "tCell c1 s (pos - 1) (k + 1) = tCell c s (pos - 1) (k + 1)" if "0 < pos"
    proof -
      from that have "pos - 1 \<noteq> pos" by simp
      with fillState_cells(4) [OF one, of s "pos - 1" "k + 1"] show ?thesis
        by (simp del: One_nat_def)
    qed
    show ?case
      using prev
      by (simp add: Cons.IH(4) [OF rest] fillState_cells(4) [OF one] del: One_nat_def) blast
  }
qed

lemma closureLoop_grows:
  assumes "closureLoop V pos cl = Some r"
  shows "\<forall>c'. r = Inr c' \<longrightarrow> grows V pos (fst cl) c'"
proof (rule closureLoop.raw_induct [OF _ assms], intro allI impI)
  fix loop :: "'a ViterbiMatrix \<Rightarrow> nat \<Rightarrow> 'a closure \<Rightarrow> (error + 'a cells) option"
    and V :: "'a ViterbiMatrix" and pos cl r c'
  assume IH: "\<And>V pos cl r. loop V pos cl = Some r \<Longrightarrow> \<forall>c'. r = Inr c' \<longrightarrow> grows V pos (fst cl) c'"
    and eq: "(if fst (snd cl) = [] then Some (Inr (fst cl))
              else case closureStep V pos cl of Inl e \<Rightarrow> Some (Inl e) | Inr cl' \<Rightarrow> loop V pos cl')
             = Some r"
    and r: "r = Inr c'"
  obtain c ps os where cl: "cl = (c, ps, os)" by (cases cl) auto
  show "grows V pos (fst cl) c'"
  proof (cases "ps = []")
    case True
    with eq cl r show ?thesis by (simp add: grows_refl)
  next
    case False
    with eq cl r obtain c1 ps1 os1 where step: "closureStep V pos (c, ps, os) = Inr (c1, ps1, os1)"
      and lp: "loop V pos (c1, ps1, os1) = Some r"
      by (cases "closureStep V pos (c, ps, os)") auto
    from closureStep_progress [OF step] have "grows V pos c c1" by simp
    moreover from IH [OF lp] r have "grows V pos c1 c'" by simp
    ultimately show ?thesis using cl by (auto intro: grows_trans)
  qed
qed

lemma closure_grows: "closure V stateOrder pos c = Some (Inr c') \<Longrightarrow> grows V pos c c'"
  using closureLoop_grows [of V pos "(c, stateOrder, replicate (nStates V) True)" "Inr c'"]
  by (simp add: closure_def)

lemma grows_cells:
  assumes "grows V pos c c'"
  shows "tCell c' s p k = tCell c s p k"
    and "p \<noteq> pos \<Longrightarrow> sCell c' s p = sCell c s p"
    and "p \<noteq> pos \<Longrightarrow> dCell c' s p = dCell c s p"
    and "c \<le> c'"
proof -
  from assms have ch: "\<And>s p m. c' (s, p, m) \<noteq> c (s, p, m) \<Longrightarrow> s < nStates V \<and> p = pos \<and> m < 2"
    and le: "\<And>i. c i \<le> c' i"
    unfolding grows_def by blast+
  show "tCell c' s p k = tCell c s p k"
    using ch [of s p "tMutStateIndex k"] by (auto simp: tCell_def tMutStateIndex_def)
  show "p \<noteq> pos \<Longrightarrow> sCell c' s p = sCell c s p"
    using ch [of s p sMutStateIndex] by (auto simp: sCell_def)
  show "p \<noteq> pos \<Longrightarrow> dCell c' s p = dCell c s p"
    using ch [of s p dMutStateIndex] by (auto simp: dCell_def)
  show "c \<le> c'"
    using le by (simp add: le_fun_def)
qed

lemma seedDup_cells [simp]:
  "tCell (seedDup V pos st c k) s p j =
     (if s = st \<and> p = pos \<and> j = k
      then max (tCell c st pos k) (sCell c st pos + tanDup (mutatorScores V) + len (mutatorScores V) k)
      else tCell c s p j)"
  "sCell (seedDup V pos st c k) s p = sCell c s p"
  "dCell (seedDup V pos st c k) s p = dCell c s p"
  by (simp_all add: seedDup_def)

lemma foldl_seedDup_SD:
  "sCell (foldl (seedDup V pos st) c ks) s p = sCell c s p"
  "dCell (foldl (seedDup V pos st) c ks) s p = dCell c s p"
  by (induction ks arbitrary: c) simp_all

lemma foldl_seedDup_T:
  assumes "distinct ks"
  shows "tCell (foldl (seedDup V pos st) c ks) s p j =
     (if s = st \<and> p = pos \<and> j \<in> set ks
      then max (tCell c st pos j) (sCell c st pos + tanDup (mutatorScores V) + len (mutatorScores V) j)
      else tCell c s p j)"
  using assms
  by (induction ks arbitrary: c) (auto simp: foldl_seedDup_SD)

lemma seedState_cells [simp]:
  "tCell (seedState V pos c st) s p j =
     (if s = st \<and> p = pos \<and> j < maxDupLenAt V (machineScores V ! st)
      then max (tCell c st pos j) (sCell c st pos + tanDup (mutatorScores V) + len (mutatorScores V) j)
      else tCell c s p j)"
  "sCell (seedState V pos c st) s p = sCell c s p"
  "dCell (seedState V pos c st) s p = dCell c s p"
  by (simp_all add: seedState_def foldl_seedDup_T foldl_seedDup_SD)

lemma foldl_seedState_SD:
  "sCell (foldl (seedState V pos) c xs) s p = sCell c s p"
  "dCell (foldl (seedState V pos) c xs) s p = dCell c s p"
  by (induction xs arbitrary: c) simp_all

lemma foldl_seedState_T:
  assumes "distinct xs"
  shows "tCell (foldl (seedState V pos) c xs) s p j =
     (if s \<in> set xs \<and> p = pos \<and> j < maxDupLenAt V (machineScores V ! s)
      then max (tCell c s pos j) (sCell c s pos + tanDup (mutatorScores V) + len (mutatorScores V) j)
      else tCell c s p j)"
  using assms
  by (induction xs arbitrary: c) (auto simp: foldl_seedState_SD)

lemma seedColumn_cells:
  "tCell (seedColumn V pos c) s p j =
     (if 0 < pos \<and> s < nStates V \<and> p = pos \<and> j < maxDupLenAt V (machineScores V ! s)
      then max (tCell c s pos j) (sCell c s pos + tanDup (mutatorScores V) + len (mutatorScores V) j)
      else tCell c s p j)"
  "sCell (seedColumn V pos c) s p = sCell c s p"
  "dCell (seedColumn V pos c) s p = dCell c s p"
  by (simp_all add: seedColumn_def foldl_seedState_T foldl_seedState_SD)

lemma fillColumn_parts:
  assumes "fillColumn V stateOrder c pos = Some (Inr c')"
  obtains c1 c2 where "foldE (fillState V pos) stateOrder c = Inr c1"
    and "closure V stateOrder pos c1 = Some (Inr c2)" and "c' = seedColumn V pos c2"
  using assms
  by (auto simp: fillColumn_def split: sum.splits option.splits)

lemma fillColumn_other:
  assumes "fillColumn V stateOrder c pos = Some (Inr c')" and "p \<noteq> pos"
  shows "sCell c' s p = sCell c s p" and "dCell c' s p = dCell c s p"
    and "tCell c' s p k = tCell c s p k"
proof -
  from assms(1) obtain c1 c2 where a: "foldE (fillState V pos) stateOrder c = Inr c1"
    and b: "closure V stateOrder pos c1 = Some (Inr c2)" and c: "c' = seedColumn V pos c2"
    by (rule fillColumn_parts)
  note g = grows_cells [OF closure_grows [OF b]]
  show "sCell c' s p = sCell c s p"
    using assms(2) by (simp add: c seedColumn_cells g fillStates_cells(3) [OF a])
  show "dCell c' s p = dCell c s p"
    using assms(2) by (simp add: c seedColumn_cells g fillStates_cells(2) [OF a])
  show "tCell c' s p k = tCell c s p k"
    using assms(2) by (simp add: c seedColumn_cells g fillStates_cells(4) [OF a])
qed

lemma fillColumn_T:
  assumes "fillColumn V stateOrder c pos = Some (Inr c')" and "0 < pos"
    and "s < nStates V" and "s \<in> set stateOrder" and "k < maxDupLenAt V (machineScores V ! s)"
  shows "tCell c' s pos k =
     max (if k + 1 < maxDupLenAt V (machineScores V ! s)
          then tCell c' s (pos - 1) (k + 1)
                 + sub (mutatorScores V) (tanDupBase (machineScores V ! s) (k + 1)) (seq V ! (pos - 1))
          else tCell c s pos k)
         (sCell c' s pos + tanDup (mutatorScores V) + len (mutatorScores V) k)"
proof -
  from assms(1) obtain c1 c2 where a: "foldE (fillState V pos) stateOrder c = Inr c1"
    and b: "closure V stateOrder pos c1 = Some (Inr c2)" and c: "c' = seedColumn V pos c2"
    by (rule fillColumn_parts)
  note g = grows_cells [OF closure_grows [OF b]]
  from assms(2) have ne: "pos - 1 \<noteq> pos" by simp
  have prev: "tCell c' s (pos - 1) (k + 1) = tCell c s (pos - 1) (k + 1)"
    using fillColumn_other(3) [OF assms(1) ne] .
  show ?thesis
    using assms(2-5)
    by (simp add: prev del: One_nat_def)
       (simp add: c seedColumn_cells g fillStates_cells(4) [OF a] del: One_nat_def)
qed

lemma fillColumns_other:
  assumes "fillColumns V stateOrder ps c = Some (Inr c')" and "p \<notin> set ps"
  shows "sCell c' s p = sCell c s p \<and> dCell c' s p = dCell c s p \<and> tCell c' s p k = tCell c s p k"
  using assms
proof (induction ps arbitrary: c)
  case Nil
  then show ?case by simp
next
  case (Cons q ps)
  from Cons.prems(1) obtain c1 where one: "fillColumn V stateOrder c q = Some (Inr c1)"
    and rest: "fillColumns V stateOrder ps c1 = Some (Inr c')"
    by (auto split: option.splits sum.splits)
  from Cons.prems(2) have "p \<noteq> q" and "p \<notin> set ps" by auto
  from Cons.IH [OF rest this(2)] fillColumn_other [OF one this(1)] show ?case by simp
qed

lemma fillColumns_snoc:
  "fillColumns V stateOrder (ps @ [q]) c =
     (case fillColumns V stateOrder ps c of
        None \<Rightarrow> None
      | Some (Inl e) \<Rightarrow> Some (Inl e)
      | Some (Inr c1) \<Rightarrow> fillColumn V stateOrder c1 q)"
  by (induction ps arbitrary: c) (auto split: option.splits sum.splits)

lemma foldl_setS0_cells:
  "tCell (foldl (\<lambda>c state. setS c state 0 v) c xs) s p k = tCell c s p k"
  "dCell (foldl (\<lambda>c state. setS c state 0 v) c xs) s p = dCell c s p"
  "sCell (foldl (\<lambda>c state. setS c state 0 v) c xs) s p =
     (if p = 0 \<and> s \<in> set xs then v else sCell c s p)"
  by (induction xs arbitrary: c) auto

lemma bot_cells [simp]:
  "sCell (\<lambda>i. bot) s p = bot" "dCell (\<lambda>i. bot) s p = bot" "tCell (\<lambda>i. bot) s p k = bot"
  by (simp_all add: sCell_def dCell_def tCell_def)

lemma initCells_cells:
  assumes "initCells V = Inr c0"
  shows "tCell c0 s p k = bot" and "dCell c0 s p = bot"
    and "sCell c0 s p = (if p = 0 \<and> (if local V then s < nStates V else s = 0) then 0 else bot)"
  using assms
  by (auto simp: initCells_def foldl_setS0_cells split: if_splits)

text \<open>
  C2. For every state \<open>s\<close> of the machine that the state order visits, with duplication
  capacity \<open>M\<^sub>s > 0\<close>, every position \<open>p > 0\<close> and every \<open>k < M\<^sub>s\<close>: when the columns 0
  to \<open>p\<close> are filled, \<open>T[s,p,k]\<close> is the maximum of the extension term
  \<open>T[s,p-1,k+1] + sub[tanDupBase(s,k+1)][y[p-1]]\<close> (only when \<open>k < M\<^sub>s - 1\<close>) and the
  seed term \<open>S[s,p] + tanDup + len[k]\<close>, and \<open>S[s,p]\<close> is the value that the closure of
  column \<open>p\<close> left in that cell.
\<close>

theorem C2_tandem_dup_cell:
  fixes V :: "('v :: {linorder,plus,zero,order_bot}) ViterbiMatrix"
  assumes "initCells V = Inr c0"
    and "fillColumns V stateOrder [0 ..< Suc p] c0 = Some (Inr c)"
    and "0 < p" and "s < nStates V" and "s \<in> set stateOrder"
    and "k < maxDupLenAt V (machineScores V ! s)"
  shows "tCell c s p k =
           (if k + 1 < maxDupLenAt V (machineScores V ! s)
            then max (tCell c s (p - 1) (k + 1)
                        + sub (mutatorScores V) (tanDupBase (machineScores V ! s) (k + 1)) (seq V ! (p - 1)))
                     (sCell c s p + tanDup (mutatorScores V) + len (mutatorScores V) k)
            else sCell c s p + tanDup (mutatorScores V) + len (mutatorScores V) k)
       \<and> (\<exists>cprev c1 c2. fillColumns V stateOrder [0 ..< p] c0 = Some (Inr cprev)
             \<and> foldE (fillState V p) stateOrder cprev = Inr c1
             \<and> closure V stateOrder p c1 = Some (Inr c2)
             \<and> sCell c s p = sCell c2 s p)"
proof -
  from assms(2) obtain cprev where prev: "fillColumns V stateOrder [0 ..< p] c0 = Some (Inr cprev)"
    and col: "fillColumn V stateOrder cprev p = Some (Inr c)"
    by (auto simp: fillColumns_snoc split: option.splits sum.splits)
  have "tCell cprev s p k = tCell c0 s p k"
    using fillColumns_other [OF prev, of p] by simp
  then have fresh: "tCell cprev s p k = bot"
    by (simp add: initCells_cells(1) [OF assms(1)])
  from col obtain c1 c2 where a: "foldE (fillState V p) stateOrder cprev = Inr c1"
    and b: "closure V stateOrder p c1 = Some (Inr c2)" and c: "c = seedColumn V p c2"
    by (rule fillColumn_parts)
  have "sCell c s p = sCell c2 s p"
    by (simp add: c seedColumn_cells)
  with prev a b have second: "\<exists>cprev c1 c2. fillColumns V stateOrder [0 ..< p] c0 = Some (Inr cprev)
             \<and> foldE (fillState V p) stateOrder cprev = Inr c1
             \<and> closure V stateOrder p c1 = Some (Inr c2)
             \<and> sCell c s p = sCell c2 s p"
    by blast
  from fillColumn_T [OF col assms(3-6)] fresh have first: "tCell c s p k =
           (if k + 1 < maxDupLenAt V (machineScores V ! s)
            then max (tCell c s (p - 1) (k + 1)
                        + sub (mutatorScores V) (tanDupBase (machineScores V ! s) (k + 1)) (seq V ! (p - 1)))
                     (sCell c s p + tanDup (mutatorScores V) + len (mutatorScores V) k)
            else sCell c s p + tanDup (mutatorScores V) + len (mutatorScores V) k)"
    by (simp add: max_bot del: One_nat_def)
  from first second show ?thesis by (rule conjI)
qed

theorem C2_tandem_dup_cell_witness:
  "initCells dup2V = Inr dup2Init
   \<and> fillColumns dup2V [0, 2, 1] [0 ..< Suc 1] dup2Init = Some (Inr dup2Col)
   \<and> (0 :: nat) < 1 \<and> 1 < nStates dup2V \<and> (1 :: nat) \<in> set [0, 2, 1]
   \<and> 0 < maxDupLenAt dup2V (machineScores dup2V ! 1)
   \<and> 0 + 1 < maxDupLenAt dup2V (machineScores dup2V ! 1)
   \<and> tCell dup2Col 1 1 0
       = max (tCell dup2Col 1 (1 - 1) (0 + 1)
                + sub (mutatorScores dup2V) (tanDupBase (machineScores dup2V ! 1) (0 + 1))
                    (seq dup2V ! (1 - 1)))
             (sCell dup2Col 1 1 + tanDup (mutatorScores dup2V) + len (mutatorScores dup2V) 0)
   \<and> tCell dup2Col 1 1 0 = Fin (- 4)"
proof -
  have init: "initCells dup2V = Inr dup2Init"
    by (simp add: dup2Init_def initCells_def dup2V_def)
  have "(case fillColumns dup2V [0, 2, 1] [0 ..< Suc 1] dup2Init of
           Some (Inr c) \<Rightarrow> True | _ \<Rightarrow> False)"
    by code_simp
  then have cols: "fillColumns dup2V [0, 2, 1] [0 ..< Suc 1] dup2Init = Some (Inr dup2Col)"
    by (auto simp: dup2Col_def split: option.splits sum.splits)
  have n: "1 < nStates dup2V" and m: "0 < maxDupLenAt dup2V (machineScores dup2V ! 1)"
    and m2: "0 + 1 < maxDupLenAt dup2V (machineScores dup2V ! 1)"
    by (simp_all add: dup2V_def nStates_def maxDupLenAt_def dupStateScores_def)
  have v: "tCell dup2Col 1 1 0 = Fin (- 4)"
    by code_simp
  from C2_tandem_dup_cell [OF init cols _ n _ m] m2 have "tCell dup2Col 1 1 0
       = max (tCell dup2Col 1 (1 - 1) (0 + 1)
                + sub (mutatorScores dup2V) (tanDupBase (machineScores dup2V ! 1) (0 + 1))
                    (seq dup2V ! (1 - 1)))
             (sCell dup2Col 1 1 + tanDup (mutatorScores dup2V) + len (mutatorScores dup2V) 0)"
    by simp
  with init cols n m m2 v show ?thesis by simp
qed

section \<open>The closure: what it computes\<close>

lemma relaxed_grows: "relaxed V pos cl cl' \<Longrightarrow> grows V pos (fst cl) (fst cl')"
  by (auto simp: relaxed_def split: prod.splits)

lemma grows_le: "grows V pos c c' \<Longrightarrow> dCell c s p \<le> dCell c' s p \<and> sCell c s p \<le> sCell c' s p"
  by (simp add: grows_def sCell_def dCell_def)

lemma relaxEmit_post:
  assumes "relaxEmit V pos dsrc ssrc cl ots = Inr cl'"
  shows "max (dsrc + delExtend (mutatorScores V)) (ssrc + delOpen (mutatorScores V)) + ots_score ots
           \<le> dCell (fst cl') (ots_dest ots) pos"
  using assms
  by (cases cl) (auto simp: relaxEmit_def Let_def not_less split: if_splits)

lemma relaxNull_post:
  assumes "relaxNull V pos dsrc ssrc cl ots = Inr cl'"
  shows "dsrc + ots_score ots \<le> dCell (fst cl') (ots_dest ots) pos
       \<and> ssrc + ots_score ots \<le> sCell (fst cl') (ots_dest ots) pos"
  using assms
  by (cases cl) (auto simp: relaxNull_def Let_def not_less split: if_splits)

lemma foldE_relaxEmit_post:
  assumes "foldE (relaxEmit V pos dsrc ssrc) es cl = Inr cl'"
  shows "\<forall>ots\<in>set es.
           max (dsrc + delExtend (mutatorScores V)) (ssrc + delOpen (mutatorScores V)) + ots_score ots
             \<le> dCell (fst cl') (ots_dest ots) pos"
  using assms
proof (induction es arbitrary: cl)
  case Nil
  then show ?case by simp
next
  case (Cons e es)
  from Cons.prems obtain cl1 where one: "relaxEmit V pos dsrc ssrc cl e = Inr cl1"
    and rest: "foldE (relaxEmit V pos dsrc ssrc) es cl1 = Inr cl'"
    by (auto split: sum.splits)
  have "relaxed V pos cl1 cl'"
    using rest by (rule foldE_relaxed [rotated]) (rule relaxEmit_relaxed)
  from grows_le [OF relaxed_grows [OF this]] relaxEmit_post [OF one]
  have "max (dsrc + delExtend (mutatorScores V)) (ssrc + delOpen (mutatorScores V)) + ots_score e
          \<le> dCell (fst cl') (ots_dest e) pos"
    by (blast intro: order_trans)
  with Cons.IH [OF rest] show ?case by simp
qed

lemma foldE_relaxNull_post:
  assumes "foldE (relaxNull V pos dsrc ssrc) es cl = Inr cl'"
  shows "\<forall>ots\<in>set es.
           dsrc + ots_score ots \<le> dCell (fst cl') (ots_dest ots) pos
           \<and> ssrc + ots_score ots \<le> sCell (fst cl') (ots_dest ots) pos"
  using assms
proof (induction es arbitrary: cl)
  case Nil
  then show ?case by simp
next
  case (Cons e es)
  from Cons.prems obtain cl1 where one: "relaxNull V pos dsrc ssrc cl e = Inr cl1"
    and rest: "foldE (relaxNull V pos dsrc ssrc) es cl1 = Inr cl'"
    by (auto split: sum.splits)
  have "relaxed V pos cl1 cl'"
    using rest by (rule foldE_relaxed [rotated]) (rule relaxNull_relaxed)
  from grows_le [OF relaxed_grows [OF this]] relaxNull_post [OF one]
  have "dsrc + ots_score e \<le> dCell (fst cl') (ots_dest e) pos
      \<and> ssrc + ots_score e \<le> sCell (fst cl') (ots_dest e) pos"
    by (blast intro: order_trans)
  with Cons.IH [OF rest] show ?case by simp
qed

lemma sat_mono:
  assumes "sat V pos c b" and "grows V pos c c'"
    and "sCell c' b pos = sCell c b pos" and "dCell c' b pos = dCell c b pos"
  shows "sat V pos c' b"
  using assms(1) grows_le [OF assms(2)] unfolding sat_def assms(3,4)
  by (blast intro: order_trans)

lemma in_butlast: "b \<in> set ps \<Longrightarrow> b \<noteq> last ps \<Longrightarrow> b \<in> set (butlast ps)"
  by (induction ps) (auto split: if_splits)

lemma closureStep_post:
  assumes "closureStep V pos (c, ps, os) = Inr (c', ps', os')"
    and "sCell c' (last ps) pos = max (sCell c (last ps) pos) (dCell c (last ps) pos + delEnd (mutatorScores V))"
    and "dCell c' (last ps) pos = dCell c (last ps) pos"
  shows "sat V pos c' (last ps)"
proof -
  let ?a = "last ps"
  let ?dsrc = "dCell c ?a pos"
  let ?ssrc = "max (sCell c ?a pos) (?dsrc + delEnd (mutatorScores V))"
  let ?st0 = "(setS c ?a pos ?ssrc, butlast ps, os[?a := False])"
  from assms(1) have rng: "?a < nStates V" "?a < length os"
    by (auto simp: closureStep_def Let_def split: if_splits)
  from assms(1) rng obtain cl1 where
    e: "foldE (relaxEmit V pos ?dsrc ?ssrc) (outgoingEmit (machineScores V ! ?a)) ?st0 = Inr cl1"
    and n: "foldE (relaxNull V pos ?dsrc ?ssrc) (outgoingNull (machineScores V ! ?a)) cl1 = Inr (c', ps', os')"
    by (auto simp: closureStep_def Let_def split: sum.splits)
  have "relaxed V pos cl1 (c', ps', os')"
    using n by (rule foldE_relaxed [rotated]) (rule relaxNull_relaxed)
  from grows_le [OF relaxed_grows [OF this]] foldE_relaxEmit_post [OF e]
  have emit: "\<forall>ots\<in>set (outgoingEmit (machineScores V ! ?a)).
           max (?dsrc + delExtend (mutatorScores V)) (?ssrc + delOpen (mutatorScores V)) + ots_score ots
             \<le> dCell c' (ots_dest ots) pos"
    by (auto intro: order_trans)
  from foldE_relaxNull_post [OF n]
  have null: "\<forall>ots\<in>set (outgoingNull (machineScores V ! ?a)).
           ?dsrc + ots_score ots \<le> dCell c' (ots_dest ots) pos
           \<and> ?ssrc + ots_score ots \<le> sCell c' (ots_dest ots) pos"
    by simp
  show ?thesis
    unfolding sat_def assms(2,3) using emit null by simp
qed

lemma closureStep_inv:
  assumes step: "closureStep V pos (c, ps, os) = Inr (c', ps', os')"
    and ne: "ps \<noteq> []"
    and inv: "closureInv V pos stateOrder (c, ps, os)"
    and ord: "set stateOrder \<subseteq> {..<nStates V}"
  shows "closureInv V pos stateOrder (c', ps', os')"
proof -
  let ?a = "last ps"
  let ?ssrc = "max (sCell c ?a pos) (dCell c ?a pos + delEnd (mutatorScores V))"
  let ?c0 = "setS c ?a pos ?ssrc"
  let ?os0 = "os[?a := False]"
  from inv have len: "length os = nStates V" and sub: "set ps \<subseteq> set stateOrder"
    and out: "\<And>b. b < nStates V \<Longrightarrow> b \<notin> set stateOrder \<Longrightarrow> os ! b"
    and marked: "\<And>b. b \<in> set stateOrder \<Longrightarrow> os ! b \<Longrightarrow> b \<in> set ps"
    and settled: "\<And>b. b \<in> set stateOrder \<Longrightarrow> \<not> os ! b \<Longrightarrow> sat V pos c b"
    by (auto simp: closureInv_def)
  have a_ord: "?a \<in> set stateOrder"
    using ne sub last_in_set by blast
  then have a: "?a < nStates V"
    using ord by auto
  from closureStep_relaxed [OF step] have r: "relaxed V pos (?c0, butlast ps, ?os0) (c', ps', os')"
    by simp
  then have g1: "grows V pos ?c0 c'" and len': "length os' = length ?os0"
    and keep: "\<And>b. b < length ?os0 \<Longrightarrow> ?os0 ! b \<Longrightarrow> os' ! b"
    and stay: "set (butlast ps) \<subseteq> set ps'"
    and new: "set ps' \<subseteq> set (butlast ps) \<union> {b. b < length ?os0 \<and> \<not> ?os0 ! b}"
    and pushed: "\<And>b. b < length ?os0 \<Longrightarrow> os' ! b \<Longrightarrow> \<not> ?os0 ! b \<Longrightarrow> b \<in> set ps'"
    by (auto simp: relaxed_def)
  from r have changed: "\<forall>b. \<not> os' ! b \<longrightarrow> sCell c' b pos = sCell ?c0 b pos \<and> dCell c' b pos = dCell ?c0 b pos"
    unfolding relaxed_def prod.case by blast
  have g0: "grows V pos c ?c0"
    using a by (intro grows_setS) simp_all
  have g: "grows V pos c c'"
    using g0 g1 by (rule grows_trans)
  have 1: "length os' = nStates V"
    using len' len by simp
  have 2: "set ps' \<subseteq> set stateOrder"
  proof
    fix b assume "b \<in> set ps'"
    with new have "b \<in> set (butlast ps) \<or> (b < length ?os0 \<and> \<not> ?os0 ! b)" by auto
    then show "b \<in> set stateOrder"
    proof
      assume "b \<in> set (butlast ps)"
      then have "b \<in> set ps" by (rule in_set_butlastD)
      with sub show ?thesis by auto
    next
      assume b: "b < length ?os0 \<and> \<not> ?os0 ! b"
      show ?thesis
      proof (cases "b = ?a")
        case True
        with a_ord show ?thesis by simp
      next
        case False
        with b have "b < nStates V" and "\<not> os ! b" using len by auto
        with out show ?thesis by blast
      qed
    qed
  qed
  have 3: "\<forall>b<nStates V. b \<notin> set stateOrder \<longrightarrow> os' ! b"
  proof (intro allI impI)
    fix b assume b: "b < nStates V" "b \<notin> set stateOrder"
    with a_ord have "b \<noteq> ?a" by auto
    with out [OF b] b(1) len have "?os0 ! b" by simp
    with keep [of b] b(1) len show "os' ! b" by simp
  qed
  have 4: "\<forall>b\<in>set stateOrder. os' ! b \<longrightarrow> b \<in> set ps'"
  proof (intro ballI impI)
    fix b assume b: "b \<in> set stateOrder" "os' ! b"
    then have bn: "b < length ?os0" using ord len by auto
    show "b \<in> set ps'"
    proof (cases "?os0 ! b")
      case True
      then have "b \<noteq> ?a" using a len by auto
      with True have "os ! b" by simp
      from marked [OF b(1) this] \<open>b \<noteq> ?a\<close> have "b \<in> set (butlast ps)"
        by (rule in_butlast)
      with stay show ?thesis by auto
    next
      case False
      with pushed [OF bn b(2)] show ?thesis by simp
    qed
  qed
  have 5: "\<forall>b\<in>set stateOrder. \<not> os' ! b \<longrightarrow> sat V pos c' b"
  proof (intro ballI impI)
    fix b assume b: "b \<in> set stateOrder" "\<not> os' ! b"
    then have bn: "b < length ?os0" using ord len by auto
    from changed b(2) have same: "sCell c' b pos = sCell ?c0 b pos"
      "dCell c' b pos = dCell ?c0 b pos"
      by blast+
    from keep [OF bn] b(2) have off: "\<not> ?os0 ! b" by auto
    show "sat V pos c' b"
    proof (cases "b = ?a")
      case True
      show ?thesis
        unfolding True
        by (rule closureStep_post [OF step]) (use same True in simp_all)
    next
      case False
      with off have "\<not> os ! b" by simp
      from settled [OF b(1) this] have "sat V pos c b" .
      then show ?thesis
        using g by (rule sat_mono) (use same False in simp_all)
    qed
  qed
  from 1 2 3 4 5 show ?thesis
    by (simp add: closureInv_def)
qed

lemma setD_le: "c \<le> F \<Longrightarrow> v \<le> dCell F s p \<Longrightarrow> setD c s p v \<le> F"
  by (auto simp: le_fun_def setD_def dCell_def)

lemma setS_le: "c \<le> F \<Longrightarrow> v \<le> sCell F s p \<Longrightarrow> setS c s p v \<le> F"
  by (auto simp: le_fun_def setS_def sCell_def)

lemma relaxEmit_bound:
  fixes F :: "('v::{linorder,plus,zero,bot}) cells"
  assumes "relaxEmit V pos dsrc ssrc cl ots = Inr cl'" and "fst cl \<le> F"
    and "max (dsrc + delExtend (mutatorScores V)) (ssrc + delOpen (mutatorScores V)) + ots_score ots
           \<le> dCell F (ots_dest ots) pos"
  shows "fst cl' \<le> F"
  using assms
  by (cases cl) (auto simp: relaxEmit_def Let_def setD_le split: if_splits)

lemma relaxNull_bound:
  fixes F :: "('v::{linorder,plus,zero,bot}) cells"
  assumes "relaxNull V pos dsrc ssrc cl ots = Inr cl'" and "fst cl \<le> F"
    and "dsrc + ots_score ots \<le> dCell F (ots_dest ots) pos"
    and "ssrc + ots_score ots \<le> sCell F (ots_dest ots) pos"
  shows "fst cl' \<le> F"
  using assms
  by (cases cl) (auto simp: relaxNull_def Let_def setD_le setS_le split: if_splits)

lemma closureStep_bound:
  fixes F :: "('v::{linorder,plus,zero,bot}) cells"
  assumes mono: "\<And>a b x :: 'v. a \<le> b \<Longrightarrow> a + x \<le> b + x"
    and step: "closureStep V pos (c, ps, os) = Inr (c', ps', os')"
    and le: "c \<le> F" and sat: "sat V pos F (last ps)"
  shows "c' \<le> F"
proof -
  let ?a = "last ps"
  let ?dsrc = "dCell c ?a pos"
  let ?ssrc = "max (sCell c ?a pos) (?dsrc + delEnd (mutatorScores V))"
  let ?st0 = "(setS c ?a pos ?ssrc, butlast ps, os[?a := False])"
  from step have rng: "?a < nStates V" "?a < length os"
    by (auto simp: closureStep_def Let_def split: if_splits)
  from step rng obtain cl1 where
    e: "foldE (relaxEmit V pos ?dsrc ?ssrc) (outgoingEmit (machineScores V ! ?a)) ?st0 = Inr cl1"
    and n: "foldE (relaxNull V pos ?dsrc ?ssrc) (outgoingNull (machineScores V ! ?a)) cl1 = Inr (c', ps', os')"
    by (auto simp: closureStep_def Let_def split: sum.splits)
  have d: "?dsrc \<le> dCell F ?a pos" and s: "sCell c ?a pos \<le> sCell F ?a pos"
    using le by (simp_all add: cells_leD)
  from sat have k1: "dCell F ?a pos + delEnd (mutatorScores V) \<le> sCell F ?a pos"
    and k2: "\<And>ots. ots \<in> set (outgoingEmit (machineScores V ! ?a)) \<Longrightarrow>
            max (dCell F ?a pos + delExtend (mutatorScores V))
                (sCell F ?a pos + delOpen (mutatorScores V)) + ots_score ots
              \<le> dCell F (ots_dest ots) pos"
    and k3: "\<And>ots. ots \<in> set (outgoingNull (machineScores V ! ?a)) \<Longrightarrow>
            dCell F ?a pos + ots_score ots \<le> dCell F (ots_dest ots) pos
            \<and> sCell F ?a pos + ots_score ots \<le> sCell F (ots_dest ots) pos"
    by (auto simp: sat_def)
  have ss: "?ssrc \<le> sCell F ?a pos"
    using s mono [OF d, of "delEnd (mutatorScores V)"] k1 by (auto intro: order_trans)
  have le0: "fst ?st0 \<le> F"
    using le ss by (simp add: setS_le)
  have le1: "fst cl1 \<le> F"
  proof (rule foldE_invariant [OF e, where P = "\<lambda>cl. fst cl \<le> F"])
    show "fst ?st0 \<le> F" by (rule le0)
  next
    fix cl x cl'
    assume x: "x \<in> set (outgoingEmit (machineScores V ! ?a))" and i: "fst cl \<le> F"
      and f: "relaxEmit V pos ?dsrc ?ssrc cl x = Inr cl'"
    have "max (?dsrc + delExtend (mutatorScores V)) (?ssrc + delOpen (mutatorScores V)) + ots_score x
           \<le> dCell F (ots_dest x) pos"
    proof -
      have "max (?dsrc + delExtend (mutatorScores V)) (?ssrc + delOpen (mutatorScores V))
              \<le> max (dCell F ?a pos + delExtend (mutatorScores V))
                     (sCell F ?a pos + delOpen (mutatorScores V))"
        by (intro max.mono mono d ss)
      from mono [OF this] k2 [OF x] show ?thesis
        by (blast intro: order_trans)
    qed
    with f i show "fst cl' \<le> F"
      by (rule relaxEmit_bound)
  qed
  show "c' \<le> F"
  proof -
    have "fst (c', ps', os') \<le> F"
    proof (rule foldE_invariant [OF n, where P = "\<lambda>cl. fst cl \<le> F"])
      show "fst cl1 \<le> F" by (rule le1)
    next
      fix cl x cl'
      assume x: "x \<in> set (outgoingNull (machineScores V ! ?a))" and i: "fst cl \<le> F"
        and f: "relaxNull V pos ?dsrc ?ssrc cl x = Inr cl'"
      have b1: "?dsrc + ots_score x \<le> dCell F (ots_dest x) pos"
        using mono [OF d, of "ots_score x"] k3 [OF x] by (blast intro: order_trans)
      have b2: "?ssrc + ots_score x \<le> sCell F (ots_dest x) pos"
        using mono [OF ss, of "ots_score x"] k3 [OF x] by (blast intro: order_trans)
      from f i b1 b2 show "fst cl' \<le> F"
        by (rule relaxNull_bound)
    qed
    then show ?thesis by simp
  qed
qed

lemma closureInv_init:
  assumes "set stateOrder \<subseteq> {..<nStates V}"
  shows "closureInv V pos stateOrder (c, stateOrder, replicate (nStates V) True)"
  using assms by (auto simp: closureInv_def)

lemma closureInv_empty:
  assumes "closureInv V pos stateOrder (c, [], os)" and "a \<in> set stateOrder"
  shows "sat V pos c a"
  using assms by (auto simp: closureInv_def)

lemma closureInv_last:
  assumes "closureInv V pos stateOrder (c, ps, os)" and "ps \<noteq> []"
  shows "last ps \<in> set stateOrder"
  using assms last_in_set [of ps] by (auto simp: closureInv_def)

lemma closureLoop_fixpoint:
  fixes V :: "('v::{linorder,plus,zero,bot}) ViterbiMatrix"
  assumes mono: "\<And>a b x :: 'v. a \<le> b \<Longrightarrow> a + x \<le> b + x"
    and run: "closureLoop V pos cl = Some r"
  shows "\<forall>c'. r = Inr c' \<longrightarrow> closureInv V pos stateOrder cl \<longrightarrow> set stateOrder \<subseteq> {..<nStates V}
           \<longrightarrow> (\<forall>a\<in>set stateOrder. sat V pos c' a)
               \<and> (\<forall>F. fst cl \<le> F \<and> (\<forall>a\<in>set stateOrder. sat V pos F a) \<longrightarrow> c' \<le> F)"
proof (rule closureLoop.raw_induct [OF _ run], intro allI impI)
  fix loop :: "'v ViterbiMatrix \<Rightarrow> nat \<Rightarrow> 'v closure \<Rightarrow> (error + 'v cells) option"
    and V :: "'v ViterbiMatrix" and pos cl r c'
  assume IH: "\<And>V pos cl r. loop V pos cl = Some r \<Longrightarrow>
        \<forall>c'. r = Inr c' \<longrightarrow> closureInv V pos stateOrder cl \<longrightarrow> set stateOrder \<subseteq> {..<nStates V}
           \<longrightarrow> (\<forall>a\<in>set stateOrder. sat V pos c' a)
               \<and> (\<forall>F. fst cl \<le> F \<and> (\<forall>a\<in>set stateOrder. sat V pos F a) \<longrightarrow> c' \<le> F)"
    and eq: "(if fst (snd cl) = [] then Some (Inr (fst cl))
              else case closureStep V pos cl of Inl e \<Rightarrow> Some (Inl e) | Inr cl' \<Rightarrow> loop V pos cl')
             = Some r"
    and r: "r = Inr c'"
    and inv: "closureInv V pos stateOrder cl"
    and ord: "set stateOrder \<subseteq> {..<nStates V}"
  obtain c ps os where cl: "cl = (c, ps, os)" by (cases cl) auto
  show "(\<forall>a\<in>set stateOrder. sat V pos c' a)
        \<and> (\<forall>F. fst cl \<le> F \<and> (\<forall>a\<in>set stateOrder. sat V pos F a) \<longrightarrow> c' \<le> F)"
  proof (cases "ps = []")
    case True
    with eq cl r have "c' = c" by simp
    with inv cl True show ?thesis
      by (auto intro: closureInv_empty)
  next
    case False
    with eq cl r obtain c1 ps1 os1 where step: "closureStep V pos (c, ps, os) = Inr (c1, ps1, os1)"
      and lp: "loop V pos (c1, ps1, os1) = Some r"
      by (cases "closureStep V pos (c, ps, os)") auto
    from inv cl have inv0: "closureInv V pos stateOrder (c, ps, os)" by simp
    have inv1: "closureInv V pos stateOrder (c1, ps1, os1)"
      using step False inv0 ord by (rule closureStep_inv)
    from IH [OF lp] r inv1 ord
    have sat': "\<forall>a\<in>set stateOrder. sat V pos c' a"
      and least: "\<And>F. c1 \<le> F \<Longrightarrow> (\<forall>a\<in>set stateOrder. sat V pos F a) \<Longrightarrow> c' \<le> F"
      by auto
    have "c' \<le> F" if le: "c \<le> F" and F: "\<forall>a\<in>set stateOrder. sat V pos F a" for F
    proof -
      from F closureInv_last [OF inv0 False] have "sat V pos F (last ps)" by blast
      with mono step le have "c1 \<le> F" by (rule closureStep_bound)
      then show ?thesis using F by (rule least)
    qed
    with sat' cl show ?thesis by simp
  qed
qed

lemma closure_fixpoint:
  fixes V :: "('v::{linorder,plus,zero,bot}) ViterbiMatrix"
  assumes mono: "\<And>a b x :: 'v. a \<le> b \<Longrightarrow> a + x \<le> b + x"
    and run: "closure V stateOrder pos c = Some (Inr c')"
    and ord: "set stateOrder \<subseteq> {..<nStates V}"
  shows "\<forall>a\<in>set stateOrder. sat V pos c' a"
    and "c \<le> F \<Longrightarrow> \<forall>a\<in>set stateOrder. sat V pos F a \<Longrightarrow> c' \<le> F"
proof -
  from run have "closureLoop V pos (c, stateOrder, replicate (nStates V) True) = Some (Inr c')"
    by (simp add: closure_def)
  from closureLoop_fixpoint [OF mono this, of stateOrder] closureInv_init [OF ord, of pos c] ord
  have *: "(\<forall>a\<in>set stateOrder. sat V pos c' a)
          \<and> (\<forall>F. c \<le> F \<and> (\<forall>a\<in>set stateOrder. sat V pos F a) \<longrightarrow> c' \<le> F)"
    by simp
  from * show "\<forall>a\<in>set stateOrder. sat V pos c' a" by blast
  from * show "c \<le> F \<Longrightarrow> \<forall>a\<in>set stateOrder. sat V pos F a \<Longrightarrow> c' \<le> F" by blast
qed

section \<open>The fill is monotone in the cells\<close>

lemma local_irrelevant [simp]:
  "nStates (V\<lparr>local := b\<rparr>) = nStates V"
  "seqLen (V\<lparr>local := b\<rparr>) = seqLen V"
  "maxDupLenAt (V\<lparr>local := b\<rparr>) = maxDupLenAt V"
  "loglike (V\<lparr>local := b\<rparr>) = loglike V"
  "sat (V\<lparr>local := b\<rparr>) = sat V"
  by (auto simp: nStates_def seqLen_def maxDupLenAt_def loglike_def sat_def fun_eq_iff)

lemma fill_local_irrelevant [simp]:
  "fillEmit (V\<lparr>local := b\<rparr>) = fillEmit V"
  "fillNull (V\<lparr>local := b\<rparr>) = fillNull V"
  "fillDup (V\<lparr>local := b\<rparr>) = fillDup V"
  "seedDup (V\<lparr>local := b\<rparr>) = seedDup V"
  by (auto simp: fillEmit_def fillNull_def fillDup_def seedDup_def fun_eq_iff)

lemma fillState_local_irrelevant [simp]:
  "fillState (V\<lparr>local := b\<rparr>) = fillState V"
  "seedState (V\<lparr>local := b\<rparr>) = seedState V"
  by (simp_all add: fillState_def seedState_def fun_eq_iff Let_def cong: sum.case_cong if_cong)

lemma seedColumn_local_irrelevant [simp]:
  "seedColumn (V\<lparr>local := b\<rparr>) = seedColumn V"
  by (simp add: seedColumn_def fun_eq_iff)

lemma setS_mono: "c \<le> d \<Longrightarrow> v \<le> w \<Longrightarrow> setS c s p v \<le> setS d s p w"
  by (auto simp: le_fun_def setS_def)

lemma setD_mono: "c \<le> d \<Longrightarrow> v \<le> w \<Longrightarrow> setD c s p v \<le> setD d s p w"
  by (auto simp: le_fun_def setD_def)

lemma setT_mono: "c \<le> d \<Longrightarrow> v \<le> w \<Longrightarrow> setT c s p k v \<le> setT d s p k w"
  by (auto simp: le_fun_def setT_def)

lemma foldE_lockstep:
  assumes "foldE f xs s = Inr s'" and "foldE f xs t = Inr t'" and "R s t"
    and "\<And>x s t s' t'. x \<in> set xs \<Longrightarrow> R s t \<Longrightarrow> f s x = Inr s' \<Longrightarrow> f t x = Inr t' \<Longrightarrow> R s' t'"
  shows "R s' t'"
  using assms
proof (induction xs arbitrary: s t)
  case Nil
  then show ?case by simp
next
  case (Cons x xs)
  from Cons.prems(1) obtain s1 where s1: "f s x = Inr s1" and rs: "foldE f xs s1 = Inr s'"
    by (auto split: sum.splits)
  from Cons.prems(2) obtain t1 where t1: "f t x = Inr t1" and rt: "foldE f xs t1 = Inr t'"
    by (auto split: sum.splits)
  have "R s1 t1"
    using Cons.prems(4) [OF _ Cons.prems(3) s1 t1] by simp
  show ?case
    by (rule Cons.IH [OF rs rt \<open>R s1 t1\<close>]) (blast intro: Cons.prems(4) [OF list.set_intros(2)])
qed

lemma foldl_lockstep:
  assumes "R s t" and "\<And>x s t. R s t \<Longrightarrow> R (f s x) (f t x)"
  shows "R (foldl f s xs) (foldl f t xs)"
  using assms by (induction xs arbitrary: s t) auto

lemma fillEmit_mono:
  fixes c d :: "('v::{linorder,plus,zero,bot}) cells"
  assumes mono: "\<And>a b x :: 'v. a \<le> b \<Longrightarrow> a + x \<le> b + x"
    and "fillEmit V pos state c its = Inr c'" and "fillEmit V pos state d its = Inr d'" and le: "c \<le> d"
  shows "c' \<le> d'"
proof -
  from assms(2,3) have c': "c' = setS c state pos
          (max (sCell c state pos)
               (sCell c (its_src its) (pos - 1) + its_score its + noGap (mutatorScores V)
                  + sub (mutatorScores V) (its_base its) (seq V ! (pos - 1))))"
    and d': "d' = setS d state pos
          (max (sCell d state pos)
               (sCell d (its_src its) (pos - 1) + its_score its + noGap (mutatorScores V)
                  + sub (mutatorScores V) (its_base its) (seq V ! (pos - 1))))"
    by (auto simp: fillEmit_def split: if_splits)
  show ?thesis
    unfolding c' d'
    by (intro setS_mono le max.mono mono cells_leD)
qed

lemma fillNull_mono:
  fixes c d :: "('v::{linorder,plus,zero,bot}) cells"
  assumes mono: "\<And>a b x :: 'v. a \<le> b \<Longrightarrow> a + x \<le> b + x"
    and "fillNull V pos state c its = Inr c'" and "fillNull V pos state d its = Inr d'" and le: "c \<le> d"
  shows "c' \<le> d'"
proof -
  from assms(2,3) have c': "c' = setS c state pos (max (sCell c state pos) (sCell c (its_src its) pos + its_score its))"
    and d': "d' = setS d state pos (max (sCell d state pos) (sCell d (its_src its) pos + its_score its))"
    by (auto simp: fillNull_def split: if_splits)
  show ?thesis
    unfolding c' d'
    by (intro setS_mono le max.mono mono cells_leD)
qed

lemma fillDup_mono:
  fixes c d :: "('v::{linorder,plus,zero,bot}) cells"
  assumes mono: "\<And>a b x :: 'v. a \<le> b \<Longrightarrow> a + x \<le> b + x" and le: "c \<le> d"
  shows "fillDup V ss pos state c k \<le> fillDup V ss pos state d k"
  unfolding fillDup_def
  by (intro setT_mono le mono cells_leD)

lemma seedDup_mono:
  fixes c d :: "('v::{linorder,plus,zero,bot}) cells"
  assumes mono: "\<And>a b x :: 'v. a \<le> b \<Longrightarrow> a + x \<le> b + x" and le: "c \<le> d"
  shows "seedDup V pos state c k \<le> seedDup V pos state d k"
  unfolding seedDup_def
  by (intro setT_mono le max.mono mono cells_leD)

lemma seedState_mono:
  fixes c d :: "('v::{linorder,plus,zero,bot}) cells"
  assumes mono: "\<And>a b x :: 'v. a \<le> b \<Longrightarrow> a + x \<le> b + x" and le: "c \<le> d"
  shows "seedState V pos c state \<le> seedState V pos d state"
  unfolding seedState_def
  by (rule foldl_lockstep [where R = "(\<le>)", OF le]) (rule seedDup_mono [OF mono])

lemma seedColumn_mono:
  fixes c d :: "('v::{linorder,plus,zero,bot}) cells"
  assumes mono: "\<And>a b x :: 'v. a \<le> b \<Longrightarrow> a + x \<le> b + x" and le: "c \<le> d"
  shows "seedColumn V pos c \<le> seedColumn V pos d"
proof (cases "pos > 0")
  case True
  have "foldl (seedState V pos) c [0 ..< nStates V] \<le> foldl (seedState V pos) d [0 ..< nStates V]"
    by (rule foldl_lockstep [where R = "(\<le>)", OF le]) (rule seedState_mono [OF mono])
  with True show ?thesis by (simp add: seedColumn_def)
next
  case False
  with le show ?thesis by (simp add: seedColumn_def)
qed

lemma fillState_mono:
  fixes c d :: "('v::{linorder,plus,zero,bot}) cells"
  assumes mono: "\<And>a b x :: 'v. a \<le> b \<Longrightarrow> a + x \<le> b + x"
    and fc: "fillState V pos c state = Inr c'" and fd: "fillState V pos d state = Inr d'" and le: "c \<le> d"
  shows "c' \<le> d'"
proof -
  let ?ss = "machineScores V ! state"
  let ?mdl = "maxDupLenAt V ?ss"
  let ?finish = "\<lambda>c2. if ?mdl > 0 \<and> pos > 0 then
                            foldl (fillDup V ?ss pos state)
                              (setS c2 state pos
                                 (max (sCell c2 state pos)
                                      (tCell c2 state (pos - 1) 0
                                         + sub (mutatorScores V) (tanDupBase ?ss 0) (seq V ! (pos - 1)))))
                              [0 ..< ?mdl - 1]
                          else c2"
  from fc obtain c1 c2 where
    c1: "(if pos > 0 then foldE (fillEmit V pos state) (incomingEmit ?ss) c else Inr c) = Inr c1"
    and c2: "foldE (fillNull V pos state) (incomingNull ?ss) c1 = Inr c2"
    and c': "c' = ?finish c2"
    by (auto simp: fillState_def Let_def split: if_splits sum.splits)
  from fd obtain d1 d2 where
    d1: "(if pos > 0 then foldE (fillEmit V pos state) (incomingEmit ?ss) d else Inr d) = Inr d1"
    and d2: "foldE (fillNull V pos state) (incomingNull ?ss) d1 = Inr d2"
    and d': "d' = ?finish d2"
    by (auto simp: fillState_def Let_def split: if_splits sum.splits)
  have le1: "c1 \<le> d1"
  proof (cases "pos > 0")
    case True
    with c1 d1 have "foldE (fillEmit V pos state) (incomingEmit ?ss) c = Inr c1"
      "foldE (fillEmit V pos state) (incomingEmit ?ss) d = Inr d1"
      by simp_all
    then show ?thesis
      using le
    proof (rule foldE_lockstep [where R = "(\<le>)"])
      fix x and s t s' t' :: "'v cells"
      assume a: "s \<le> t" and b: "fillEmit V pos state s x = Inr s'" and c: "fillEmit V pos state t x = Inr t'"
      show "s' \<le> t'" by (rule fillEmit_mono [OF mono b c a])
    qed
  next
    case False
    with c1 d1 le show ?thesis by simp
  qed
  have le2: "c2 \<le> d2"
    using c2 d2 le1
  proof (rule foldE_lockstep [where R = "(\<le>)"])
    fix x and s t s' t' :: "'v cells"
    assume a: "s \<le> t" and b: "fillNull V pos state s x = Inr s'" and c: "fillNull V pos state t x = Inr t'"
    show "s' \<le> t'" by (rule fillNull_mono [OF mono b c a])
  qed
  show ?thesis
  proof (cases "?mdl > 0 \<and> pos > 0")
    case True
    have "foldl (fillDup V ?ss pos state)
            (setS c2 state pos (max (sCell c2 state pos)
               (tCell c2 state (pos - 1) 0 + sub (mutatorScores V) (tanDupBase ?ss 0) (seq V ! (pos - 1)))))
            [0 ..< ?mdl - 1]
          \<le> foldl (fillDup V ?ss pos state)
            (setS d2 state pos (max (sCell d2 state pos)
               (tCell d2 state (pos - 1) 0 + sub (mutatorScores V) (tanDupBase ?ss 0) (seq V ! (pos - 1)))))
            [0 ..< ?mdl - 1]"
    proof (rule foldl_lockstep [where R = "(\<le>)"])
      show "setS c2 state pos (max (sCell c2 state pos)
               (tCell c2 state (pos - 1) 0 + sub (mutatorScores V) (tanDupBase ?ss 0) (seq V ! (pos - 1))))
          \<le> setS d2 state pos (max (sCell d2 state pos)
               (tCell d2 state (pos - 1) 0 + sub (mutatorScores V) (tanDupBase ?ss 0) (seq V ! (pos - 1))))"
        by (intro setS_mono le2 max.mono mono cells_leD)
    next
      fix x and s t :: "'v cells"
      assume "s \<le> t"
      with mono show "fillDup V ?ss pos state s x \<le> fillDup V ?ss pos state t x"
        by (rule fillDup_mono)
    qed
    with True c' d' show ?thesis by simp
  next
    case False
    with c' d' le2 show ?thesis by auto
  qed
qed

lemma fillStates_mono:
  fixes c d :: "('v::{linorder,plus,zero,bot}) cells"
  assumes mono: "\<And>a b x :: 'v. a \<le> b \<Longrightarrow> a + x \<le> b + x"
    and fc: "foldE (fillState V pos) xs c = Inr c'" and fd: "foldE (fillState V pos) xs d = Inr d'"
    and le: "c \<le> d"
  shows "c' \<le> d'"
  using fc fd le
proof (rule foldE_lockstep [where R = "(\<le>)"])
  fix x and s t s' t' :: "'v cells"
  assume a: "s \<le> t" and b: "fillState V pos s x = Inr s'" and c: "fillState V pos t x = Inr t'"
  show "s' \<le> t'" by (rule fillState_mono [OF mono b c a])
qed

section \<open>Local and global mode\<close>

lemma fillColumn_mono:
  fixes c d :: "('v::{linorder,plus,zero,bot}) cells"
  assumes mono: "\<And>a b x :: 'v. a \<le> b \<Longrightarrow> a + x \<le> b + x"
    and fc: "fillColumn V stateOrder c pos = Some (Inr c')"
    and fd: "fillColumn (V\<lparr>local := b\<rparr>) stateOrder d pos = Some (Inr d')"
    and le: "c \<le> d"
  shows "c' \<le> d'"
proof -
  let ?W = "V\<lparr>local := b\<rparr>"
  from fc obtain c1 c2 where c1: "foldE (fillState V pos) stateOrder c = Inr c1"
    and c2: "closure V stateOrder pos c1 = Some (Inr c2)" and c': "c' = seedColumn V pos c2"
    by (rule fillColumn_parts)
  from fd obtain d1 d2 where d1: "foldE (fillState ?W pos) stateOrder d = Inr d1"
    and d2: "closure ?W stateOrder pos d1 = Some (Inr d2)" and d': "d' = seedColumn ?W pos d2"
    by (rule fillColumn_parts)
  from d1 have d1': "foldE (fillState V pos) stateOrder d = Inr d1" by simp
  have ord: "set stateOrder \<subseteq> {..<nStates V}"
    using c1 by (rule fillStates_cells(1))
  then have ordW: "set stateOrder \<subseteq> {..<nStates ?W}" by simp
  have le1: "c1 \<le> d1"
    using mono c1 d1' le by (rule fillStates_mono)
  have "d1 \<le> d2"
    using closure_grows [OF d2] by (rule grows_cells(4))
  with le1 have le12: "c1 \<le> d2" by (rule order_trans)
  have "\<forall>a\<in>set stateOrder. sat ?W pos d2 a"
    using mono d2 ordW by (rule closure_fixpoint(1))
  then have satd: "\<forall>a\<in>set stateOrder. sat V pos d2 a" by simp
  have "c2 \<le> d2"
    using mono c2 ord le12 satd by (rule closure_fixpoint(2))
  with mono have "seedColumn V pos c2 \<le> seedColumn V pos d2"
    by (rule seedColumn_mono)
  with c' d' show ?thesis by simp
qed

lemma fillColumns_mono:
  fixes c d :: "('v::{linorder,plus,zero,bot}) cells"
  assumes mono: "\<And>a b x :: 'v. a \<le> b \<Longrightarrow> a + x \<le> b + x"
    and "fillColumns V stateOrder ps c = Some (Inr c')"
    and "fillColumns (V\<lparr>local := b\<rparr>) stateOrder ps d = Some (Inr d')"
    and "c \<le> d"
  shows "c' \<le> d'"
  using assms(2-)
proof (induction ps arbitrary: c d)
  case Nil
  then show ?case by simp
next
  case (Cons pos ps)
  from Cons.prems(1) obtain c1 where c1: "fillColumn V stateOrder c pos = Some (Inr c1)"
    and rc: "fillColumns V stateOrder ps c1 = Some (Inr c')"
    by (auto split: option.splits sum.splits)
  from Cons.prems(2) obtain d1 where d1: "fillColumn (V\<lparr>local := b\<rparr>) stateOrder d pos = Some (Inr d1)"
    and rd: "fillColumns (V\<lparr>local := b\<rparr>) stateOrder ps d1 = Some (Inr d')"
    by (auto split: option.splits sum.splits)
  have "c1 \<le> d1"
    using mono c1 d1 Cons.prems(3) by (rule fillColumn_mono)
  with rc rd show ?case by (rule Cons.IH)
qed

lemma initCells_mono:
  fixes V :: "('v::{linorder,plus,zero,order_bot}) ViterbiMatrix"
  assumes g: "initCells (V\<lparr>local := False\<rparr>) = Inr cG"
    and l: "initCells (V\<lparr>local := True\<rparr>) = Inr cL"
  shows "cG \<le> cL"
proof (rule cells_leI)
  fix s p k
  from g have n: "0 < nStates V"
    by (auto simp: initCells_def split: if_splits)
  show "sCell cG s p \<le> sCell cL s p"
    using n by (simp add: initCells_cells(3) [OF g] initCells_cells(3) [OF l])
  show "dCell cG s p \<le> dCell cL s p"
    by (simp add: initCells_cells(2) [OF g] initCells_cells(2) [OF l])
  show "tCell cG s p k \<le> tCell cL s p k"
    by (simp add: initCells_cells(1) [OF g] initCells_cells(1) [OF l])
qed

lemma loglike_setS [simp]: "loglike V (setS c (nStates V - 1) (seqLen V) v) = v"
  by (simp add: loglike_def)

lemma finalLoglike_fold_ge:
  fixes c :: "('v::{linorder,plus,zero,bot}) cells"
  shows "loglike V c \<le> loglike V (foldl (\<lambda>c state. setS c (nStates V - 1) (seqLen V)
            (max (loglike V c) (sCell c state (seqLen V)))) c xs)"
proof (induction xs arbitrary: c)
  case Nil
  show ?case by simp
next
  case (Cons x xs)
  let ?c1 = "setS c (nStates V - 1) (seqLen V) (max (loglike V c) (sCell c x (seqLen V)))"
  have "loglike V c \<le> loglike V ?c1" by (simp add: loglike_def)
  also note Cons.IH [of ?c1]
  finally show ?case by simp
qed

lemma finalLoglike_ge:
  fixes c :: "('v::{linorder,plus,zero,bot}) cells"
  shows "loglike V c \<le> loglike V (finalLoglike V c)"
  using finalLoglike_fold_ge [of V c] by (simp add: finalLoglike_def)

lemma logprob_add_mono:
  fixes a b x :: "real logprob"
  shows "a \<le> b \<Longrightarrow> a + x \<le> b + x"
  by (cases a; cases b; cases x) simp_all

lemma lineLocalCells_filled: "ViterbiMatrix_fill lineLocalV [0, 1, 2] = Some (Inr lineLocalCells)"
proof -
  have "(case ViterbiMatrix_fill lineLocalV [0, 1, 2] of Some (Inr c) \<Rightarrow> True | _ \<Rightarrow> False)"
    by code_simp
  then show ?thesis
    by (auto simp: lineLocalCells_def split: option.splits sum.splits)
qed

text \<open>
  C4. Local dominance: when addition of scores is monotone in its left argument (as
  it is for doubles that are not NaN), and the fill succeeds on the same matrix both
  with \<open>local = true\<close> and with \<open>local = false\<close> and the same state order, the final
  log-likelihood \<open>S[N-1, L]\<close> of the local fill is greater than or equal to that of the
  global fill.
\<close>

theorem C4_local_dominates:
  fixes V :: "('v::{linorder,plus,zero,order_bot}) ViterbiMatrix"
  assumes mono: "\<And>a b x :: 'v. a \<le> b \<Longrightarrow> a + x \<le> b + x"
    and l: "ViterbiMatrix_fill (V\<lparr>local := True\<rparr>) stateOrder = Some (Inr cL)"
    and g: "ViterbiMatrix_fill (V\<lparr>local := False\<rparr>) stateOrder = Some (Inr cG)"
  shows "loglike V cG \<le> loglike V cL"
proof -
  let ?G = "V\<lparr>local := False\<rparr>" and ?L = "V\<lparr>local := True\<rparr>"
  from g obtain g0 g1 where g0: "initCells ?G = Inr g0"
    and g1: "fillColumns ?G stateOrder [0 ..< Suc (seqLen V)] g0 = Some (Inr g1)"
    and cG: "cG = finalLoglike ?G g1"
    by (auto simp: ViterbiMatrix_fill_def split: sum.splits option.splits)
  from l obtain l0 l1 where l0: "initCells ?L = Inr l0"
    and l1: "fillColumns ?L stateOrder [0 ..< Suc (seqLen V)] l0 = Some (Inr l1)"
    and cL: "cL = finalLoglike ?L l1"
    by (auto simp: ViterbiMatrix_fill_def split: sum.splits option.splits)
  have le0: "g0 \<le> l0"
    using g0 l0 by (rule initCells_mono)
  from l1 have l1': "fillColumns (?G\<lparr>local := True\<rparr>) stateOrder [0 ..< Suc (seqLen V)] l0 = Some (Inr l1)"
    by simp
  from g1 have g1': "fillColumns ?G stateOrder [0 ..< Suc (seqLen V)] g0 = Some (Inr g1)"
    by simp
  have "g1 \<le> l1"
    using mono g1' l1' le0 by (rule fillColumns_mono)
  then have "loglike V g1 \<le> loglike V l1"
    by (simp add: loglike_def cells_leD)
  also have "\<dots> \<le> loglike V cL"
    using finalLoglike_ge [of ?L l1] by (simp add: cL)
  finally show ?thesis
    by (simp add: cG finalLoglike_def)
qed

theorem C4_local_dominates_witness:
  "ViterbiMatrix_fill (lineV\<lparr>local := True\<rparr>) [0, 1, 2] = Some (Inr lineLocalCells)
   \<and> ViterbiMatrix_fill (lineV\<lparr>local := False\<rparr>) [0, 1, 2] = Some (Inr lineCells)
   \<and> loglike lineV lineCells \<le> loglike lineV lineLocalCells
   \<and> loglike lineV lineCells = Fin (- 1) \<and> loglike lineV lineLocalCells = Fin (- 1)"
proof -
  have v: "loglike lineV lineCells = Fin (- 1)" "loglike lineV lineLocalCells = Fin (- 1)"
    by code_simp+
  have l: "ViterbiMatrix_fill (lineV\<lparr>local := True\<rparr>) [0, 1, 2] = Some (Inr lineLocalCells)"
    using lineLocalCells_filled by (simp add: lineLocalV_def)
  have "lineV\<lparr>local := False\<rparr> = lineV"
    by (simp add: lineV_def)
  with lineCells_filled
  have g: "ViterbiMatrix_fill (lineV\<lparr>local := False\<rparr>) [0, 1, 2] = Some (Inr lineCells)"
    by simp
  have "loglike lineV lineCells \<le> loglike lineV lineLocalCells"
    using logprob_add_mono l g by (rule C4_local_dominates)
  with l g v show ?thesis by (intro conjI)
qed

end
